(* ===== verification/Bridge_Prelude.thy ===== *)
theory Bridge_Prelude
  imports Main "HOL-Library.Word" "HOL-Library.Multiset"
begin

text \<open>
  Shared vocabulary of the development: the machine types of the Go sources, results with an
  error branch, little-endian reads, the named collections the component proofs draw on, and the
  generic notion of a transition system whose invariants are proved once and then interpreted by
  every stateful component.
\<close>

unbundle bit_operations_syntax

section \<open>Machine types\<close>

type_synonym byte = "8 word"
type_synonym bytes = "8 word list"
type_synonym u16 = "16 word"
type_synonym u32 = "32 word"
type_synonym u64 = "64 word"

text \<open>A \<^verbatim>\<open>chainhash.Hash\<close> or any other \<^verbatim>\<open>[32]byte\<close>: its bytes in memory order.\<close>

type_synonym hash = bytes

abbreviation zero_hash :: hash where
  "zero_hash \<equiv> replicate 32 0"

named_theorems bridge_simps \<open>unfolding rules of the operations\<close>
named_theorems cursor_intros \<open>progress facts of the byte cursor\<close>
named_theorems store_simps \<open>field facts of the header store's operations\<close>
named_theorems client_simps \<open>field facts of the up-tunnel client's operations\<close>

section \<open>Results with an error branch\<close>

definition bind_res :: "'e + 'a \<Rightarrow> ('a \<Rightarrow> 'e + 'b) \<Rightarrow> 'e + 'b" where
  "bind_res r f = (case r of Inl e \<Rightarrow> Inl e | Inr a \<Rightarrow> f a)"

lemma bind_res_simps [simp]:
  "bind_res (Inl e) f = Inl e"
  "bind_res (Inr a) f = f a"
  by (simp_all add: bind_res_def)

lemma bind_res_Inr_iff:
  "bind_res r f = Inr y \<longleftrightarrow> (\<exists>a. r = Inr a \<and> f a = Inr y)"
  by (cases r) auto

lemma bind_res_cong [fundef_cong]:
  "r = r' \<Longrightarrow> (\<And>a. r' = Inr a \<Longrightarrow> f a = g a) \<Longrightarrow> bind_res r f = bind_res r' g"
  by (cases r') auto

definition is_ok :: "'e + 'a \<Rightarrow> bool" where
  "is_ok r = (case r of Inl _ \<Rightarrow> False | Inr _ \<Rightarrow> True)"

lemma is_ok_simps [simp]: "is_ok (Inr a)" "\<not> is_ok (Inl e)"
  by (simp_all add: is_ok_def)

section \<open>Little-endian reads\<close>

fun le_nat :: "bytes \<Rightarrow> nat" where
  "le_nat [] = 0"
| "le_nat (x # xs) = unat x + 256 * le_nat xs"

lemma le_nat_bound: "le_nat xs < 256 ^ length xs"
proof (induction xs)
  case (Cons x xs)
  have "unat x < 256" using unsigned_less [of x] by simp
  with Cons.IH show ?case by simp
qed simp

fun nat_le :: "nat \<Rightarrow> nat \<Rightarrow> bytes" where
  "nat_le 0 n = []"
| "nat_le (Suc k) n = word_of_nat n # nat_le k (n div 256)"

lemma length_nat_le [simp]: "length (nat_le k n) = k"
  by (induction k arbitrary: n) auto

lemma le_nat_nat_le: "n < 256 ^ k \<Longrightarrow> le_nat (nat_le k n) = n"
proof (induction k arbitrary: n)
  case (Suc k)
  then have "n div 256 < 256 ^ k" by (simp add: less_mult_imp_div_less mult.commute)
  moreover have "unat (word_of_nat n :: byte) = n mod 256"
    by (simp add: unat_of_nat)
  ultimately show ?case using Suc.IH [of "n div 256"] by simp
qed simp

section \<open>Heights: 32-bit words that step by one\<close>

lemma unat_plus_one: "h \<noteq> - 1 \<Longrightarrow> unat (h + 1) = unat h + 1" for h :: "'a::len word"
  by (metis Suc_eq_plus1 add.commute add_eq_0_iff unatSuc)

lemma unat_plus_one_less: "h < c \<Longrightarrow> unat (h + 1) = unat h + 1" for h :: "'a::len word"
  by (rule unat_plus_one) (metis word_order.extremum_strict)

lemma unat_minus_one_less: "h \<noteq> 0 \<Longrightarrow> unat (h - 1) < unat h" for h :: "'a::len word"
  by (simp add: unat_minus_one unat_gt_0)

section \<open>Transition systems\<close>

text \<open>
  A component with state is a start predicate and a step relation. An invariant that the start
  states satisfy and every step keeps holds in every reachable state; each stateful component
  interprets this contract on its own step relation.
\<close>

inductive run :: "('s \<Rightarrow> 'e \<Rightarrow> 's \<Rightarrow> bool) \<Rightarrow> 's \<Rightarrow> 'e list \<Rightarrow> 's \<Rightarrow> bool"
  for step :: "'s \<Rightarrow> 'e \<Rightarrow> 's \<Rightarrow> bool" where
  run_Nil: "run step s [] s"
| run_Cons: "step s e t \<Longrightarrow> run step t es u \<Longrightarrow> run step s (e # es) u"

inductive_simps run_Nil_iff [simp]: "run step s [] t"
inductive_simps run_Cons_iff: "run step s (e # es) t"

lemma run_append: "run step s (es @ fs) t \<longleftrightarrow> (\<exists>u. run step s es u \<and> run step u fs t)"
  by (induction es arbitrary: s) (auto simp: run_Cons_iff)

lemma run_snoc: "run step s (es @ [e]) t \<longleftrightarrow> (\<exists>u. run step s es u \<and> step u e t)"
  by (auto simp: run_append run_Cons_iff)

text \<open>A run takes only the events it lists, so an invariant may speak of them.\<close>

lemma run_restrict:
  "run step s es t \<Longrightarrow> set es \<subseteq> E \<Longrightarrow> run (\<lambda>s e t. step s e t \<and> e \<in> E) s es t"
  by (induction rule: run.induct) (auto intro: run.intros)

lemma run_mono:
  "run step s es t \<Longrightarrow> (\<And>s e t. step s e t \<Longrightarrow> step' s e t) \<Longrightarrow> run step' s es t"
  by (induction rule: run.induct) (auto intro: run.intros)

locale transition_system =
  fixes start :: "'s \<Rightarrow> bool"
    and step :: "'s \<Rightarrow> 'e \<Rightarrow> 's \<Rightarrow> bool"
    and invar :: "'s \<Rightarrow> bool"
  assumes invar_start: "start s \<Longrightarrow> invar s"
    and invar_step: "invar s \<Longrightarrow> step s e t \<Longrightarrow> invar t"
begin

lemma invar_run: "run step s es t \<Longrightarrow> invar s \<Longrightarrow> invar t"
  by (induction rule: run.induct) (auto dest: invar_step)

lemma invar_reach: "start s \<Longrightarrow> run step s es t \<Longrightarrow> invar t"
  by (blast intro: invar_run invar_start)

end

end
