(* ===== verification/Bump_Guard.thy ===== *)
theory Bump_Guard
  imports Bridge_Prelude
begin

text \<open>
  The allocation guard of \<^verbatim>\<open>src/headers/bumpguard.go\<close>: a cursor over an object's bytes, its
  bounded reads, and \<^verbatim>\<open>GuardBUMPs\<close>, the walk over the BUMP section that checks every declared
  count against the bytes present. The object codec (\<^verbatim>\<open>objfmt\<close>, a module outside the repository)
  is a parameter: the version word it reads and its three marker constants. The lemmas compare the
  guard with the reader it protects, one that sizes every slice straight from the wire.
\<close>

section \<open>The cursor and its reads\<close>

datatype bump_err = ErrTruncated | ErrUnsatisfiableLength

record cursor =
  cb :: bytes
  pos :: nat

record beef_codec =
  BEEFVersionWord :: "bytes \<Rightarrow> u32 option"
  AtomicBEEFMarker :: u32
  BEEFMarkerV1 :: u32
  BEEFMarkerV2 :: u32

definition remaining :: "cursor \<Rightarrow> int" where
  "remaining c = int (length (cb c)) - int (pos c)"

definition skip :: "int \<Rightarrow> cursor \<Rightarrow> bump_err + cursor" where
  "skip n c = (if n < 0 \<or> remaining c < n then Inl ErrTruncated
               else Inr (c\<lparr>pos := pos c + nat n\<rparr>))"

definition byteAt :: "cursor \<Rightarrow> bump_err + (byte \<times> cursor)" where
  "byteAt c = (if remaining c < 1 then Inl ErrTruncated
               else Inr (cb c ! pos c, c\<lparr>pos := pos c + 1\<rparr>))"

definition fits :: "u64 \<Rightarrow> int \<Rightarrow> cursor \<Rightarrow> bool" where
  "fits n each c = (if each \<le> 0 then False else uint n \<le> remaining c div each)"

definition le_read :: "nat \<Rightarrow> cursor \<Rightarrow> bump_err + (u64 \<times> cursor)" where
  "le_read k c = (if remaining c < int k then Inl ErrTruncated
                  else Inr (word_of_nat (le_nat (take k (drop (pos c) (cb c)))),
                            c\<lparr>pos := pos c + k\<rparr>))"

definition varInt :: "cursor \<Rightarrow> bump_err + (u64 \<times> cursor)" where
  "varInt c = bind_res (byteAt c) (\<lambda>(p, c).
     if p = 0xFD then le_read 2 c
     else if p = 0xFE then le_read 4 c
     else if p = 0xFF then le_read 8 c
     else Inr (ucast p, c))"

definition maxTreeHeight :: byte where "maxTreeHeight = 64"
definition minLeafBytes :: int where "minLeafBytes = 2"

section \<open>The guard\<close>

definition read_leaf :: "cursor \<Rightarrow> bump_err + cursor" where
  "read_leaf c = bind_res (varInt c) (\<lambda>(_, c). bind_res (byteAt c) (\<lambda>(flags, c).
     if flags AND 1 = 0 then skip 32 c else Inr c))"

fun leaf_loop :: "nat \<Rightarrow> cursor \<Rightarrow> bump_err + cursor" where
  "leaf_loop 0 c = Inr c"
| "leaf_loop (Suc n) c = bind_res (read_leaf c) (leaf_loop n)"

fun level_loop :: "nat \<Rightarrow> cursor \<Rightarrow> bump_err + cursor" where
  "level_loop 0 c = Inr c"
| "level_loop (Suc n) c = bind_res (varInt c) (\<lambda>(nLeaves, c).
     if \<not> fits nLeaves minLeafBytes c then Inl ErrUnsatisfiableLength
     else bind_res (leaf_loop (unat nLeaves) c) (level_loop n))"

fun bump_loop :: "nat \<Rightarrow> cursor \<Rightarrow> bump_err + cursor" where
  "bump_loop 0 c = Inr c"
| "bump_loop (Suc n) c = bind_res (varInt c) (\<lambda>(_, c). bind_res (byteAt c) (\<lambda>(treeHeight, c).
     if treeHeight > maxTreeHeight then Inl ErrUnsatisfiableLength
     else bind_res (level_loop (unat treeHeight) c) (bump_loop n)))"

definition guard_body :: "cursor \<Rightarrow> bump_err + cursor" where
  "guard_body c = bind_res (varInt c) (\<lambda>(nBUMPs, c).
     if \<not> fits nBUMPs 3 c then Inl ErrUnsatisfiableLength
     else bump_loop (unat nBUMPs) c)"

definition bump_start :: "beef_codec \<Rightarrow> bytes \<Rightarrow> int option" where
  "bump_start k obj = (case BEEFVersionWord k obj of
      None \<Rightarrow> None
    | Some word \<Rightarrow>
        if word = AtomicBEEFMarker k then Some (4 + 32 + 4)
        else if word = BEEFMarkerV1 k \<or> word = BEEFMarkerV2 k then Some 4
        else None)"

definition GuardBUMPs :: "beef_codec \<Rightarrow> bytes \<Rightarrow> bump_err + unit" where
  "GuardBUMPs k obj = (case bump_start k obj of
      None \<Rightarrow> Inr ()
    | Some n \<Rightarrow> bind_res (skip n \<lparr>cb = obj, pos = 0\<rparr>) (\<lambda>c.
        bind_res (guard_body c) (\<lambda>_. Inr ())))"

section \<open>The reader the guard protects\<close>

text \<open>
  A BEEF reader that sizes its slices straight from the wire: it logs every count it is about to
  allocate for (the number of BUMPs, each tree height, each level's leaf count) and then reads.
  Nothing is checked before the allocation; \<open>None\<close> is a read past the end of the object.
\<close>

fun alloc_levels :: "nat \<Rightarrow> cursor \<Rightarrow> nat list \<times> cursor option" where
  "alloc_levels 0 c = ([], Some c)"
| "alloc_levels (Suc n) c = (case varInt c of
      Inl _ \<Rightarrow> ([], None)
    | Inr (k, c) \<Rightarrow> (case leaf_loop (unat k) c of
          Inl _ \<Rightarrow> ([unat k], None)
        | Inr c \<Rightarrow> (case alloc_levels n c of (log, r) \<Rightarrow> (unat k # log, r))))"

fun alloc_bumps :: "nat \<Rightarrow> cursor \<Rightarrow> nat list \<times> cursor option" where
  "alloc_bumps 0 c = ([], Some c)"
| "alloc_bumps (Suc n) c = (case varInt c of
      Inl _ \<Rightarrow> ([], None)
    | Inr (_, c) \<Rightarrow> (case byteAt c of
          Inl _ \<Rightarrow> ([], None)
        | Inr (th, c) \<Rightarrow> (case alloc_levels (unat th) c of
              (log, None) \<Rightarrow> (unat th # log, None)
            | (log, Some c) \<Rightarrow> (case alloc_bumps n c of
                (log', r) \<Rightarrow> (unat th # log @ log', r)))))"

definition alloc_section :: "cursor \<Rightarrow> nat list \<times> cursor option" where
  "alloc_section c = (case varInt c of
      Inl _ \<Rightarrow> ([], None)
    | Inr (n, c) \<Rightarrow> (case alloc_bumps (unat n) c of (log, r) \<Rightarrow> (unat n # log, r)))"

definition alloc_read :: "beef_codec \<Rightarrow> bytes \<Rightarrow> nat list \<times> cursor option" where
  "alloc_read k obj = (case bump_start k obj of
      None \<Rightarrow> ([], Some \<lparr>cb = obj, pos = 0\<rparr>)
    | Some n \<Rightarrow> (case skip n \<lparr>cb = obj, pos = 0\<rparr> of
          Inl _ \<Rightarrow> ([], None)
        | Inr c \<Rightarrow> alloc_section c))"

section \<open>Reads move forward and stay inside the object\<close>

definition advanced :: "nat \<Rightarrow> cursor \<Rightarrow> cursor \<Rightarrow> bool" where
  "advanced n c d \<longleftrightarrow> cb d = cb c \<and> pos c + n \<le> pos d \<and> pos d \<le> length (cb d)"

lemma advanced_trans [cursor_intros]:
  "advanced m c d \<Longrightarrow> advanced n d e \<Longrightarrow> advanced (m + n) c e"
  by (auto simp: advanced_def)

lemma advanced_mono: "advanced m c d \<Longrightarrow> n \<le> m \<Longrightarrow> advanced n c d"
  by (auto simp: advanced_def)

lemma advanced_inside: "advanced n c d \<Longrightarrow> pos d \<le> length (cb d)"
  by (auto simp: advanced_def)

lemma skip_advanced [cursor_intros]: "skip n c = Inr d \<Longrightarrow> advanced (nat n) c d"
  by (auto simp: skip_def advanced_def remaining_def split: if_splits)

lemma byteAt_advanced [cursor_intros]: "byteAt c = Inr (x, d) \<Longrightarrow> advanced 1 c d"
  by (auto simp: byteAt_def advanced_def remaining_def split: if_splits)

lemma le_read_advanced [cursor_intros]: "le_read k c = Inr (x, d) \<Longrightarrow> advanced k c d"
  by (auto simp: le_read_def advanced_def remaining_def split: if_splits)

lemma varInt_advanced [cursor_intros]:
  assumes "varInt c = Inr (x, d)" shows "advanced 1 c d"
proof -
  from assms obtain p e where p: "byteAt c = Inr (p, e)"
    and rest: "e = d \<or> (\<exists>k. le_read k e = Inr (x, d))"
    by (auto simp: varInt_def bind_res_Inr_iff split: if_splits)
  have "advanced 1 c e" using p by (rule byteAt_advanced)
  with rest show ?thesis
    by (auto dest!: le_read_advanced simp: advanced_def)
qed

lemma read_leaf_advanced [cursor_intros]:
  assumes "read_leaf c = Inr d" shows "advanced 2 c d"
proof -
  from assms obtain o1 c1 f c2 where "varInt c = Inr (o1, c1)" "byteAt c1 = Inr (f, c2)"
    and rest: "(if f AND 1 = 0 then skip 32 c2 else Inr c2) = Inr d"
    by (auto simp: read_leaf_def bind_res_Inr_iff)
  then have "advanced (1 + 1) c c2" by (blast intro: cursor_intros)
  with rest show ?thesis
    by (auto dest!: skip_advanced simp: advanced_def numeral_2_eq_2 split: if_splits)
qed

lemma leaf_loop_advanced [cursor_intros]:
  "leaf_loop n c = Inr d \<Longrightarrow> pos c \<le> length (cb c) \<Longrightarrow> advanced (2 * n) c d"
proof (induction n arbitrary: c)
  case (Suc n)
  then obtain e where e: "read_leaf c = Inr e" "leaf_loop n e = Inr d"
    by (auto simp: bind_res_Inr_iff)
  then have "advanced 2 c e" by (blast intro: cursor_intros)
  with Suc.IH [OF e(2)] show ?case by (auto simp: advanced_def)
qed (auto simp: advanced_def)

text \<open>A completed unguarded read has consumed at least one byte per logged unit.\<close>

lemma alloc_levels_advanced:
  "alloc_levels n c = (log, Some d) \<Longrightarrow> pos c \<le> length (cb c) \<Longrightarrow>
   advanced (n + 2 * sum_list log) c d"
proof (induction n arbitrary: c log)
  case (Suc n)
  then obtain k c1 c2 log' where
    r: "varInt c = Inr (k, c1)" "leaf_loop (unat k) c1 = Inr c2"
       "alloc_levels n c2 = (log', Some d)" "log = unat k # log'"
    by (auto split: sum.splits prod.splits)
  have a: "advanced 1 c c1" using r(1) by (rule varInt_advanced)
  then have "pos c1 \<le> length (cb c1)" by (rule advanced_inside)
  with r(2) have b: "advanced (2 * unat k) c1 c2" by (rule leaf_loop_advanced)
  then have "pos c2 \<le> length (cb c2)" by (rule advanced_inside)
  with r(3) have "advanced (n + 2 * sum_list log') c2 d" by (rule Suc.IH)
  with a b r(4) show ?case by (auto simp: advanced_def)
qed (auto simp: advanced_def)

lemma alloc_bumps_advanced:
  "alloc_bumps n c = (log, Some d) \<Longrightarrow> pos c \<le> length (cb c) \<Longrightarrow>
   advanced (2 * n + sum_list log) c d"
proof (induction n arbitrary: c log)
  case (Suc n)
  then obtain k c1 th c2 l1 c3 l2 where
    r: "varInt c = Inr (k, c1)" "byteAt c1 = Inr (th, c2)"
       "alloc_levels (unat th) c2 = (l1, Some c3)" "alloc_bumps n c3 = (l2, Some d)"
       "log = unat th # l1 @ l2"
    by (auto split: sum.splits prod.splits option.splits)
  have a: "advanced (1 + 1) c c2" using r(1,2) by (blast intro: cursor_intros)
  with alloc_levels_advanced [OF r(3)]
  have b: "advanced (unat th + 2 * sum_list l1) c2 c3" by (auto simp: advanced_def)
  with Suc.IH [OF r(4)] have "advanced (2 * n + sum_list l2) c3 d"
    by (auto simp: advanced_def)
  with a b r(5) show ?case by (auto simp: advanced_def)
qed (auto simp: advanced_def)

section \<open>The guard admits exactly what the reader can finish\<close>

lemma fits_iff:
  "0 < e \<Longrightarrow> pos c \<le> length (cb c) \<Longrightarrow>
   fits n (int e) c \<longleftrightarrow> e * unat n \<le> length (cb c) - pos c"
proof -
  assume e: "0 < e" and p: "pos c \<le> length (cb c)"
  have r: "remaining c = int (length (cb c) - pos c)" using p by (simp add: remaining_def)
  have "fits n (int e) c \<longleftrightarrow> unat n \<le> (length (cb c) - pos c) div e"
    using e by (simp add: fits_def r flip: zdiv_int uint_nat)
      (metis nat_int nat_int_comparison(3) of_nat_0_le_iff zdiv_int uint_nat)
  also have "\<dots> \<longleftrightarrow> unat n * e \<le> length (cb c) - pos c"
    using e by (simp add: less_eq_div_iff_mult_less_eq)
  finally show ?thesis by (simp add: mult.commute)
qed

lemma level_loop_reader:
  "pos c \<le> length (cb c) \<Longrightarrow>
   level_loop n c = Inr d \<longleftrightarrow> (\<exists>log. alloc_levels n c = (log, Some d))"
proof (induction n arbitrary: c)
  case (Suc n)
  show ?case
  proof (cases "varInt c")
    case (Inr kc)
    obtain k c1 where kc: "kc = (k, c1)" by force
    with Inr have adv: "advanced 1 c c1" by (blast intro: cursor_intros)
    then have p1: "pos c1 \<le> length (cb c1)" by (rule advanced_inside)
    show ?thesis
    proof (cases "leaf_loop (unat k) c1")
      case (Inl e)
      then show ?thesis using Inr kc by simp
    next
      case leaves: (Inr c2)
      have "advanced (2 * unat k) c1 c2" using leaves p1 by (rule leaf_loop_advanced)
      then have "fits k minLeafBytes c1" and p2: "pos c2 \<le> length (cb c2)"
        using fits_iff [of 2 c1 k] p1 by (auto simp: advanced_def minLeafBytes_def)
      then show ?thesis
        using Suc.IH [OF p2] Inr kc leaves by (auto split: prod.splits)
    qed
  qed simp
qed auto

lemma bump_loop_reader:
  "bump_loop n c = Inr d \<Longrightarrow> pos c \<le> length (cb c) \<Longrightarrow> \<exists>log. alloc_bumps n c = (log, Some d)"
proof (induction n arbitrary: c)
  case (Suc n)
  then obtain k c1 th c2 c3 where
    r: "varInt c = Inr (k, c1)" "byteAt c1 = Inr (th, c2)"
       "level_loop (unat th) c2 = Inr c3" "bump_loop n c3 = Inr d"
    by (auto simp: bind_res_Inr_iff split: if_splits)
  have "advanced (1 + 1) c c2" using r(1,2) by (blast intro: cursor_intros)
  then have p2: "pos c2 \<le> length (cb c2)" by (rule advanced_inside)
  with r(3) obtain l1 where l1: "alloc_levels (unat th) c2 = (l1, Some c3)"
    by (auto simp: level_loop_reader)
  with p2 have "pos c3 \<le> length (cb c3)"
    using alloc_levels_advanced [OF l1] by (auto simp: advanced_def)
  with Suc.IH [OF r(4)] l1 r(1,2) show ?case by auto
qed auto

lemma guard_body_reader:
  assumes "guard_body c = Inr d"
  shows "\<exists>log. alloc_section c = (log, Some d) \<and> advanced (sum_list log) c d"
proof -
  from assms obtain n c1 where n: "varInt c = Inr (n, c1)"
    and b: "bump_loop (unat n) c1 = Inr d"
    by (auto simp: guard_body_def bind_res_Inr_iff split: if_splits)
  have a: "advanced 1 c c1" using n by (rule varInt_advanced)
  then have p: "pos c1 \<le> length (cb c1)" by (rule advanced_inside)
  from bump_loop_reader [OF b p] obtain log where log: "alloc_bumps (unat n) c1 = (log, Some d)"
    by blast
  have "advanced (2 * unat n + sum_list log) c1 d"
    using log p by (rule alloc_bumps_advanced)
  with a have "advanced (unat n + sum_list log) c d" by (auto simp: advanced_def)
  with n log show ?thesis by (auto simp: alloc_section_def)
qed

section \<open>Encodings the guard must let through\<close>

record bump_leaf =
  lf_offset :: u64
  lf_flags :: byte
  lf_hash :: bytes

record bump_path =
  bm_height :: u64
  bm_levels :: "bump_leaf list list"

definition enc_varInt :: "u64 \<Rightarrow> bytes" where
  "enc_varInt v = (if unat v < 0xFD then [ucast v]
     else if unat v < 2 ^ 16 then 0xFD # nat_le 2 (unat v)
     else if unat v < 2 ^ 32 then 0xFE # nat_le 4 (unat v)
     else 0xFF # nat_le 8 (unat v))"

definition enc_leaf :: "bump_leaf \<Rightarrow> bytes" where
  "enc_leaf l = enc_varInt (lf_offset l) @ [lf_flags l]
     @ (if lf_flags l AND 1 = 0 then lf_hash l else [])"

definition enc_level :: "bump_leaf list \<Rightarrow> bytes" where
  "enc_level ls = enc_varInt (word_of_nat (length ls)) @ concat (map enc_leaf ls)"

definition enc_bump :: "bump_path \<Rightarrow> bytes" where
  "enc_bump b = enc_varInt (bm_height b) @ [word_of_nat (length (bm_levels b))]
     @ concat (map enc_level (bm_levels b))"

definition enc_bumps :: "bump_path list \<Rightarrow> bytes" where
  "enc_bumps bs = enc_varInt (word_of_nat (length bs)) @ concat (map enc_bump bs)"

definition wf_leaf :: "bump_leaf \<Rightarrow> bool" where
  "wf_leaf l \<longleftrightarrow> length (lf_hash l) = 32"

definition wf_level :: "bump_leaf list \<Rightarrow> bool" where
  "wf_level ls \<longleftrightarrow> length ls < 2 ^ 64 \<and> list_all wf_leaf ls"

definition wf_bump :: "bump_path \<Rightarrow> bool" where
  "wf_bump b \<longleftrightarrow> 1 \<le> length (bm_levels b) \<and> length (bm_levels b) \<le> 64 \<and>
     list_all wf_level (bm_levels b)"

definition adv :: "nat \<Rightarrow> cursor \<Rightarrow> cursor" where
  "adv n c = c\<lparr>pos := pos c + n\<rparr>"

definition ahead :: "cursor \<Rightarrow> bytes \<Rightarrow> bool" where
  "ahead c xs \<longleftrightarrow> pos c \<le> length (cb c) \<and> drop (pos c) (cb c) = xs"

lemma ahead_adv: "ahead c (xs @ ys) \<Longrightarrow> length xs = n \<Longrightarrow> ahead (adv n c) ys"
proof -
  assume a: "ahead c (xs @ ys)" and n: "length xs = n"
  then have "length (cb c) - pos c = n + length ys" by (metis ahead_def length_append length_drop)
  with a have "pos c + n \<le> length (cb c)" by (auto simp: ahead_def)
  moreover have "drop (pos c + n) (cb c) = ys"
    using a n by (auto simp: ahead_def add.commute simp flip: drop_drop)
  ultimately show ?thesis by (simp add: ahead_def adv_def)
qed

lemma adv_adv [simp]: "adv m (adv n c) = adv (n + m) c"
  by (simp add: adv_def)

lemma ahead_remaining: "ahead c xs \<Longrightarrow> remaining c = int (length xs)"
  by (auto simp: ahead_def remaining_def)

lemma byteAt_ahead: "ahead c (x # xs) \<Longrightarrow> byteAt c = Inr (x, adv 1 c)"
proof -
  assume a: "ahead c (x # xs)"
  then have "pos c < length (cb c)" by (metis ahead_def drop_eq_Nil le_neq_implies_less list.distinct(1) order_refl)
  with a have "cb c ! pos c = x" by (metis ahead_def hd_drop_conv_nth list.sel(1))
  with a show ?thesis by (simp add: byteAt_def adv_def ahead_remaining)
qed

lemma skip_ahead: "ahead c (xs @ ys) \<Longrightarrow> skip (int (length xs)) c = Inr (adv (length xs) c)"
  by (simp add: skip_def adv_def ahead_remaining)

lemma le_read_ahead:
  assumes "ahead c (nat_le k n @ ys)" "n < 256 ^ k" "n < 2 ^ 64"
  shows "le_read k c = Inr (word_of_nat n, adv k c)"
  using assms by (auto simp: le_read_def adv_def ahead_remaining ahead_def le_nat_nat_le)

lemma varInt_wide:
  assumes a: "ahead c (p # nat_le k (unat v) @ ys)" and v: "unat v < 256 ^ k"
    and k: "(p, k) \<in> {(0xFD, 2), (0xFE, 4), (0xFF, 8)}"
  shows "varInt c = Inr (v, adv (Suc k) c)"
proof -
  have b: "byteAt c = Inr (p, adv 1 c)" using a by (rule byteAt_ahead)
  have "ahead (adv 1 c) (nat_le k (unat v) @ ys)"
    using a ahead_adv [of c "[p]" "nat_le k (unat v) @ ys" 1] by simp
  moreover have "unat v < 2 ^ 64" using unsigned_less [of v] by simp
  ultimately have "le_read k (adv 1 c) = Inr (v, adv (Suc k) c)"
    using v by (simp add: le_read_ahead)
  with b k show ?thesis by (auto simp: varInt_def)
qed

lemma varInt_ahead:
  assumes a: "ahead c (enc_varInt v @ ys)"
  shows "varInt c = Inr (v, adv (length (enc_varInt v)) c)"
proof (cases "unat v < 0xFD")
  case True
  then have b: "byteAt c = Inr (ucast v, adv 1 c)" using a by (simp add: enc_varInt_def byteAt_ahead)
  have u: "unat (ucast v :: byte) = unat v"
    using True by (simp add: unsigned_ucast_eq take_bit_nat_eq_self)
  with True have "(ucast v :: byte) \<noteq> 0xFD" "(ucast v :: byte) \<noteq> 0xFE" "(ucast v :: byte) \<noteq> 0xFF"
    by (auto simp: word_unat_eq_iff)
  moreover have "unat (ucast (ucast v :: byte) :: u64) = take_bit LENGTH(64) (unat (ucast v :: byte))"
    by (rule unsigned_ucast_eq)
  then have "unat (ucast (ucast v :: byte) :: u64) = unat v"
    using True by (simp only: u) (simp add: take_bit_nat_eq_self)
  then have "(ucast (ucast v :: byte) :: u64) = v" by (simp add: word_unat_eq_iff)
  ultimately show ?thesis using b True by (simp add: varInt_def enc_varInt_def)
next
  case False
  have "unat v < 256 ^ 8" using unsigned_less [of v] by simp
  with False a show ?thesis
    using varInt_wide [of c "0xFD" 2 v ys] varInt_wide [of c "0xFE" 4 v ys]
      varInt_wide [of c "0xFF" 8 v ys]
    by (auto simp: enc_varInt_def split: if_splits)
qed


lemma read_leaf_ahead:
  assumes a: "ahead c (enc_leaf l @ ys)" and w: "wf_leaf l"
  shows "read_leaf c = Inr (adv (length (enc_leaf l)) c)"
proof -
  let ?v = "enc_varInt (lf_offset l)"
  let ?t = "if lf_flags l AND 1 = 0 then lf_hash l else []"
  have a0: "ahead c (?v @ lf_flags l # ?t @ ys)" using a by (simp add: enc_leaf_def)
  then have a1: "ahead (adv (length ?v) c) ([lf_flags l] @ ?t @ ys)"
    using ahead_adv [OF a0] by simp
  then have "ahead (adv (length ?v + 1) c) (?t @ ys)"
    using ahead_adv [OF a1, of 1] by simp
  then have "(if lf_flags l AND 1 = 0 then skip 32 (adv (length ?v + 1) c)
       else Inr (adv (length ?v + 1) c)) = Inr (adv (length (enc_leaf l)) c)"
    using skip_ahead [of "adv (length ?v + 1) c" "lf_hash l" ys] w
    by (auto simp: wf_leaf_def enc_leaf_def)
  then show ?thesis
    using varInt_ahead [OF a0] byteAt_ahead [OF a1 [unfolded append_Cons append_Nil]]
    by (simp only: read_leaf_def bind_res_simps case_prod_conv adv_adv)
qed

lemma leaf_loop_ahead:
  "ahead c (concat (map enc_leaf ls) @ ys) \<Longrightarrow> list_all wf_leaf ls \<Longrightarrow>
   leaf_loop (length ls) c = Inr (adv (length (concat (map enc_leaf ls))) c)"
proof (induction ls arbitrary: c)
  case (Cons l ls)
  then have a: "ahead c (enc_leaf l @ concat (map enc_leaf ls) @ ys)" by simp
  then have "read_leaf c = Inr (adv (length (enc_leaf l)) c)"
    using Cons.prems by (intro read_leaf_ahead) auto
  moreover have "ahead (adv (length (enc_leaf l)) c) (concat (map enc_leaf ls) @ ys)"
    using ahead_adv [OF a] by simp
  ultimately show ?case using Cons by simp
qed (simp add: adv_def)

lemma level_loop_ahead:
  "ahead c (concat (map enc_level lvs) @ ys) \<Longrightarrow> list_all wf_level lvs \<Longrightarrow>
   level_loop (length lvs) c = Inr (adv (length (concat (map enc_level lvs))) c)"
proof (induction lvs arbitrary: c)
  case (Cons ls lvs)
  let ?n = "word_of_nat (length ls) :: u64"
  let ?rest = "concat (map enc_leaf ls) @ concat (map enc_level lvs) @ ys"
  have n: "unat ?n = length ls" using Cons.prems by (simp add: wf_level_def unat_of_nat)
  have a: "ahead c (enc_varInt ?n @ ?rest)" using Cons.prems by (simp add: enc_level_def [of ls])
  have v: "varInt c = Inr (?n, adv (length (enc_varInt ?n)) c)" using a by (rule varInt_ahead)
  have b: "ahead (adv (length (enc_varInt ?n)) c) ?rest" using ahead_adv [OF a] by simp
  have leaves: "leaf_loop (length ls) (adv (length (enc_varInt ?n)) c) =
      Inr (adv (length (enc_level ls)) c)"
    using b Cons.prems by (subst leaf_loop_ahead) (auto simp: wf_level_def enc_level_def)
  moreover have "advanced (2 * length ls) (adv (length (enc_varInt ?n)) c)
      (adv (length (enc_level ls)) c)"
    using leaves b by (intro leaf_loop_advanced) (auto simp: ahead_def)
  then have "fits ?n minLeafBytes (adv (length (enc_varInt ?n)) c)"
    using fits_iff [of 2 "adv (length (enc_varInt ?n)) c" ?n] b n
    by (auto simp: minLeafBytes_def advanced_def ahead_def)
  moreover have "ahead (adv (length (enc_level ls)) c) (concat (map enc_level lvs) @ ys)"
    using ahead_adv [of c "enc_level ls"] Cons.prems by simp
  ultimately show ?case using v n Cons by simp
qed (simp add: adv_def)

lemma bump_loop_ahead:
  "ahead c (concat (map enc_bump bs) @ ys) \<Longrightarrow> list_all wf_bump bs \<Longrightarrow>
   bump_loop (length bs) c = Inr (adv (length (concat (map enc_bump bs))) c)"
proof (induction bs arbitrary: c)
  case (Cons b bs)
  let ?h = "enc_varInt (bm_height b)"
  let ?n = "word_of_nat (length (bm_levels b)) :: byte"
  let ?rest = "concat (map enc_level (bm_levels b)) @ concat (map enc_bump bs) @ ys"
  have w: "wf_bump b" using Cons.prems by simp
  then have n: "unat ?n = length (bm_levels b)" by (simp add: wf_bump_def unat_of_nat)
  then have small: "\<not> ?n > maxTreeHeight"
    using w by (simp add: wf_bump_def maxTreeHeight_def word_less_nat_alt)
  have a: "ahead c (?h @ ?n # ?rest)" using Cons.prems by (simp add: enc_bump_def [of b])
  have a1: "ahead (adv (length ?h) c) ([?n] @ ?rest)" using ahead_adv [OF a] by simp
  have a2: "ahead (adv (length ?h + 1) c) ?rest" using ahead_adv [OF a1, of 1] by simp
  have "level_loop (length (bm_levels b)) (adv (length ?h + 1) c) = Inr (adv (length (enc_bump b)) c)"
    using a2 w by (subst level_loop_ahead) (auto simp: wf_bump_def enc_bump_def)
  moreover have "ahead (adv (length (enc_bump b)) c) (concat (map enc_bump bs) @ ys)"
    using ahead_adv [of c "enc_bump b"] Cons.prems by simp
  ultimately show ?case
    using varInt_ahead [OF a] byteAt_ahead [of "adv (length ?h) c" ?n ?rest] a1 n small Cons by simp
qed (simp add: adv_def)

lemma enc_varInt_pos: "1 \<le> length (enc_varInt v)"
  by (simp add: enc_varInt_def)

lemma enc_bump_long:
  assumes "wf_bump b" shows "3 \<le> length (enc_bump b)"
proof -
  from assms obtain l ls where l: "bm_levels b = l # ls"
    by (auto simp: wf_bump_def Suc_le_length_iff)
  have "1 \<le> length (enc_level l)"
    using enc_varInt_pos by (simp add: enc_level_def trans_le_add1)
  with l enc_varInt_pos [of "bm_height b"] show ?thesis by (simp add: enc_bump_def)
qed

lemma enc_bumps_long: "list_all wf_bump bs \<Longrightarrow> 3 * length bs \<le> length (concat (map enc_bump bs))"
  by (induction bs) (auto dest: enc_bump_long)

lemma guard_body_ahead:
  assumes a: "ahead c (enc_bumps bs @ ys)" and w: "list_all wf_bump bs" and l: "length bs < 2 ^ 64"
  shows "guard_body c = Inr (adv (length (enc_bumps bs)) c)"
proof -
  let ?n = "word_of_nat (length bs) :: u64"
  let ?c = "adv (length (enc_varInt ?n)) c"
  have n: "unat ?n = length bs" using l by (simp add: unat_of_nat)
  have a0: "ahead c (enc_varInt ?n @ concat (map enc_bump bs) @ ys)" using a by (simp add: enc_bumps_def)
  then have a1: "ahead ?c (concat (map enc_bump bs) @ ys)" by (rule ahead_adv) simp
  then have "length (cb ?c) - pos ?c = length (concat (map enc_bump bs) @ ys)"
    by (metis ahead_def length_drop)
  with enc_bumps_long [OF w] have "fits ?n 3 ?c"
    using fits_iff [of 3 ?c ?n] a1 n by (auto simp: ahead_def)
  moreover have "bump_loop (length bs) ?c = Inr (adv (length (enc_bumps bs)) c)"
    using bump_loop_ahead [OF a1 w] by (simp add: enc_bumps_def)
  ultimately show ?thesis using varInt_ahead [OF a0] n by (simp add: guard_body_def)
qed

section \<open>Properties\<close>

definition example_codec :: beef_codec where
  "example_codec = \<lparr>BEEFVersionWord = (\<lambda>b. if length b < 4 then None
        else Some (word_of_nat (le_nat (take 4 b)))),
     AtomicBEEFMarker = 0x01010101, BEEFMarkerV1 = 0xEFBE0001, BEEFMarkerV2 = 0xEFBE0002\<rparr>"

definition example_bump :: bump_path where
  "example_bump = \<lparr>bm_height = 850000, bm_levels = [
     [\<lparr>lf_offset = 300, lf_flags = 2, lf_hash = replicate 32 7\<rparr>,
      \<lparr>lf_offset = 301, lf_flags = 1, lf_hash = replicate 32 0\<rparr>]]\<rparr>"

definition example_object :: bytes where
  "example_object = [0x01, 0x00, 0xBE, 0xEF] @ enc_bumps [example_bump] @ [0x00]"

lemma loop_numerals:
  "nat_le (numeral k) n = word_of_nat n # nat_le (pred_numeral k) (n div 256)"
  "leaf_loop (numeral k) c = bind_res (read_leaf c) (leaf_loop (pred_numeral k))"
  "leaf_loop 1 c = read_leaf c"
  "level_loop 1 c = level_loop (Suc 0) c"
  "bump_loop 1 c = bump_loop (Suc 0) c"
  "replicate (numeral k) x = x # replicate (pred_numeral k) x"
  by (simp_all only: numeral_eq_Suc [of k] nat_le.simps leaf_loop.simps replicate_Suc One_nat_def)
    (cases "read_leaf c"; simp)

lemmas guard_eval = GuardBUMPs_def guard_body_def bump_start_def example_codec_def varInt_def
  byteAt_def le_read_def remaining_def skip_def fits_def read_leaf_def minLeafBytes_def
  maxTreeHeight_def loop_numerals

lemma example_object_bytes:
  "example_object = [1, 0, 190, 239, 1, 254, 80, 248, 12, 0, 1, 2, 253, 44, 1, 2] @ replicate 32 7
     @ [253, 45, 1, 1, 0]"
  by (simp add: example_object_def example_bump_def enc_bumps_def enc_bump_def enc_level_def
      enc_leaf_def enc_varInt_def loop_numerals)



text \<open>
  C11. The guard makes no validity claim and refuses no well-formed object: behind a BEEF version
  word, any sequence of merkle paths (each with 1 to 64 levels, each leaf an offset, a flag byte
  and, unless the flag marks a duplicate, a 32-byte hash) passes, whatever follows it.
\<close>

theorem guard_admits_well_formed:
  assumes "bump_start k obj = Some n" and "obj = pre @ enc_bumps bs @ rest" and "length pre = nat n"
    and "list_all wf_bump bs" and "length bs < 2 ^ 64"
  shows "GuardBUMPs k obj = Inr ()"
proof -
  have n: "0 \<le> n" using assms(1) by (auto simp: bump_start_def split: option.splits if_splits)
  have "ahead \<lparr>cb = obj, pos = 0\<rparr> (pre @ enc_bumps bs @ rest)"
    using assms(2) by (simp add: ahead_def)
  then have "skip n \<lparr>cb = obj, pos = 0\<rparr> = Inr (adv (length pre) \<lparr>cb = obj, pos = 0\<rparr>)"
    and "ahead (adv (length pre) \<lparr>cb = obj, pos = 0\<rparr>) (enc_bumps bs @ rest)"
    using skip_ahead [of "\<lparr>cb = obj, pos = 0\<rparr>" pre] n assms(3) by (auto intro: ahead_adv)
  with guard_body_ahead assms show ?thesis by (simp add: GuardBUMPs_def)
qed

theorem guard_admits_well_formed_witness:
  "bump_start example_codec example_object = Some 4 \<and> GuardBUMPs example_codec example_object = Inr ()"
proof -
  have s: "bump_start example_codec example_object = Some 4"
    by (simp add: example_object_bytes bump_start_def example_codec_def)
  have w: "list_all wf_bump [example_bump]"
    by (simp add: wf_bump_def wf_level_def wf_leaf_def example_bump_def)
  have "GuardBUMPs example_codec example_object = Inr ()"
    using guard_admits_well_formed [OF s example_object_def _ w] by simp
  with s show ?thesis by simp
qed

text \<open>
  The signature of an allocation attack is named and refused before any element is read: a
  level that declares more leaves than half the bytes left, a section that declares more BUMPs than
  a third of them, and a tree higher than 64 levels all end in \<open>ErrUnsatisfiableLength\<close>.
\<close>

theorem guard_refuses_unsatisfiable_counts:
  assumes "varInt c = Inr (n, d)"
  shows "(remaining d < 2 * uint n \<longrightarrow> level_loop (Suc m) c = Inl ErrUnsatisfiableLength) \<and>
    (remaining d < 3 * uint n \<longrightarrow> guard_body c = Inl ErrUnsatisfiableLength) \<and>
    (\<forall>th e. byteAt d = Inr (th, e) \<and> 64 < th \<longrightarrow>
       bump_loop (Suc m) c = Inl ErrUnsatisfiableLength)"
proof -
  have "\<not> fits n minLeafBytes d" if "remaining d < 2 * uint n"
    using that by (simp add: fits_def minLeafBytes_def)
  moreover have "\<not> fits n 3 d" if "remaining d < 3 * uint n"
    using that by (simp add: fits_def)
  ultimately show ?thesis
    using assms by (auto simp: guard_body_def maxTreeHeight_def)
qed

text \<open>The nine bytes of a leaf count of \<open>2^64 - 1\<close>, and nothing behind them.\<close>

theorem guard_refuses_unsatisfiable_counts_witness:
  "level_loop 1 \<lparr>cb = replicate 9 0xFF, pos = 0\<rparr> = Inl ErrUnsatisfiableLength \<and>
   guard_body \<lparr>cb = replicate 9 0xFF, pos = 0\<rparr> = Inl ErrUnsatisfiableLength \<and>
   bump_loop 1 \<lparr>cb = [1, 65, 0], pos = 0\<rparr> = Inl ErrUnsatisfiableLength"
proof -
  have a: "varInt \<lparr>cb = replicate 9 0xFF, pos = 0\<rparr> =
      Inr (0xFFFFFFFFFFFFFFFF, \<lparr>cb = replicate 9 0xFF, pos = 9\<rparr>)" by (simp add: guard_eval)
  have r: "remaining \<lparr>cb = replicate 9 0xFF, pos = 9\<rparr> = 0" by (simp add: guard_eval)
  have b: "varInt \<lparr>cb = [1, 65, 0], pos = 0\<rparr> = Inr (1, \<lparr>cb = [1, 65, 0], pos = 1\<rparr>)" by (simp add: guard_eval)
  have e: "byteAt \<lparr>cb = [1, 65, 0], pos = 1\<rparr> = Inr (65, \<lparr>cb = [1, 65, 0], pos = 2\<rparr>)" by (simp add: guard_eval)
  show ?thesis
    using guard_refuses_unsatisfiable_counts [OF a, of 0]
      guard_refuses_unsatisfiable_counts [OF b, of 0] r e by simp
qed

end
