(* ===== verification/Go_Strings.thy ===== *)
theory Go_Strings
  imports Bridge_Prelude
begin

text \<open>
  The functions of Go's \<^verbatim>\<open>strings\<close>, \<^verbatim>\<open>fmt\<close> and \<^verbatim>\<open>path\<close> packages that the bridge uses on topic names,
  origins and header values, on strings as byte sequences: trimming, splitting, cutting, decimal
  rendering and the glob matcher \<^verbatim>\<open>path.Match\<close>. White space is the ASCII white space; a byte
  of 128 or above is an ordinary character.
\<close>

section \<open>Trimming, splitting, cutting\<close>

definition is_space :: "char \<Rightarrow> bool" where
  "is_space c \<longleftrightarrow> c = CHR '' '' \<or> (9 \<le> (of_char c :: nat) \<and> (of_char c :: nat) \<le> 13)"

definition trim_space :: "string \<Rightarrow> string" where
  "trim_space s = rev (dropWhile is_space (rev (dropWhile is_space s)))"

definition trim_right_slash :: "string \<Rightarrow> string" where
  "trim_right_slash s = rev (dropWhile (\<lambda>c. c = CHR ''/'') (rev s))"

fun split_on :: "char \<Rightarrow> string \<Rightarrow> string list" where
  "split_on d [] = [[]]"
| "split_on d (c # cs) =
     (if c = d then [] # split_on d cs
      else (case split_on d cs of [] \<Rightarrow> [[c]] | w # ws \<Rightarrow> (c # w) # ws))"

text \<open>\<^verbatim>\<open>strings.Cut\<close> around the first separator; \<open>None\<close> when there is none.\<close>

fun cut :: "char \<Rightarrow> string \<Rightarrow> (string \<times> string) option" where
  "cut d [] = None"
| "cut d (c # cs) = (if c = d then Some ([], cs)
     else (case cut d cs of None \<Rightarrow> None | Some (a, b) \<Rightarrow> Some (c # a, b)))"

fun has_prefix :: "string \<Rightarrow> string \<Rightarrow> bool" where
  "has_prefix [] s = True"
| "has_prefix (p # ps) [] = False"
| "has_prefix (p # ps) (c # cs) = (p = c \<and> has_prefix ps cs)"

fun contains :: "string \<Rightarrow> string \<Rightarrow> bool" where
  "contains [] sub = (sub = [])"
| "contains (c # cs) sub = (has_prefix sub (c # cs) \<or> contains cs sub)"

text \<open>\<^verbatim>\<open>%d\<close> of an unsigned integer.\<close>

fun dec :: "nat \<Rightarrow> string" where
  "dec n = (if n < 10 then [char_of (48 + n)] else dec (n div 10) @ [char_of (48 + n mod 10)])"

declare dec.simps [simp del]

lemma dec_nonempty: "dec n \<noteq> []"
  by (subst dec.simps) simp

definition is_digit :: "char \<Rightarrow> bool" where
  "is_digit c \<longleftrightarrow> 48 \<le> (of_char c :: nat) \<and> (of_char c :: nat) \<le> 57"

lemma of_char_digit: "d < 10 \<Longrightarrow> (of_char (char_of (48 + d :: nat)) :: nat) = 48 + d"
  by (subst of_char_of) simp

lemma dec_digits: "c \<in> set (dec n) \<Longrightarrow> is_digit c"
proof (induction n rule: dec.induct)
  case (1 n)
  show ?case
  proof (cases "n < 10")
    case True
    with 1(2) show ?thesis by (subst (asm) dec.simps) (auto simp: is_digit_def of_char_digit)
  next
    case False
    with 1 show ?thesis by (subst (asm) (2) dec.simps) (auto simp: is_digit_def of_char_digit)
  qed
qed

lemma dec_value: "foldl (\<lambda>a c. 10 * a + (of_char c - 48)) 0 (dec n) = n"
proof (induction n rule: dec.induct)
  case (1 n)
  show ?case
  proof (cases "n < 10")
    case True
    then show ?thesis by (subst dec.simps) (simp add: of_char_digit)
  next
    case False
    with 1 show ?thesis by (subst dec.simps) (simp add: of_char_digit)
  qed
qed

lemma dec_inj: "dec m = dec n \<longleftrightarrow> m = n"
  by (metis dec_value)

lemma split_on_nonempty: "split_on d s \<noteq> []"
  by (cases s) (auto split: list.splits)

lemma split_on_no_sep: "w \<in> set (split_on d s) \<Longrightarrow> d \<notin> set w"
proof (induction s arbitrary: w)
  case (Cons c cs)
  then show ?case by (cases "split_on d cs") (fastforce split: if_splits)+
qed simp

lemma split_on_clean: "d \<notin> set w \<Longrightarrow> split_on d w = [w]"
  by (induction w) auto

lemma split_on_cons: "d \<notin> set w \<Longrightarrow> split_on d (w @ d # s) = w # split_on d s"
  by (induction w) auto

lemma cut_cons: "d \<notin> set w \<Longrightarrow> cut d (w @ d # s) = Some (w, s)"
  by (induction w) auto

lemma cut_parts: "cut d s = Some (a, b) \<Longrightarrow> s = a @ d # b \<and> d \<notin> set a"
  by (induction s arbitrary: a) (auto split: if_splits option.splits)

lemma split_on_join:
  assumes "d \<notin> set w" "list_all (\<lambda>x. d \<notin> set x) ws"
  shows "split_on d (w @ concat (map (\<lambda>x. d # x) ws)) = w # ws"
  using assms
proof (induction ws arbitrary: w)
  case (Cons x ws)
  then show ?case using split_on_cons [of d w "x @ concat (map (\<lambda>x. d # x) ws)"] by simp
qed (simp add: split_on_clean)

lemma set_trim_space: "set (trim_space s) \<subseteq> set s"
  unfolding trim_space_def by (metis set_dropWhileD set_rev subsetI)

definition clean :: "string \<Rightarrow> bool" where
  "clean s \<longleftrightarrow> s \<noteq> [] \<and> \<not> is_space (hd s) \<and> \<not> is_space (last s)"

lemma clean_append: "clean a \<Longrightarrow> clean b \<Longrightarrow> clean (a @ m @ b)"
  by (simp add: clean_def)

lemma dropWhile_hd: "s = [] \<or> \<not> P (hd s) \<Longrightarrow> dropWhile P s = s"
  by (cases s) auto

lemma trim_space_clean: "s = [] \<or> clean s \<Longrightarrow> trim_space s = s"
  by (auto simp: trim_space_def clean_def dropWhile_hd hd_rev)

lemma hd_dropWhile_not: "dropWhile P s \<noteq> [] \<Longrightarrow> \<not> P (hd (dropWhile P s))"
  by (induction s) auto

lemma trim_space_result: "trim_space s \<noteq> [] \<Longrightarrow> clean (trim_space s)"
proof -
  let ?a = "dropWhile is_space s"
  let ?r = "dropWhile is_space (rev ?a)"
  assume n: "trim_space s \<noteq> []"
  then have r: "?r \<noteq> []" by (simp add: trim_space_def)
  then have l: "\<not> is_space (last (trim_space s))"
    using hd_dropWhile_not [of is_space "rev ?a"] by (simp add: trim_space_def last_rev)
  have "\<exists>ys. rev ?a = ys @ ?r" by (metis takeWhile_dropWhile_id)
  then have "\<exists>ys. ?a = rev ?r @ ys" by (metis rev_append rev_rev_ident)
  then obtain ys where "?a = rev ?r @ ys" by blast
  then have "hd ?a = hd (trim_space s)" using r unfolding trim_space_def by (metis hd_append2 rev_is_Nil_conv)
  moreover have "?a \<noteq> []" using r by (metis dropWhile.simps(1) rev.simps(1))
  ultimately have "\<not> is_space (hd (trim_space s))" using hd_dropWhile_not by metis
  with n l show ?thesis by (simp add: clean_def)
qed

section \<open>Globs\<close>

datatype glob_tok = GStar | GAny | GClass bool "(char \<times> char) list" | GLit char

text \<open>One character of a class, escaped or not; the class must go on after it.\<close>

fun getEsc :: "string \<Rightarrow> (char \<times> string) option" where
  "getEsc [] = None"
| "getEsc (c # cs) =
     (if c = CHR ''-'' \<or> c = CHR '']'' then None
      else if c = CHR 0x5C then (case cs of [] \<Rightarrow> None | e # rest \<Rightarrow> if rest = [] then None else Some (e, rest))
      else if cs = [] then None else Some (c, cs))"

lemma getEsc_shorter: "getEsc s = Some (c, r) \<Longrightarrow> length r < length s"
  by (cases s) (auto split: if_splits list.splits)

definition glob_range :: "string \<Rightarrow> ((char \<times> char) \<times> string) option" where
  "glob_range s = (case getEsc s of
      None \<Rightarrow> None
    | Some (lo, r) \<Rightarrow>
        if r \<noteq> [] \<and> hd r = CHR ''-'' then
          (case getEsc (tl r) of None \<Rightarrow> None | Some (hi, r') \<Rightarrow> Some ((lo, hi), r'))
        else Some ((lo, lo), r))"

lemma glob_range_shorter: "glob_range s = Some (p, r) \<Longrightarrow> length r < length s"
proof -
  assume g: "glob_range s = Some (p, r)"
  then obtain lo r1 where e: "getEsc s = Some (lo, r1)" by (auto simp: glob_range_def split: option.splits)
  have "length r \<le> length r1"
    using g e by (auto simp: glob_range_def split: if_splits option.splits dest!: getEsc_shorter)
  with getEsc_shorter [OF e] show ?thesis by simp
qed

function glob_ranges :: "nat \<Rightarrow> string \<Rightarrow> ((char \<times> char) list \<times> string) option" where
  "glob_ranges n s =
     (if s \<noteq> [] \<and> hd s = CHR '']'' \<and> n > 0 then Some ([], tl s)
      else (case glob_range s of
          None \<Rightarrow> None
        | Some (p, r) \<Rightarrow> (case glob_ranges (n + 1) r of None \<Rightarrow> None | Some (ps, r') \<Rightarrow> Some (p # ps, r'))))"
  by pat_completeness auto
termination
  by (relation "measure (\<lambda>(n, s). length s)") (auto dest: glob_range_shorter)

declare glob_ranges.simps [simp del]

lemma glob_ranges_shorter: "glob_ranges n s = Some (ps, r) \<Longrightarrow> length r < length s"
proof (induction n s arbitrary: ps r rule: glob_ranges.induct)
  case (1 n s)
  show ?case
  proof (cases "s \<noteq> [] \<and> hd s = CHR '']'' \<and> n > 0")
    case True
    then show ?thesis using 1(2) by (subst (asm) glob_ranges.simps) (cases s; auto)
  next
    case False
    then obtain p r1 qs where a: "glob_range s = Some (p, r1)" "glob_ranges (n + 1) r1 = Some (qs, r)"
      using 1(2) by (subst (asm) glob_ranges.simps) (auto split: option.splits)
    then have "length r < length r1" using 1(1) False by blast
    with glob_range_shorter [OF a(1)] show ?thesis by simp
  qed
qed

definition glob_class :: "string \<Rightarrow> (glob_tok \<times> string) option" where
  "glob_class s = (let (neg, s') = (if s \<noteq> [] \<and> hd s = CHR ''^'' then (True, tl s) else (False, s)) in
     case glob_ranges 0 s' of None \<Rightarrow> None | Some (ps, r) \<Rightarrow> Some (GClass neg ps, r))"

lemma glob_class_shorter: "glob_class s = Some (t, r) \<Longrightarrow> length r < length s"
  by (cases s) (auto simp: glob_class_def Let_def split: if_splits option.splits dest!: glob_ranges_shorter)

text \<open>\<open>None\<close> is \<^verbatim>\<open>ErrBadPattern\<close>, which the matcher reports whether or not the name matches so far.\<close>

function parse_glob :: "string \<Rightarrow> glob_tok list option" where
  "parse_glob [] = Some []"
| "parse_glob (c # cs) =
     (if c = CHR ''*'' then map_option ((#) GStar) (parse_glob cs)
      else if c = CHR ''?'' then map_option ((#) GAny) (parse_glob cs)
      else if c = CHR ''['' then
        (case glob_class cs of None \<Rightarrow> None | Some (t, r) \<Rightarrow> map_option ((#) t) (parse_glob r))
      else if c = CHR 0x5C then
        (case cs of [] \<Rightarrow> None | e # r \<Rightarrow> map_option ((#) (GLit e)) (parse_glob r))
      else map_option ((#) (GLit c)) (parse_glob cs))"
  by pat_completeness auto
termination
  by (relation "measure length") (auto dest: glob_class_shorter intro: less_SucI)

definition in_range :: "char \<Rightarrow> char \<times> char \<Rightarrow> bool" where
  "in_range c p \<longleftrightarrow> (of_char (fst p) :: nat) \<le> of_char c \<and> (of_char c :: nat) \<le> of_char (snd p)"

fun match_toks :: "glob_tok list \<Rightarrow> string \<Rightarrow> bool" where
  "match_toks [] s = (s = [])"
| "match_toks (GStar # ts) [] = match_toks ts []"
| "match_toks (GStar # ts) (c # cs) =
     (match_toks ts (c # cs) \<or> (c \<noteq> CHR ''/'' \<and> match_toks (GStar # ts) cs))"
| "match_toks (t # ts) [] = False"
| "match_toks (GAny # ts) (c # cs) = (c \<noteq> CHR ''/'' \<and> match_toks ts cs)"
| "match_toks (GClass neg ps # ts) (c # cs) = (list_ex (in_range c) ps \<noteq> neg \<and> match_toks ts cs)"
| "match_toks (GLit l # ts) (c # cs) = (l = c \<and> match_toks ts cs)"

definition path_Match :: "string \<Rightarrow> string \<Rightarrow> bool option" where
  "path_Match pat name = map_option (\<lambda>ts. match_toks ts name) (parse_glob pat)"

end
