(* ===== verification/Feed_Targets.thy ===== *)
theory Feed_Targets
  imports Go_Strings
begin

text \<open>
  The engine client of \<^verbatim>\<open>src/feed/submit.go\<close> and the two kinds of secondary target a submit is offered
  to: the extra local subscriber (\<^verbatim>\<open>src/feed/also.go\<close>) and the shadow engine (\<^verbatim>\<open>src/feed/shadow.go\<close>).
  Both targets are bounded queues with workers of their own; their operations are first given as
  sequential functions and then as the atomic steps of concurrent callers and workers.
\<close>

section \<open>Engine answers\<close>

text \<open>
  The SDK's \<^verbatim>\<open>overlay.AdmittanceInstructions\<close> and \<^verbatim>\<open>overlay.Steak\<close>. A slice is \<open>None\<close> when nil;
  a map entry is \<open>Some None\<close> when the topic is present with a nil pointer.
\<close>

record adm =
  OutputsToAdmit :: "u32 list option"
  CoinsToRetain :: "u32 list option"
  CoinsRemoved :: "u32 list option"
  AncillaryTxids :: "string option list"

type_synonym steak = "string \<Rightarrow> adm option option"

abbreviation slice :: "'a list option \<Rightarrow> 'a list" where
  "slice s \<equiv> (case s of None \<Rightarrow> [] | Some xs \<Rightarrow> xs)"

definition empty_adm :: adm where
  "empty_adm = \<lparr>OutputsToAdmit = None, CoinsToRetain = None, CoinsRemoved = None, AncillaryTxids = []\<rparr>"

text \<open>\<^verbatim>\<open>steak[topic]\<close>: the zero value, a nil pointer, when the topic is absent.\<close>

definition steak_get :: "steak \<Rightarrow> string \<Rightarrow> adm option" where
  "steak_get s t = (case s t of None \<Rightarrow> None | Some a \<Rightarrow> a)"

record Answer =
  Steak :: steak
  Wrapped :: bool

datatype submit_err =
    NoBase | TopicForm string | NoRequest | Unreachable | Unreadable
  | StatusError int string | Undecodable string | ErrCtx

definition Refused :: "submit_err \<Rightarrow> bool" where
  "Refused e = (case e of StatusError code _ \<Rightarrow> 400 \<le> code \<and> code < 500 | _ \<Rightarrow> False)"

section \<open>The submit client\<close>

text \<open>One request as the engine sees it: the header fields the client sets, and the body.\<close>

record submit_req =
  req_url :: string
  req_content_type :: string
  req_topics :: string
  req_marker :: "string option"
  req_length :: nat
  req_body :: bytes

datatype http_reply = NoReply | BrokenBody int | Reply int bytes

text \<open>
  What the client relies on outside the repository: building a request for a URL, the HTTP exchange, and
  JSON decoding into the SDK's map type, bare or under a \<^verbatim>\<open>STEAK\<close> field (\<open>Some None\<close> is a nil map).
\<close>

record submit_env =
  buildable :: "string \<Rightarrow> bool"
  exchange :: "submit_req \<Rightarrow> http_reply"
  unmarshal_wrapped :: "bytes \<Rightarrow> steak option option"
  unmarshal_bare :: "bytes \<Rightarrow> steak option option"

definition nil_steak :: steak where
  "nil_steak = (\<lambda>_. None)"

definition snippet :: "bytes \<Rightarrow> string" where
  "snippet b = (let s = trim_space (map (\<lambda>x. char_of (unat x)) b) in
     if 200 < length s then take 200 s @ ''...'' else s)"

definition decodeAnswer :: "submit_env \<Rightarrow> bytes \<Rightarrow> submit_err + Answer" where
  "decodeAnswer env body = (case unmarshal_wrapped env body of
      Some (Some s) \<Rightarrow> Inr \<lparr>Steak = s, Wrapped = True\<rparr>
    | _ \<Rightarrow> (case unmarshal_bare env body of
          None \<Rightarrow> Inl (Undecodable (snippet body))
        | Some s \<Rightarrow> Inr \<lparr>Steak = (case s of None \<Rightarrow> nil_steak | Some m \<Rightarrow> m), Wrapped = False\<rparr>))"

definition marker_header :: "string \<Rightarrow> string option" where
  "marker_header m = (if m \<noteq> [] then Some m else None)"

definition submit_request :: "string \<Rightarrow> string \<Rightarrow> bytes \<Rightarrow> string \<Rightarrow> submit_req" where
  "submit_request base topic object marker =
     \<lparr>req_url = trim_right_slash base @ ''/submit'', req_content_type = ''application/octet-stream'',
      req_topics = topic, req_marker = marker_header marker, req_length = length object, req_body = object\<rparr>"

definition client_submit :: "submit_env \<Rightarrow> string \<Rightarrow> string \<Rightarrow> bytes \<Rightarrow> string \<Rightarrow> submit_err + Answer" where
  "client_submit env base topic object marker =
    (if base = [] then Inl NoBase
     else if list_ex (\<lambda>c. c = CHR '' '' \<or> c = CHR '','') topic then Inl (TopicForm topic)
     else let req = submit_request base topic object marker in
       if \<not> buildable env (req_url req) then Inl NoRequest
       else (case exchange env req of
           NoReply \<Rightarrow> Inl Unreachable
         | BrokenBody code \<Rightarrow> Inl Unreadable
         | Reply code body \<Rightarrow>
             if code \<noteq> 200 then Inl (StatusError code (snippet body)) else decodeAnswer env body))"

definition SubmitDetail :: "submit_env \<Rightarrow> string \<Rightarrow> string \<Rightarrow> bytes \<Rightarrow> submit_err + Answer" where
  "SubmitDetail env base topic object = client_submit env base topic object []"

definition SubmitMarked :: "submit_env \<Rightarrow> string \<Rightarrow> string \<Rightarrow> bytes \<Rightarrow> string \<Rightarrow> submit_err + steak" where
  "SubmitMarked env base topic object marker =
     bind_res (client_submit env base topic object marker) (\<lambda>a. Inr (Steak a))"

definition client_Submit :: "submit_env \<Rightarrow> string \<Rightarrow> string \<Rightarrow> bytes \<Rightarrow> submit_err + steak" where
  "client_Submit env base topic object = bind_res (SubmitDetail env base topic object) (\<lambda>a. Inr (Steak a))"

section \<open>Submitting with bounded retries\<close>

text \<open>
  One engine submit with its retries, as the feed and an \<^verbatim>\<open>Also\<close> both run it. The engine's reply to
  attempt \<open>i\<close>, whether the context has ended right after it, and whether it ends during the wait that
  would follow are given by the surroundings; the result carries the number of requests made.
\<close>

record attempts =
  answer :: "nat \<Rightarrow> submit_err + steak"
  ended :: "nat \<Rightarrow> bool"
  ends_waiting :: "nat \<Rightarrow> bool"

datatype submit_end = Submitted steak | RefusedEnd submit_err | GaveUp submit_err | CutShort

function submit_loop :: "nat \<Rightarrow> attempts \<Rightarrow> nat \<Rightarrow> submit_end \<times> nat" where
  "submit_loop retries w attempt = (case answer w attempt of
      Inr s \<Rightarrow> (Submitted s, attempt + 1)
    | Inl e \<Rightarrow>
        if Refused e then (RefusedEnd e, attempt + 1)
        else if retries \<le> attempt \<or> ended w attempt then (GaveUp e, attempt + 1)
        else if ends_waiting w attempt then (CutShort, attempt + 1)
        else submit_loop retries w (attempt + 1))"
  by pat_completeness auto
termination by (relation "measure (\<lambda>(r, w, a). r - a)") auto

declare submit_loop.simps [simp del]

text \<open>An attempt the loop goes past: a failure that is no refusal, with retries and context left.\<close>

definition retried_past :: "nat \<Rightarrow> attempts \<Rightarrow> nat \<Rightarrow> bool" where
  "retried_past retries w i \<longleftrightarrow> i < retries \<and> \<not> ended w i \<and> \<not> ends_waiting w i \<and>
     (case answer w i of Inr s \<Rightarrow> False | Inl e \<Rightarrow> \<not> Refused e)"

definition loop_stop :: "nat \<Rightarrow> attempts \<Rightarrow> nat \<Rightarrow> submit_end" where
  "loop_stop retries w i = (case answer w i of
      Inr s \<Rightarrow> Submitted s
    | Inl e \<Rightarrow> if Refused e then RefusedEnd e
              else if retries \<le> i \<or> ended w i then GaveUp e else CutShort)"

lemma submit_loop_past: "retried_past retries w a \<Longrightarrow> submit_loop retries w a = submit_loop retries w (a + 1)"
  by (subst submit_loop.simps) (auto simp: retried_past_def split: sum.splits)

lemma submit_loop_stops:
  "\<not> retried_past retries w a \<Longrightarrow> submit_loop retries w a = (loop_stop retries w a, a + 1)"
  by (subst submit_loop.simps) (auto simp: retried_past_def loop_stop_def split: sum.splits)

lemma submit_loop_char:
  "\<exists>n. a \<le> n \<and> n \<le> max a retries \<and> (\<forall>i. a \<le> i \<and> i < n \<longrightarrow> retried_past retries w i) \<and>
     \<not> retried_past retries w n \<and> submit_loop retries w a = (loop_stop retries w n, n + 1)"
proof (induction "retries - a" arbitrary: a)
  case 0
  then have "\<not> retried_past retries w a" by (simp add: retried_past_def)
  then show ?case using submit_loop_stops by (intro exI [of _ a]) auto
next
  case (Suc k)
  show ?case
  proof (cases "retried_past retries w a")
    case True
    have "k = retries - (a + 1)" using Suc(2) by simp
    from Suc(1) [OF this] obtain n where n: "a + 1 \<le> n" "n \<le> max (a + 1) retries"
      "\<forall>i. a + 1 \<le> i \<and> i < n \<longrightarrow> retried_past retries w i" "\<not> retried_past retries w n"
      "submit_loop retries w (a + 1) = (loop_stop retries w n, n + 1)" by blast
    have "\<forall>i. a \<le> i \<and> i < n \<longrightarrow> retried_past retries w i"
      using n(3) True by (metis Suc_eq_plus1 le_antisym not_less_eq_eq)
    then show ?thesis using n True Suc(2) submit_loop_past [OF True] by (intro exI [of _ n]) auto
  next
    case False
    then show ?thesis using submit_loop_stops by (intro exI [of _ a]) auto
  qed
qed

section \<open>Properties\<close>

text \<open>
  C23. A submit always ends, after at most one request more than the configured retries. It ends at the first
  attempt that is answered, refused on the object's merits, out of retries, or cut off by the context, and every
  attempt before that one failed in a way that is retried; nothing after a refusal is ever sent.
\<close>

theorem submit_retries_bounded:
  "\<exists>n \<le> retries. (\<forall>i < n. retried_past retries w i) \<and> \<not> retried_past retries w n \<and>
     submit_loop retries w 0 = (loop_stop retries w n, n + 1)"
  using submit_loop_char [of 0 retries w] by auto

definition sample_attempts :: attempts where
  "sample_attempts = \<lparr>answer = (\<lambda>i. if i = 0 then Inl Unreachable else Inl (StatusError 422 [])),
     ended = (\<lambda>_. False), ends_waiting = (\<lambda>_. False)\<rparr>"

theorem submit_retries_bounded_witness:
  "submit_loop 4 sample_attempts 0 = (RefusedEnd (StatusError 422 []), 2) \<and> retried_past 4 sample_attempts 0"
proof -
  have s: "retried_past 4 sample_attempts 0" "\<not> retried_past 4 sample_attempts 1"
    by (simp_all add: retried_past_def sample_attempts_def Refused_def)
  obtain n where n: "n \<le> 4" "\<forall>i < n. retried_past 4 sample_attempts i" "\<not> retried_past 4 sample_attempts n"
    "submit_loop 4 sample_attempts 0 = (loop_stop 4 sample_attempts n, n + 1)"
    using submit_retries_bounded [of 4 sample_attempts] by blast
  have "n = 1" using n(2,3) s by (metis less_one linorder_neqE_nat)
  with n(4) s(1) show ?thesis by (simp add: loop_stop_def sample_attempts_def Refused_def)
qed

text \<open>
  What goes over the wire: a request is made only for a configured engine and a topic without space or comma;
  it carries the topic in one header, the object as the whole body under its exact length and the type both engines
  need, and the trust marker exactly when one was given.
\<close>

theorem submit_request_form:
  assumes "client_submit env base topic object marker = Inr a"
  shows "\<exists>req code body. exchange env req = Reply code body \<and> code = 200 \<and> decodeAnswer env body = Inr a \<and>
     req_body req = object \<and> req_length req = length object \<and> req_topics req = topic \<and>
     CHR '' '' \<notin> set topic \<and> CHR '','' \<notin> set topic \<and> req_content_type req = ''application/octet-stream'' \<and>
     req_url req = trim_right_slash base @ ''/submit'' \<and>
     (req_marker req = None \<longleftrightarrow> marker = []) \<and> (req_marker req = Some marker \<longleftrightarrow> marker \<noteq> [])"
proof -
  from assms obtain code body where x: "exchange env (submit_request base topic object marker) = Reply code body"
    "code = 200" "decodeAnswer env body = Inr a"
    by (auto simp: client_submit_def Let_def split: if_splits http_reply.splits)
  moreover have "CHR '' '' \<notin> set topic \<and> CHR '','' \<notin> set topic"
    using assms by (auto simp: client_submit_def list_ex_iff split: if_splits)
  ultimately show ?thesis
    by (intro exI [of _ "submit_request base topic object marker"] exI [of _ code] exI [of _ body])
      (auto simp: submit_request_def marker_header_def)
qed

definition sample_submit_env :: submit_env where
  "sample_submit_env = \<lparr>buildable = (\<lambda>_. True),
     exchange = (\<lambda>r. if req_topics r = ''t'' \<and> req_marker r = Some ''m'' then Reply 200 (req_body r) else NoReply),
     unmarshal_wrapped = (\<lambda>_. Some None), unmarshal_bare = (\<lambda>b. if b = [7] then Some None else None)\<rparr>"

theorem submit_request_form_witness:
  "is_ok (client_submit sample_submit_env ''http://e/'' ''t'' [7] ''m'') \<and>
   (\<exists>req code body. exchange sample_submit_env req = Reply code body \<and> req_body req = [7])"
proof -
  have "client_submit sample_submit_env ''http://e/'' ''t'' [7] ''m'' = Inr \<lparr>Steak = nil_steak, Wrapped = False\<rparr>"
    by (simp add: client_submit_def Let_def sample_submit_env_def submit_request_def marker_header_def decodeAnswer_def)
  from submit_request_form [OF this] this show ?thesis by auto
qed

end
