(* ===== verification/Facade_Topics.thy ===== *)
theory Facade_Topics
  imports Feed_Targets
begin

text \<open>
  The facade's reading of the \<^verbatim>\<open>x-topics\<close> header (\<^verbatim>\<open>src/facade/topics.go\<close>) and the wire form of an answer
  (\<^verbatim>\<open>src/facade/wire.go\<close>). The JSON form of the header goes through \<^verbatim>\<open>encoding/json\<close>, whose decoding of an array
  of strings is written out on byte strings: white space, escapes, surrogate pairs, and the replacement of
  invalid UTF-8.
\<close>

section \<open>Decoding a JSON array of strings\<close>

abbreviation ord :: "char \<Rightarrow> nat" where
  "ord c \<equiv> of_char c"

definition json_ws :: "char \<Rightarrow> bool" where
  "json_ws c \<longleftrightarrow> ord c \<in> {32, 9, 10, 13}"

definition is_cont :: "char \<Rightarrow> bool" where
  "is_cont c \<longleftrightarrow> 128 \<le> ord c \<and> ord c \<le> 191"

definition between :: "nat \<Rightarrow> char \<Rightarrow> nat \<Rightarrow> bool" where
  "between lo c hi \<longleftrightarrow> lo \<le> ord c \<and> ord c \<le> hi"

text \<open>The length of the valid UTF-8 sequence a string starts with; \<open>0\<close> when it starts with none.\<close>

fun rune_len :: "string \<Rightarrow> nat" where
  "rune_len (a # b # c # d # _) =
     (if ord a < 128 then 1
      else if between 0xC2 a 0xDF \<and> is_cont b then 2
      else if is_cont c \<and> (ord a = 0xE0 \<and> between 0xA0 b 0xBF \<or> between 0xE1 a 0xEC \<and> is_cont b \<or>
          ord a = 0xED \<and> between 0x80 b 0x9F \<or> between 0xEE a 0xEF \<and> is_cont b) then 3
      else if is_cont c \<and> is_cont d \<and> (ord a = 0xF0 \<and> between 0x90 b 0xBF \<or> between 0xF1 a 0xF3 \<and> is_cont b \<or>
          ord a = 0xF4 \<and> between 0x80 b 0x8F) then 4
      else 0)"
| "rune_len [a, b, c] =
     (if ord a < 128 then 1
      else if between 0xC2 a 0xDF \<and> is_cont b then 2
      else if is_cont c \<and> (ord a = 0xE0 \<and> between 0xA0 b 0xBF \<or> between 0xE1 a 0xEC \<and> is_cont b \<or>
          ord a = 0xED \<and> between 0x80 b 0x9F \<or> between 0xEE a 0xEF \<and> is_cont b) then 3
      else 0)"
| "rune_len [a, b] = (if ord a < 128 then 1 else if between 0xC2 a 0xDF \<and> is_cont b then 2 else 0)"
| "rune_len [a] = (if ord a < 128 then 1 else 0)"
| "rune_len [] = 0"

definition utf8 :: "nat \<Rightarrow> string" where
  "utf8 r = (if r < 0x80 then [char_of r]
     else if r < 0x800 then [char_of (0xC0 + r div 64), char_of (0x80 + r mod 64)]
     else if r < 0x10000 then
       [char_of (0xE0 + r div 4096), char_of (0x80 + r div 64 mod 64), char_of (0x80 + r mod 64)]
     else [char_of (0xF0 + r div 262144), char_of (0x80 + r div 4096 mod 64),
       char_of (0x80 + r div 64 mod 64), char_of (0x80 + r mod 64)])"

definition rune_error :: string where
  "rune_error = utf8 0xFFFD"

definition hex_value :: "char \<Rightarrow> nat option" where
  "hex_value c = (if between 48 c 57 then Some (ord c - 48)
     else if between 97 c 102 then Some (ord c - 87)
     else if between 65 c 70 then Some (ord c - 55) else None)"

fun hex4 :: "string \<Rightarrow> (nat \<times> string) option" where
  "hex4 (a # b # c # d # rest) = (case (hex_value a, hex_value b, hex_value c, hex_value d) of
      (Some w, Some x, Some y, Some z) \<Rightarrow> Some (4096 * w + 256 * x + 16 * y + z, rest)
    | _ \<Rightarrow> None)"
| "hex4 _ = None"

text \<open>The characters after \<^verbatim>\<open>\u\<close>: a rune, where a low surrogate must follow a high one as a second escape.\<close>

definition low_surrogate :: "string \<Rightarrow> (nat \<times> string) option" where
  "low_surrogate s = (case s of
      c # d # rest \<Rightarrow> if ord c = 92 \<and> d = CHR ''u'' then
          (case hex4 rest of Some (lo, rest') \<Rightarrow> if 0xDC00 \<le> lo \<and> lo < 0xE000 then Some (lo, rest') else None | None \<Rightarrow> None)
        else None
    | _ \<Rightarrow> None)"

definition unicode_escape :: "string \<Rightarrow> (string \<times> string) option" where
  "unicode_escape s = (case hex4 s of
      None \<Rightarrow> None
    | Some (r, rest) \<Rightarrow>
        if 0xD800 \<le> r \<and> r < 0xDC00 then
          (case low_surrogate rest of
             Some (lo, rest') \<Rightarrow> Some (utf8 (0x10000 + (r - 0xD800) * 1024 + (lo - 0xDC00)), rest')
           | None \<Rightarrow> Some (rune_error, rest))
        else if 0xDC00 \<le> r \<and> r < 0xE000 then Some (rune_error, rest)
        else Some (utf8 r, rest))"

definition simple_escape :: "char \<Rightarrow> char option" where
  "simple_escape c = (if ord c \<in> {34, 92, 47} then Some c
     else if c = CHR ''b'' then Some CHR 0x08 else if c = CHR ''f'' then Some CHR 0x0C
     else if c = CHR ''n'' then Some CHR 0x0A else if c = CHR ''r'' then Some CHR 0x0D
     else if c = CHR ''t'' then Some CHR 0x09 else None)"

lemma hex4_shorter: "hex4 s = Some (r, rest) \<Longrightarrow> length rest < length s"
  by (induction s rule: hex4.induct) (auto split: option.splits)

lemma low_surrogate_shorter: "low_surrogate s = Some (r, rest) \<Longrightarrow> length rest < length s"
  by (auto simp: low_surrogate_def split: list.splits if_splits option.splits dest!: hex4_shorter)

lemma unicode_escape_shorter: "unicode_escape s = Some (t, rest) \<Longrightarrow> length rest < length s"
  by (fastforce simp: unicode_escape_def split: option.splits if_splits dest: hex4_shorter low_surrogate_shorter)

text \<open>A string body up to its closing quote.\<close>

function string_body :: "string \<Rightarrow> (string \<times> string) option" where
  "string_body [] = None"
| "string_body (c # cs) =
    (if ord c = 34 then Some ([], cs)
     else if ord c < 32 then None
     else if ord c = 92 then
       (case cs of
          [] \<Rightarrow> None
        | e # rest \<Rightarrow>
            if e = CHR ''u'' then
              (case unicode_escape rest of
                 None \<Rightarrow> None
               | Some (t, rest') \<Rightarrow> map_option (\<lambda>(u, r). (t @ u, r)) (string_body rest'))
            else (case simple_escape e of
                 None \<Rightarrow> None
               | Some x \<Rightarrow> map_option (\<lambda>(u, r). (x # u, r)) (string_body rest)))
     else (case rune_len (c # cs) of
          0 \<Rightarrow> map_option (\<lambda>(u, r). (rune_error @ u, r)) (string_body cs)
        | Suc n \<Rightarrow> map_option (\<lambda>(u, r). (c # take n cs @ u, r)) (string_body (drop n cs))))"
  by pat_completeness auto
termination
  by (relation "measure length") (auto dest: unicode_escape_shorter)

declare string_body.simps [simp del]

lemma string_body_shorter: "string_body s = Some (t, rest) \<Longrightarrow> length rest < length s"
proof (induction s arbitrary: t rest rule: string_body.induct)
  case 1
  then show ?case by (simp add: string_body.simps)
next
  case (2 c cs)
  consider "ord c = 34" | "ord c < 32" | (esc) e rs where "ord c = 92" "cs = e # rs" | "ord c = 92" "cs = []"
    | (plain) "ord c \<noteq> 34" "\<not> ord c < 32" "ord c \<noteq> 92" by (cases cs) auto
  then show ?case
  proof cases
    case 1
    then show ?thesis using "2.prems" by (simp add: string_body.simps)
  next
    case 2
    then show ?thesis using "2.prems" by (simp add: string_body.simps)
  next
    case 4
    then show ?thesis using "2.prems" by (simp add: string_body.simps)
  next
    case (esc e rs)
    show ?thesis
    proof (cases "e = CHR ''u''")
      case True
      then obtain x rs' u where u: "unicode_escape rs = Some (x, rs')" "string_body rs' = Some (u, rest)"
        using "2.prems" esc by (subst (asm) string_body.simps) (auto split: option.splits)
      then have "length rest < length rs'" using "2.IH"(1) [of e rs "(x, rs')" x rs'] esc True by simp
      then show ?thesis using unicode_escape_shorter [OF u(1)] esc by simp
    next
      case False
      then obtain x u where u: "simple_escape e = Some x" "string_body rs = Some (u, rest)"
        using "2.prems" esc by (subst (asm) string_body.simps) (auto split: option.splits)
      then have "length rest < length rs" using "2.IH"(2) [of e rs x] esc False by simp
      then show ?thesis using esc by simp
    qed
  next
    case plain
    show ?thesis
    proof (cases "rune_len (c # cs)")
      case 0
      then obtain u where "string_body cs = Some (u, rest)"
        using "2.prems" plain by (subst (asm) string_body.simps) (auto split: option.splits)
      then have "length rest < length cs" using "2.IH"(3) plain 0 by blast
      then show ?thesis by simp
    next
      case (Suc n)
      then obtain u where "string_body (drop n cs) = Some (u, rest)"
        using "2.prems" plain by (subst (asm) string_body.simps) (auto split: option.splits)
      then have "length rest < length (drop n cs)" using "2.IH"(4) plain Suc by blast
      then show ?thesis by simp
    qed
  qed
qed

definition skip_ws :: "string \<Rightarrow> string" where
  "skip_ws s = dropWhile json_ws s"

text \<open>One element: a string, or \<^verbatim>\<open>null\<close>, which leaves the empty string; anything else is an error.\<close>

definition json_element :: "string \<Rightarrow> (string \<times> string) option" where
  "json_element s = (case s of
      [] \<Rightarrow> None
    | c # cs \<Rightarrow> if ord c = 34 then string_body cs
        else if has_prefix ''null'' s then Some ([], drop 4 s) else None)"

lemma json_element_shorter: "json_element s = Some (t, rest) \<Longrightarrow> length rest < length s"
  by (auto simp: json_element_def split: list.splits if_splits dest: string_body_shorter)

lemma skip_ws_length: "length (skip_ws s) \<le> length s"
  by (simp add: skip_ws_def length_dropWhile_le)

text \<open>The elements after the opening bracket, to the end of the input.\<close>

function json_items :: "string \<Rightarrow> string list option" where
  "json_items s = (case json_element (skip_ws s) of
      None \<Rightarrow> None
    | Some (t, rest) \<Rightarrow>
        (case skip_ws rest of
           [] \<Rightarrow> None
         | c # cs \<Rightarrow>
             if c = CHR '','' then map_option ((#) t) (json_items cs)
             else if c = CHR '']'' \<and> skip_ws cs = [] then Some [t] else None))"
  by pat_completeness auto
termination
proof (relation "measure length")
  fix s and x :: "string \<times> string" and t rest c cs
  assume a: "json_element (skip_ws s) = Some x" "(t, rest) = x" "skip_ws rest = c # cs"
  then have "length rest < length (skip_ws s)" using json_element_shorter by metis
  then have "length cs < length s"
    using a(3) skip_ws_length [of rest] skip_ws_length [of s] by simp
  then show "(cs, s) \<in> measure length" by simp
qed simp

declare json_items.simps [simp del]

definition unmarshal_names :: "string \<Rightarrow> string list option" where
  "unmarshal_names raw = (case skip_ws raw of
      [] \<Rightarrow> None
    | c # cs \<Rightarrow> if c \<noteq> CHR ''['' then None
        else (case skip_ws cs of
            [] \<Rightarrow> None
          | d # ds \<Rightarrow> if d = CHR '']'' then (if skip_ws ds = [] then Some [] else None) else json_items cs))"

section \<open>The x-topics header\<close>

datatype topics_err = MissingTopics | RepeatedTopics nat | EmptyTopics | NotJSONArray | EmptyName | NoTopics

fun collect_names :: "string list \<Rightarrow> string list \<Rightarrow> topics_err + string list" where
  "collect_names [] out = Inr out"
| "collect_names (n # ns) out = (let t = trim_space n in
     if t = [] then Inl EmptyName
     else if t \<in> set out then collect_names ns out
     else collect_names ns (out @ [t]))"

definition ParseTopics :: "string list \<Rightarrow> topics_err + string list" where
  "ParseTopics values = (case values of
      [] \<Rightarrow> Inl MissingTopics
    | [v] \<Rightarrow> (let raw = trim_space v in
        if raw = [] then Inl EmptyTopics
        else bind_res
          (if has_prefix ''['' raw
           then (case unmarshal_names raw of None \<Rightarrow> Inl NotJSONArray | Some ns \<Rightarrow> Inr ns)
           else Inr (split_on CHR '','' raw))
          (\<lambda>ns. bind_res (collect_names ns []) (\<lambda>out. if out = [] then Inl NoTopics else Inr out)))
    | _ \<Rightarrow> Inl (RepeatedTopics (length values)))"

lemma collect_names_ok:
  "collect_names ns out = Inr r \<Longrightarrow> distinct out \<Longrightarrow> list_all clean out \<Longrightarrow>
     distinct r \<and> list_all clean r \<and> set r = set out \<union> trim_space ` set ns"
proof (induction ns arbitrary: out)
  case (Cons n ns)
  have c: "trim_space n \<noteq> [] \<Longrightarrow> clean (trim_space n)" by (rule trim_space_result)
  show ?case
  proof (cases "trim_space n \<in> set out")
    case True
    then show ?thesis using Cons by (auto simp: Let_def split: if_splits)
  next
    case False
    then have "collect_names ns (out @ [trim_space n]) = Inr r" "trim_space n \<noteq> []"
      using Cons.prems(1) by (auto simp: Let_def split: if_splits)
    then show ?thesis using Cons.IH [of "out @ [trim_space n]"] Cons.prems False c by auto
  qed
qed simp

lemma ParseTopics_ok: "ParseTopics vs = Inr ts \<Longrightarrow> ts \<noteq> [] \<and> distinct ts \<and> list_all clean ts"
  by (fastforce simp: ParseTopics_def Let_def bind_res_Inr_iff dest: collect_names_ok split: list.splits if_splits option.splits)

lemma collect_names_clean: "distinct (out @ ts) \<Longrightarrow> list_all clean ts \<Longrightarrow> collect_names ts out = Inr (out @ ts)"
proof (induction ts arbitrary: out)
  case (Cons t ts)
  have "trim_space t = t" "t \<noteq> []" using Cons.prems(2) by (auto simp: trim_space_clean clean_def)
  then show ?case using Cons.IH [of "out @ [t]"] Cons.prems by simp
qed simp

section \<open>The two forms of the header\<close>

fun comma_form :: "string list \<Rightarrow> string" where
  "comma_form [] = []"
| "comma_form (t # ts) = t @ concat (map (\<lambda>x. CHR '','' # x) ts)"

definition quote :: "string \<Rightarrow> string" where
  "quote t = CHR 0x22 # t @ [CHR 0x22]"

definition json_form :: "string list \<Rightarrow> string" where
  "json_form ts = CHR ''['' # comma_form (map quote ts) @ [CHR '']'']"

text \<open>A name both forms can carry as it is: printable, without comma, quote or backslash.\<close>

definition plain_char :: "char \<Rightarrow> bool" where
  "plain_char c \<longleftrightarrow> 32 \<le> ord c \<and> ord c < 128 \<and> c \<noteq> CHR '','' \<and> ord c \<noteq> 34 \<and> ord c \<noteq> 92"

definition plain_name :: "string \<Rightarrow> bool" where
  "plain_name t \<longleftrightarrow> clean t \<and> list_all plain_char t"

lemma clean_join: "clean t \<Longrightarrow> list_all clean ts \<Longrightarrow> clean (t @ concat (map (\<lambda>x. CHR '','' # x) ts))"
proof (induction ts arbitrary: t)
  case (Cons x ts)
  have "clean (t @ [CHR '',''] @ x)" using Cons.prems by (intro clean_append) simp_all
  then show ?case using Cons.IH [of "t @ [CHR '',''] @ x"] Cons.prems by simp
qed simp

lemma rune_len_ascii: "ord c < 128 \<Longrightarrow> rune_len (c # cs) = Suc 0"
proof -
  assume a: "ord c < 128"
  consider "cs = []" | x where "cs = [x]" | x y where "cs = [x, y]" | x y z zs where "cs = x # y # z # zs"
    by (metis neq_Nil_conv)
  then show ?thesis by cases (simp_all add: a)
qed

lemma string_body_plain: "list_all plain_char t \<Longrightarrow> string_body (t @ CHR 0x22 # r) = Some (t, r)"
proof (induction t)
  case Nil
  then show ?case by (simp add: string_body.simps)
next
  case (Cons c t)
  then have "rune_len (c # t @ CHR 0x22 # r) = Suc 0" by (simp add: plain_char_def rune_len_ascii)
  then show ?case using Cons by (subst append_Cons, subst string_body.simps) (simp add: plain_char_def)
qed

lemma json_items_plain:
  "list_all plain_name (t # ts) \<Longrightarrow> json_items (comma_form (map quote (t # ts)) @ [CHR '']'']) = Some (t # ts)"
proof (induction ts arbitrary: t)
  case Nil
  then have "string_body (t @ CHR 0x22 # [CHR '']'']) = Some (t, [CHR '']''])"
    by (simp add: string_body_plain plain_name_def)
  then show ?case
    by (subst json_items.simps) (simp add: quote_def skip_ws_def json_ws_def json_element_def)
next
  case (Cons u ts)
  let ?rest = "comma_form (map quote (u # ts)) @ [CHR '']'']"
  have "string_body (t @ CHR 0x22 # CHR '','' # ?rest) = Some (t, CHR '','' # ?rest)"
    using Cons.prems by (intro string_body_plain) (simp add: plain_name_def)
  then have "json_element (skip_ws (comma_form (map quote (t # u # ts)) @ [CHR '']''])) = Some (t, CHR '','' # ?rest)"
    by (simp add: quote_def skip_ws_def json_ws_def json_element_def)
  moreover have "skip_ws (CHR '','' # ?rest) = CHR '','' # ?rest" by (simp add: skip_ws_def json_ws_def)
  ultimately show ?case using Cons by (subst json_items.simps) simp
qed

section \<open>The wire form of an answer\<close>

text \<open>The wire struct of one topic; \<open>None\<close> is a nil slice, which its JSON form leaves out.\<close>

record admittance =
  w_outputsToAdmit :: "u32 list"
  w_coinsToRetain :: "u32 list"
  w_coinsRemoved :: "u32 list option"
  w_ancillaryTxids :: "string list"
  w_ancillaryTxIDs :: "string list"

definition wire_adm :: "adm option \<Rightarrow> admittance" where
  "wire_adm ai = (case ai of
      None \<Rightarrow> \<lparr>w_outputsToAdmit = [], w_coinsToRetain = [], w_coinsRemoved = None, w_ancillaryTxids = [],
        w_ancillaryTxIDs = []\<rparr>
    | Some a \<Rightarrow> (let txids = List.map_filter (\<lambda>h. h) (AncillaryTxids a) in
        \<lparr>w_outputsToAdmit = (case OutputsToAdmit a of None \<Rightarrow> [] | Some v \<Rightarrow> v),
         w_coinsToRetain = (case CoinsToRetain a of None \<Rightarrow> [] | Some v \<Rightarrow> v),
         w_coinsRemoved = CoinsRemoved a, w_ancillaryTxids = txids, w_ancillaryTxIDs = txids\<rparr>))"

definition wireSteak :: "steak \<Rightarrow> string \<Rightarrow> admittance option" where
  "wireSteak s = (\<lambda>topic. map_option wire_adm (s topic))"

section \<open>Properties\<close>

text \<open>
  The two forms of the topics header mean the same: a list of distinct, trimmed, printable names written with
  commas, and the same list written as a JSON array, are both read back as exactly that list.
\<close>

theorem both_topic_forms_agree:
  assumes "ts \<noteq> []" and "distinct ts" and "list_all plain_name ts" and "hd (hd ts) \<noteq> CHR ''[''"
  shows "ParseTopics [comma_form ts] = Inr ts \<and> ParseTopics [json_form ts] = Inr ts"
proof -
  obtain t us where ts: "ts = t # us" using assms(1) by (cases ts) auto
  have cl: "list_all clean ts" "clean t" using assms(3) ts by (auto simp: list_all_iff plain_name_def)
  have col: "collect_names ts [] = Inr ts" using collect_names_clean [of "[]" ts] assms(2) cl by simp
  have nc: "CHR '','' \<notin> set t" "list_all (\<lambda>x. CHR '','' \<notin> set x) us"
    using assms(3) ts by (auto simp: list_all_iff plain_name_def plain_char_def)
  have c: "clean (comma_form ts)" using clean_join [of t us] cl ts by simp
  have "comma_form ts \<noteq> []" "hd (comma_form ts) = hd t" using cl(2) ts by (auto simp: clean_def)
  then have "\<not> has_prefix ''['' (comma_form ts)" using assms(4) ts by (cases "comma_form ts") auto
  moreover have "split_on CHR '','' (comma_form ts) = ts" using split_on_join [OF nc] ts by simp
  ultimately have "ParseTopics [comma_form ts] = Inr ts"
    using c col \<open>comma_form ts \<noteq> []\<close> assms(1) by (simp add: ParseTopics_def trim_space_clean)
  moreover have "clean (json_form ts)" by (simp add: json_form_def clean_def is_space_def)
  moreover have "unmarshal_names (json_form ts) = Some ts"
  proof -
    have q: "skip_ws (comma_form (map quote ts) @ [CHR '']'']) = comma_form (map quote ts) @ [CHR '']'']"
      using ts by (simp add: skip_ws_def quote_def json_ws_def)
    then show ?thesis using json_items_plain [of t us] assms(3) ts
      by (simp add: unmarshal_names_def json_form_def skip_ws_def json_ws_def quote_def)
  qed
  ultimately show ?thesis
    using col assms(1) by (simp add: ParseTopics_def trim_space_clean json_form_def)
qed

theorem both_topic_forms_agree_witness:
  "ParseTopics [''tm_a,tm_b''] = Inr [''tm_a'', ''tm_b''] \<and> ParseTopics [json_form [''tm_a'', ''tm_b'']] = Inr [''tm_a'', ''tm_b'']"
  using both_topic_forms_agree [of "[''tm_a'', ''tm_b'']"]
  by (simp add: plain_name_def plain_char_def clean_def is_space_def)

end
