(* ===== verification/Feed_Route.thy ===== *)
theory Feed_Route
  imports Go_Strings
begin

text \<open>
  The route language of \<^verbatim>\<open>feed/route.go\<close>: the \<^verbatim>\<open>-engine-route\<close> value and its parser, with what an
  accepted value guarantees and its round trip through the printed form.
\<close>

section \<open>Parsing a route\<close>

record RouteSpec =
  specPattern :: string
  specPrimary :: string
  specShadow :: string
  specAlso :: "string list"

datatype route_err =
    NotGlobPrimary | BadGlob string | NotKeyValue string | UnknownOption string
  | PrefixedOrigin string | ShadowIsPrimary | RepeatedTarget string

definition api_prefix_text :: string where
  "api_prefix_text = ''/api/v1''"

fun route_options :: "string list \<Rightarrow> RouteSpec \<Rightarrow> route_err + RouteSpec" where
  "route_options [] rs = Inr rs"
| "route_options (p # ps) rs =
     (case cut CHR ''='' (trim_space p) of
        None \<Rightarrow> Inl (NotKeyValue p)
      | Some (k0, v0) \<Rightarrow>
          (let k = trim_space k0; v = trim_space v0 in
           if v = [] then Inl (NotKeyValue p)
           else if k = ''shadow'' then route_options ps (rs\<lparr>specShadow := v\<rparr>)
           else if k = ''also'' then route_options ps (rs\<lparr>specAlso := specAlso rs @ [v]\<rparr>)
           else Inl (UnknownOption k)))"

fun bare_origins :: "string list \<Rightarrow> route_err + unit" where
  "bare_origins [] = Inr ()"
| "bare_origins (o' # os) = (if contains o' api_prefix_text then Inl (PrefixedOrigin o') else bare_origins os)"

fun fresh_targets :: "string set \<Rightarrow> string list \<Rightarrow> route_err + unit" where
  "fresh_targets seen [] = Inr ()"
| "fresh_targets seen (a # as) =
     (if trim_right_slash a \<in> seen then Inl (RepeatedTarget a)
      else fresh_targets (insert (trim_right_slash a) seen) as)"

definition ParseRouteSpec :: "string \<Rightarrow> route_err + RouteSpec" where
  "ParseRouteSpec s =
    (let parts = split_on CHR '','' s in
     case cut CHR ''='' (trim_space (hd parts)) of
       None \<Rightarrow> Inl NotGlobPrimary
     | Some (glob, prim) \<Rightarrow>
         if trim_space glob = [] \<or> trim_space prim = [] then Inl NotGlobPrimary
         else if path_Match (trim_space glob) [] = None then Inl (BadGlob (trim_space glob))
         else bind_res
           (route_options (tl parts)
             \<lparr>specPattern = trim_space glob, specPrimary = trim_space prim, specShadow = [], specAlso = []\<rparr>)
           (\<lambda>rs. bind_res (bare_origins ([specPrimary rs, specShadow rs] @ specAlso rs)) (\<lambda>_.
             if specShadow rs \<noteq> [] \<and> trim_right_slash (specShadow rs) = trim_right_slash (specPrimary rs)
             then Inl ShadowIsPrimary
             else bind_res
               (fresh_targets
                 ({trim_right_slash (specPrimary rs)} \<union>
                  (if specShadow rs \<noteq> [] then {trim_right_slash (specShadow rs)} else {}))
                 (specAlso rs))
               (\<lambda>_. Inr rs))))"

definition ParseRoute :: "string \<Rightarrow> route_err + (string \<times> string \<times> string)" where
  "ParseRoute s = bind_res (ParseRouteSpec s) (\<lambda>rs. Inr (specPattern rs, specPrimary rs, specShadow rs))"

section \<open>What an accepted route is\<close>

definition origins :: "RouteSpec \<Rightarrow> string list" where
  "origins rs = specPrimary rs # (if specShadow rs = [] then [] else [specShadow rs]) @ specAlso rs"

definition origin_text :: "string \<Rightarrow> bool" where
  "origin_text v \<longleftrightarrow> clean v \<and> CHR '','' \<notin> set v"

definition route_ok :: "RouteSpec \<Rightarrow> bool" where
  "route_ok rs \<longleftrightarrow>
     origin_text (specPattern rs) \<and> CHR ''='' \<notin> set (specPattern rs) \<and> parse_glob (specPattern rs) \<noteq> None \<and>
     list_all (\<lambda>v. origin_text v \<and> \<not> contains v api_prefix_text) (origins rs) \<and>
     distinct (map trim_right_slash (origins rs))"

definition show_route :: "RouteSpec \<Rightarrow> string" where
  "show_route rs = specPattern rs @ ''='' @ specPrimary rs @
     (if specShadow rs = [] then [] else '',shadow='' @ specShadow rs) @
     concat (map (\<lambda>a. '',also='' @ a) (specAlso rs))"

lemma bare_origins_ok: "bare_origins os = Inr u \<longleftrightarrow> list_all (\<lambda>v. \<not> contains v api_prefix_text) os"
  by (induction os) auto

lemma fresh_targets_ok:
  "fresh_targets seen as = Inr u \<longleftrightarrow>
     distinct (map trim_right_slash as) \<and> seen \<inter> trim_right_slash ` set as = {}"
  by (induction as arbitrary: seen) auto

lemma contains_empty: "\<not> contains [] api_prefix_text"
  by (simp add: api_prefix_text_def)

lemma origin_text_trim:
  assumes "w \<in> set (split_on CHR '','' s)" "set v \<subseteq> set w" "trim_space v \<noteq> []"
  shows "origin_text (trim_space v)"
  using assms split_on_no_sep [OF assms(1)] trim_space_result set_trim_space [of v]
  by (auto simp: origin_text_def)

lemma route_options_shape:
  assumes "route_options ps rs = Inr rs'" "set ps \<subseteq> set (split_on CHR '','' s)"
    and "list_all origin_text (origins rs)"
  shows "list_all origin_text (origins rs') \<and> specPattern rs' = specPattern rs"
  using assms
proof (induction ps arbitrary: rs)
  case (Cons p ps)
  obtain k0 v0 where c: "cut CHR ''='' (trim_space p) = Some (k0, v0)" and v: "trim_space v0 \<noteq> []"
    using Cons.prems(1) by (auto simp: Let_def split: option.splits if_splits)
  have "set v0 \<subseteq> set p" using cut_parts [OF c] set_trim_space [of p] by auto
  then have o: "origin_text (trim_space v0)"
    using Cons.prems(2) origin_text_trim [of p s v0] v by auto
  have ps: "set ps \<subseteq> set (split_on CHR '','' s)" using Cons.prems(2) by simp
  show ?case
  proof (cases "trim_space k0 = ''shadow''")
    case True
    then have "route_options ps (rs\<lparr>specShadow := trim_space v0\<rparr>) = Inr rs'"
      using Cons.prems(1) c v by simp
    moreover have "list_all origin_text (origins (rs\<lparr>specShadow := trim_space v0\<rparr>))"
      using Cons.prems(3) o by (auto simp: origins_def)
    ultimately show ?thesis using Cons.IH [OF _ ps, of "rs\<lparr>specShadow := trim_space v0\<rparr>"] by simp
  next
    case False
    then have "route_options ps (rs\<lparr>specAlso := specAlso rs @ [trim_space v0]\<rparr>) = Inr rs'"
      using Cons.prems(1) c v by (auto simp: Let_def split: if_splits)
    moreover have "list_all origin_text (origins (rs\<lparr>specAlso := specAlso rs @ [trim_space v0]\<rparr>))"
      using Cons.prems(3) o by (auto simp: origins_def)
    ultimately show ?thesis
      using Cons.IH [OF _ ps, of "rs\<lparr>specAlso := specAlso rs @ [trim_space v0]\<rparr>"] by simp
  qed
qed simp

lemma parse_glob_Match: "path_Match p [] = None \<longleftrightarrow> parse_glob p = None"
  by (simp add: path_Match_def)

lemma ParseRouteSpec_ok:
  assumes p: "ParseRouteSpec s = Inr rs"
  shows "route_ok rs"
proof -
  let ?w = "hd (split_on CHR '','' s)"
  have w: "?w \<in> set (split_on CHR '','' s)" by (simp add: split_on_nonempty)
  obtain glob prim where c: "cut CHR ''='' (trim_space ?w) = Some (glob, prim)"
    and n: "trim_space glob \<noteq> []" "trim_space prim \<noteq> []"
    and g: "parse_glob (trim_space glob) \<noteq> None"
    and opt: "route_options (tl (split_on CHR '','' s))
        \<lparr>specPattern = trim_space glob, specPrimary = trim_space prim, specShadow = [], specAlso = []\<rparr> = Inr rs"
    and b: "list_all (\<lambda>v. \<not> contains v api_prefix_text) ([specPrimary rs, specShadow rs] @ specAlso rs)"
    and ns: "\<not> (specShadow rs \<noteq> [] \<and> trim_right_slash (specShadow rs) = trim_right_slash (specPrimary rs))"
    and f: "fresh_targets ({trim_right_slash (specPrimary rs)} \<union>
        (if specShadow rs \<noteq> [] then {trim_right_slash (specShadow rs)} else {})) (specAlso rs) = Inr ()"
    using p by (auto simp: ParseRouteSpec_def Let_def bind_res_Inr_iff bare_origins_ok parse_glob_Match
        simp del: Un_insert_left split: option.splits if_splits)
  have sub: "set glob \<subseteq> set ?w" "set prim \<subseteq> set ?w" "CHR ''='' \<notin> set glob"
    using cut_parts [OF c] set_trim_space [of ?w] by auto
  have t: "set (tl (split_on CHR '','' s)) \<subseteq> set (split_on CHR '','' s)"
    using split_on_nonempty [of _ s] by (metis list.set_sel(2) subsetI)
  have og: "origin_text (trim_space glob)" "origin_text (trim_space prim)"
    using origin_text_trim [OF w] sub n by auto
  have sh: "list_all origin_text (origins rs) \<and> specPattern rs = trim_space glob"
    using route_options_shape [OF opt t] og by (simp add: origins_def)
  have "CHR ''='' \<notin> set (trim_space glob)" using sub(3) set_trim_space [of glob] by blast
  moreover have "list_all (\<lambda>v. origin_text v \<and> \<not> contains v api_prefix_text) (origins rs)"
    using sh b by (auto simp: origins_def list_all_iff)
  moreover have "distinct (map trim_right_slash (origins rs))"
    using f ns by (auto simp: origins_def fresh_targets_ok split: if_splits)
  ultimately show ?thesis using sh og g by (simp add: route_ok_def)
qed

section \<open>The printed form parses back\<close>

lemma option_step:
  assumes "origin_text v"
  shows "route_options ((''shadow='' @ v) # ps) rs = route_options ps (rs\<lparr>specShadow := v\<rparr>)"
    and "route_options ((''also='' @ v) # ps) rs = route_options ps (rs\<lparr>specAlso := specAlso rs @ [v]\<rparr>)"
proof -
  have v: "clean v" "v \<noteq> []" using assms by (auto simp: origin_text_def clean_def)
  have k: "clean ''shadow''" "clean ''also''" by (simp_all add: clean_def is_space_def)
  have c: "clean (''shadow'' @ ''='' @ v)" "clean (''also'' @ ''='' @ v)"
    using clean_append [OF k(1) v(1)] clean_append [OF k(2) v(1)] by blast+
  have "cut CHR ''='' (trim_space (''shadow='' @ v)) = Some (''shadow'', v)"
    "cut CHR ''='' (trim_space (''also='' @ v)) = Some (''also'', v)"
    using trim_space_clean [OF disjI2 [OF c(1)]] trim_space_clean [OF disjI2 [OF c(2)]] by simp_all
  then show "route_options ((''shadow='' @ v) # ps) rs = route_options ps (rs\<lparr>specShadow := v\<rparr>)"
    "route_options ((''also='' @ v) # ps) rs = route_options ps (rs\<lparr>specAlso := specAlso rs @ [v]\<rparr>)"
    using v k trim_space_clean [of v] trim_space_clean [of "''shadow''"] trim_space_clean [of "''also''"]
    by (simp_all add: Let_def)
qed

lemma also_options:
  "list_all origin_text as \<Longrightarrow>
   route_options (map (\<lambda>a. ''also='' @ a) as) rs = Inr (rs\<lparr>specAlso := specAlso rs @ as\<rparr>)"
proof (induction as arbitrary: rs)
  case (Cons a as)
  then show ?case using option_step(2) [of a "map (\<lambda>a. ''also='' @ a) as" rs] by simp
qed simp

definition route_parts :: "RouteSpec \<Rightarrow> string list" where
  "route_parts rs = (let as = map (\<lambda>a. ''also='' @ a) (specAlso rs) in
     if specShadow rs = [] then as else (''shadow='' @ specShadow rs) # as)"

lemma show_route_parts:
  "show_route rs = (specPattern rs @ ''='' @ specPrimary rs) @ concat (map (\<lambda>x. CHR '','' # x) (route_parts rs))"
  by (simp add: show_route_def route_parts_def Let_def comp_def)

lemma split_show_route:
  assumes "route_ok rs"
  shows "split_on CHR '','' (show_route rs) = (specPattern rs @ ''='' @ specPrimary rs) # route_parts rs"
  unfolding show_route_parts
proof (rule split_on_join)
  show "CHR '','' \<notin> set (specPattern rs @ ''='' @ specPrimary rs)"
    using assms by (auto simp: route_ok_def origin_text_def origins_def)
  show "list_all (\<lambda>x. CHR '','' \<notin> set x) (route_parts rs)"
    using assms by (auto simp: route_ok_def origin_text_def origins_def route_parts_def Let_def list_all_iff split: if_splits)
qed

lemma route_parts_options:
  assumes "route_ok rs"
  shows "route_options (route_parts rs)
      \<lparr>specPattern = specPattern rs, specPrimary = specPrimary rs, specShadow = [], specAlso = []\<rparr> = Inr rs"
proof -
  have "list_all origin_text (specAlso rs)" "specShadow rs = [] \<or> origin_text (specShadow rs)"
    using assms by (auto simp: route_ok_def origins_def list_all_iff)
  then show ?thesis
    by (cases "specShadow rs = []")
      (simp_all add: route_parts_def Let_def option_step also_options del: route_options.simps append_Cons)
qed

lemma parse_show_route: "route_ok rs \<Longrightarrow> ParseRouteSpec (show_route rs) = Inr rs"
proof -
  assume ok: "route_ok rs"
  have cl: "clean (specPattern rs)" "clean (specPrimary rs)" "CHR ''='' \<notin> set (specPattern rs)"
    using ok by (auto simp: route_ok_def origin_text_def origins_def)
  then have ne: "specPattern rs \<noteq> []" "specPrimary rs \<noteq> []" by (auto simp: clean_def)
  have h: "cut CHR ''='' (trim_space (specPattern rs @ ''='' @ specPrimary rs)) = Some (specPattern rs, specPrimary rs)"
    using cl trim_space_clean [OF disjI2 [OF clean_append [OF cl(1,2)]], of "''=''"] by (simp add: cut_cons)
  have g: "path_Match (specPattern rs) [] \<noteq> None" using ok by (simp add: route_ok_def parse_glob_Match)
  have b: "bare_origins ([specPrimary rs, specShadow rs] @ specAlso rs) = Inr ()"
    using ok contains_empty by (auto simp: bare_origins_ok route_ok_def origins_def list_all_iff split: if_splits)
  have d: "distinct (map trim_right_slash (origins rs))" using ok by (simp add: route_ok_def)
  have ns: "\<not> (specShadow rs \<noteq> [] \<and> trim_right_slash (specShadow rs) = trim_right_slash (specPrimary rs))"
    using d by (auto simp: origins_def split: if_splits)
  have f: "fresh_targets ({trim_right_slash (specPrimary rs)} \<union>
        (if specShadow rs \<noteq> [] then {trim_right_slash (specShadow rs)} else {})) (specAlso rs) = Inr ()"
    using d unfolding fresh_targets_ok by (auto simp: origins_def split: if_splits)
  show ?thesis
    unfolding ParseRouteSpec_def split_show_route [OF ok] Let_def list.sel h option.case prod.case
    using cl ne g b ns f by (simp only: trim_space_clean route_parts_options [OF ok] bind_res_simps if_False simp_thms)
qed

section \<open>Properties\<close>

text \<open>
  C27. The \<^verbatim>\<open>-engine-route\<close> values accepted are exactly the well-formed routes: a route
  specification is the parse of some text if and only if its glob is one \<^verbatim>\<open>path.Match\<close> takes, with no
  separator in it, and its primary, its shadow if any and its other targets are trimmed, bare
  origins (no \<^verbatim>\<open>/api/v1\<close>), pairwise different up to trailing slashes.
\<close>

theorem accepted_routes_are_well_formed:
  "(\<exists>s. ParseRouteSpec s = Inr rs) \<longleftrightarrow> route_ok rs"
  using ParseRouteSpec_ok parse_show_route by blast

text \<open>
  Printing a parsed route and parsing it again gives the same route, whatever white space,
  option order or repeated shadow the text first had.
\<close>

theorem route_print_parse:
  assumes "ParseRouteSpec s = Inr rs"
  shows "ParseRouteSpec (show_route rs) = Inr rs"
  by (rule parse_show_route [OF ParseRouteSpec_ok [OF assms]])

definition sample_route :: RouteSpec where
  "sample_route = \<lparr>specPattern = ''tm_*'', specPrimary = ''http://a'', specShadow = ''http://b'',
     specAlso = [''http://c/'']\<rparr>"

theorem route_print_parse_witness:
  "ParseRouteSpec '' tm_* = http://a,also=http://c/ ,shadow=http://b'' = Inr sample_route \<and>
   ParseRouteSpec (show_route sample_route) = Inr sample_route"
proof -
  have "ParseRouteSpec '' tm_* = http://a,also=http://c/ ,shadow=http://b'' = Inr sample_route" by code_simp
  with route_print_parse [OF this] show ?thesis by blast
qed

end
