(* ===== verification/Feed_Also.thy ===== *)
theory Feed_Also
  imports Feed_Targets
begin

text \<open>
  The extra local target of \<^verbatim>\<open>src/feed/also.go\<close>. The operations are functions on the target's record;
  the concurrent behaviour is a step relation on the same record extended with the offers and the workers in
  progress, where each step is one atomic action of the source (an addition to the byte counter, a
  channel operation, a locked counter update).
\<close>

section \<open>State and sequential operations\<close>

record alsoJob =
  aj_topic :: string
  aj_object :: bytes

record also_target =
  aSubmit :: "nat option"
  aWorkers :: int
  aQueueDepth :: int
  aQueueBytes :: int
  aRetries :: int
  aBackoff :: int
  aName :: string
  aTarget :: string
  aresults :: "string \<Rightarrow> u64"
  aq :: "alsoJob list"
  abytes :: int
  astarted :: bool

definition AlsoOK :: string where "AlsoOK = ''ok''"
definition AlsoRefused :: string where "AlsoRefused = ''refused''"
definition AlsoError :: string where "AlsoError = ''error''"
definition AlsoShed :: string where "AlsoShed = ''shed''"

definition AlsoResults :: "string list" where
  "AlsoResults = [AlsoOK, AlsoRefused, AlsoError, AlsoShed]"

definition also_add :: "string \<Rightarrow> 'z also_target_scheme \<Rightarrow> 'z also_target_scheme" where
  "also_add r a = a\<lparr>aresults := (aresults a)(r := aresults a r + 1)\<rparr>"

definition also_workers :: "'z also_target_scheme \<Rightarrow> nat" where
  "also_workers a = (if aWorkers a > 0 then nat (aWorkers a) else 2)"

definition also_queueBytes :: "'z also_target_scheme \<Rightarrow> int" where
  "also_queueBytes a = (if aQueueBytes a > 0 then aQueueBytes a else 256 * 2 ^ 20)"

definition also_retries :: "'z also_target_scheme \<Rightarrow> nat" where
  "also_retries a = (if aRetries a < 0 then 0 else if aRetries a = 0 then 3 else nat (aRetries a))"

definition also_backoff :: "'z also_target_scheme \<Rightarrow> int" where
  "also_backoff a = (if aBackoff a > 0 then aBackoff a else 500 * 10 ^ 6)"

text \<open>The capacity of the channel \<^verbatim>\<open>queue\<close> makes on first use.\<close>

definition also_cap :: "'z also_target_scheme \<Rightarrow> nat" where
  "also_cap a = (if aQueueDepth a \<le> 0 then 1024 else nat (aQueueDepth a))"

definition obj_len :: "alsoJob \<Rightarrow> int" where
  "obj_len j = int (length (aj_object j))"

definition also_Offer :: "string \<Rightarrow> bytes \<Rightarrow> 'z also_target_scheme \<Rightarrow> 'z also_target_scheme" where
  "also_Offer topic object a =
    (if aSubmit a = None then a
     else if \<not> astarted a then also_add AlsoShed a
     else let n = int (length object); a1 = a\<lparr>abytes := abytes a + n\<rparr> in
       if abytes a1 > also_queueBytes a then also_add AlsoShed (a1\<lparr>abytes := abytes a1 - n\<rparr>)
       else if length (aq a1) < also_cap a then a1\<lparr>aq := aq a1 @ [\<lparr>aj_topic = topic, aj_object = object\<rparr>]\<rparr>
       else also_add AlsoShed (a1\<lparr>abytes := abytes a1 - n\<rparr>))"

definition also_process :: "'z also_target_scheme \<Rightarrow> attempts \<Rightarrow> string" where
  "also_process a w = (case fst (submit_loop (also_retries a) w 0) of
      Submitted _ \<Rightarrow> AlsoOK | RefusedEnd _ \<Rightarrow> AlsoRefused | GaveUp _ \<Rightarrow> AlsoError | CutShort \<Rightarrow> AlsoError)"

lemma also_process_result: "also_process a w \<in> set AlsoResults"
  by (auto simp: also_process_def AlsoResults_def split: submit_end.splits)

section \<open>Concurrent offers and workers\<close>

text \<open>
  An offer has added its bytes and is about to put, is about to give the bytes back, or is about to count
  itself shed; a worker is submitting a job, or has counted the result and is about to give the bytes
  back. \<open>offers\<close> counts the offers made to a configured target.
\<close>

record also_sys = also_target +
  putting :: "alsoJob multiset"
  refusing :: "alsoJob multiset"
  shedding :: "alsoJob multiset"
  hands :: "alsoJob multiset"
  releasing :: "alsoJob multiset"
  offers :: u64

datatype also_event =
    AOffer alsoJob | APut alsoJob | AGiveBack alsoJob | AShed alsoJob
  | ATake | AResult alsoJob attempts | ARelease alsoJob | AStart | AStop

definition offer_begin :: "alsoJob \<Rightarrow> also_sys \<Rightarrow> also_sys" where
  "offer_begin j s =
    (let s = s\<lparr>offers := offers s + 1\<rparr> in
     if \<not> astarted s then s\<lparr>shedding := add_mset j (shedding s)\<rparr>
     else let s1 = s\<lparr>abytes := abytes s + obj_len j\<rparr> in
       if abytes s1 > also_queueBytes s1 then s1\<lparr>refusing := add_mset j (refusing s1)\<rparr>
       else s1\<lparr>putting := add_mset j (putting s1)\<rparr>)"

definition offer_put :: "alsoJob \<Rightarrow> also_sys \<Rightarrow> also_sys" where
  "offer_put j s =
    (let s1 = s\<lparr>putting := putting s - {#j#}\<rparr> in
     if length (aq s) < also_cap s then s1\<lparr>aq := aq s @ [j]\<rparr>
     else s1\<lparr>refusing := add_mset j (refusing s)\<rparr>)"

inductive also_step :: "also_sys \<Rightarrow> also_event \<Rightarrow> also_sys \<Rightarrow> bool" where
  offer: "aSubmit s \<noteq> None \<Longrightarrow> also_step s (AOffer j) (offer_begin j s)"
| put: "j \<in># putting s \<Longrightarrow> also_step s (APut j) (offer_put j s)"
| give_back: "j \<in># refusing s \<Longrightarrow>
    also_step s (AGiveBack j) (s\<lparr>refusing := refusing s - {#j#}, abytes := abytes s - obj_len j,
      shedding := add_mset j (shedding s)\<rparr>)"
| shed: "j \<in># shedding s \<Longrightarrow>
    also_step s (AShed j) (also_add AlsoShed (s\<lparr>shedding := shedding s - {#j#}\<rparr>))"
| takes: "astarted s \<Longrightarrow> aq s = j # rest \<Longrightarrow> size (hands s) + size (releasing s) < also_workers s \<Longrightarrow>
    also_step s ATake (s\<lparr>aq := rest, hands := add_mset j (hands s)\<rparr>)"
| result: "j \<in># hands s \<Longrightarrow>
    also_step s (AResult j w) (also_add (also_process s w)
      (s\<lparr>hands := hands s - {#j#}, releasing := add_mset j (releasing s)\<rparr>))"
| release: "j \<in># releasing s \<Longrightarrow>
    also_step s (ARelease j) (s\<lparr>releasing := releasing s - {#j#}, abytes := abytes s - obj_len j\<rparr>)"
| start: "also_step s AStart (s\<lparr>astarted := True\<rparr>)"
| stop: "hands s = {#} \<Longrightarrow> releasing s = {#} \<Longrightarrow> also_step s AStop (s\<lparr>astarted := False\<rparr>)"

definition also_start :: "also_sys \<Rightarrow> also_sys \<Rightarrow> bool" where
  "also_start c s \<longleftrightarrow> s = c\<lparr>aresults := (\<lambda>_. 0), aq := [], abytes := 0, astarted := False, putting := {#},
     refusing := {#}, shedding := {#}, hands := {#}, releasing := {#}, offers := 0\<rparr>"

section \<open>What holds in every interleaving\<close>

definition weight :: "alsoJob multiset \<Rightarrow> int" where
  "weight M = (\<Sum>j\<in>#M. obj_len j)"

lemma weight_simps [simp]:
  "weight {#} = 0" "weight (add_mset j M) = obj_len j + weight M" "weight (M + N) = weight M + weight N"
  by (simp_all add: weight_def)

lemma weight_remove [simp]: "j \<in># M \<Longrightarrow> weight (M - {#j#}) = weight M - obj_len j"
  by (metis insert_DiffM weight_simps(2) add_diff_cancel_left')

lemma obj_len_nonneg: "0 \<le> obj_len j"
  by (simp add: obj_len_def)

lemma weight_nonneg: "0 \<le> weight M"
  by (induction M) (simp_all add: obj_len_nonneg)

definition accepted :: "also_sys \<Rightarrow> alsoJob multiset" where
  "accepted s = mset (aq s) + putting s + hands s + releasing s"

definition tallied :: "also_sys \<Rightarrow> u64" where
  "tallied s = sum_list (map (aresults s) AlsoResults)"

definition also_ok :: "also_sys \<Rightarrow> bool" where
  "also_ok s \<longleftrightarrow>
     abytes s = weight (accepted s) + weight (refusing s) \<and>
     weight (accepted s) \<le> also_queueBytes s \<and>
     length (aq s) \<le> also_cap s \<and>
     size (hands s) + size (releasing s) \<le> also_workers s \<and>
     offers s = tallied s + of_nat (length (aq s) + size (putting s) + size (refusing s) +
       size (shedding s) + size (hands s))"

lemmas also_defs = accepted_def tallied_def also_queueBytes_def also_cap_def also_workers_def

lemma size_remove [simp]: "j \<in># M \<Longrightarrow> Suc (size (M - {#j#})) = size M"
  by (simp add: size_Suc_Diff1)

lemma tallied_add: "r \<in> set AlsoResults \<Longrightarrow> tallied (also_add r s) = tallied s + 1"
  by (auto simp: tallied_def also_add_def AlsoResults_def AlsoOK_def AlsoRefused_def AlsoError_def AlsoShed_def)

lemma also_add_fields [simp]:
  "aq (also_add r s) = aq s" "abytes (also_add r s) = abytes s" "putting (also_add r t) = putting t"
  "refusing (also_add r t) = refusing t" "shedding (also_add r t) = shedding t" "hands (also_add r t) = hands t"
  "releasing (also_add r t) = releasing t" "offers (also_add r t) = offers t"
  "also_queueBytes (also_add r s) = also_queueBytes s" "also_cap (also_add r s) = also_cap s"
  "also_workers (also_add r s) = also_workers s" "accepted (also_add r t) = accepted t"
  "aSubmit (also_add r s) = aSubmit s" "astarted (also_add r s) = astarted s"
  by (simp_all add: also_add_def also_defs)

definition also_config :: "also_sys \<Rightarrow> int \<times> nat \<times> nat" where
  "also_config s = (also_queueBytes s, also_cap s, also_workers s)"

text \<open>The invariant over the parts it reads, so that a step only has to account for what it moves.\<close>

definition also_books :: "int \<times> nat \<times> nat \<Rightarrow> int \<Rightarrow> alsoJob list \<Rightarrow> alsoJob multiset \<Rightarrow> alsoJob multiset \<Rightarrow>
    alsoJob multiset \<Rightarrow> alsoJob multiset \<Rightarrow> alsoJob multiset \<Rightarrow> u64 \<Rightarrow> u64 \<Rightarrow> bool" where
  "also_books c b q p r sh h rl off tal \<longleftrightarrow>
     b = weight (mset q + p + h + rl) + weight r \<and> weight (mset q + p + h + rl) \<le> fst c \<and>
     length q \<le> fst (snd c) \<and> size h + size rl \<le> snd (snd c) \<and>
     off = tal + of_nat (length q + size p + size r + size sh + size h)"

lemma also_ok_books:
  "also_ok s \<longleftrightarrow> also_books (also_config s) (abytes s) (aq s) (putting s) (refusing s) (shedding s) (hands s)
     (releasing s) (offers s) (tallied s)"
  by (simp add: also_ok_def also_books_def also_config_def accepted_def)

lemma also_config_upd [simp]:
  "also_config (s\<lparr>abytes := b\<rparr>) = also_config s" "also_config (s\<lparr>aq := q\<rparr>) = also_config s"
  "also_config (s\<lparr>putting := M\<rparr>) = also_config s" "also_config (s\<lparr>refusing := M\<rparr>) = also_config s"
  "also_config (s\<lparr>shedding := M\<rparr>) = also_config s" "also_config (s\<lparr>hands := M\<rparr>) = also_config s"
  "also_config (s\<lparr>releasing := M\<rparr>) = also_config s" "also_config (s\<lparr>offers := n\<rparr>) = also_config s"
  "also_config (s\<lparr>astarted := t\<rparr>) = also_config s" "also_config (also_add r s) = also_config s"
  by (simp_all add: also_config_def also_defs also_add_def)

lemma tallied_upd [simp]:
  "tallied (s\<lparr>abytes := b\<rparr>) = tallied s" "tallied (s\<lparr>aq := q\<rparr>) = tallied s"
  "tallied (s\<lparr>putting := M\<rparr>) = tallied s" "tallied (s\<lparr>refusing := M\<rparr>) = tallied s"
  "tallied (s\<lparr>shedding := M\<rparr>) = tallied s" "tallied (s\<lparr>hands := M\<rparr>) = tallied s"
  "tallied (s\<lparr>releasing := M\<rparr>) = tallied s" "tallied (s\<lparr>offers := n\<rparr>) = tallied s"
  "tallied (s\<lparr>astarted := t\<rparr>) = tallied s"
  by (simp_all add: tallied_def)

lemma also_config_sel:
  "also_queueBytes s = fst (also_config s)" "also_cap s = fst (snd (also_config s))"
  "also_workers s = snd (snd (also_config s))"
  by (simp_all add: also_config_def)

lemma also_ok_offer: "also_ok s \<Longrightarrow> also_ok (offer_begin j s)"
  using weight_nonneg [of "refusing s"]
  by (auto simp: also_ok_books offer_begin_def Let_def also_books_def also_config_def also_defs algebra_simps)

lemma also_ok_put: "also_ok s \<Longrightarrow> j \<in># putting s \<Longrightarrow> also_ok (offer_put j s)"
  using obj_len_nonneg [of j]
  by - (drule multi_member_split, auto simp: also_ok_books offer_put_def Let_def also_books_def also_config_sel algebra_simps)

lemma also_ok_step: "also_step s e t \<Longrightarrow> also_ok s \<Longrightarrow> also_ok t"
proof (induction rule: also_step.induct)
  case (offer s j)
  then show ?case by (simp add: also_ok_offer)
next
  case (put j s)
  then show ?case by (simp add: also_ok_put)
next
  case (give_back j s)
  then show ?case
    by - (drule multi_member_split, auto simp: also_ok_books also_books_def)
next
  case (shed j s)
  have "AlsoShed \<in> set AlsoResults" by (simp add: AlsoResults_def)
  with shed show ?case
    by - (drule multi_member_split, auto simp: also_ok_books also_books_def tallied_add algebra_simps)
next
  case (takes s j rest)
  then show ?case by (auto simp: also_ok_books also_books_def also_config_sel algebra_simps)
next
  case (result j s w)
  then show ?case
    using also_process_result [of s w]
    by - (drule multi_member_split, auto simp: also_ok_books also_books_def tallied_add algebra_simps)
next
  case (release j s)
  then show ?case
    by - (drule multi_member_split, auto simp: also_ok_books also_books_def obj_len_def)
qed (auto simp: also_ok_books)

interpretation also_queue: transition_system "also_start c" also_step also_ok for c
proof unfold_locales
  fix s assume "also_start c s"
  then show "also_ok s"
    by (auto simp: also_start_def also_ok_def accepted_def tallied_def AlsoResults_def also_queueBytes_def)
qed (rule also_ok_step)

text \<open>The configuration never changes, so the bound is the one the target was made with.\<close>

lemma also_step_config: "also_step s e t \<Longrightarrow> also_config t = also_config s"
  by (induction rule: also_step.induct) (auto simp: offer_begin_def offer_put_def Let_def)

interpretation also_conf: transition_system "also_start c" also_step "\<lambda>s. also_config s = also_config c" for c
proof unfold_locales
  fix s assume "also_start c s"
  then show "also_config s = also_config c"
    by (auto simp: also_start_def also_config_def also_defs)
qed (simp add: also_step_config)

section \<open>The sequential offer is one of the interleavings\<close>

inductive_simps also_step_iff:
  "also_step s (AOffer j) t" "also_step s (APut j) t" "also_step s (AGiveBack j) t" "also_step s (AShed j) t"
  "also_step s ATake t" "also_step s (AResult j w) t" "also_step s (ARelease j) t" "also_step s AStart t"
  "also_step s AStop t"

lemmas also_run_simps = run_Cons_iff also_step_iff offer_begin_def offer_put_def Let_def also_config_sel

lemma also_Offer_run:
  assumes "aSubmit s \<noteq> None" and j: "j = \<lparr>aj_topic = topic, aj_object = object\<rparr>"
  shows "\<exists>es. run also_step s (AOffer j # es) ((also_Offer topic object s)\<lparr>offers := offers s + 1\<rparr>)"
proof -
  have n: "obj_len j = int (length object)" by (simp add: obj_len_def j)
  consider "\<not> astarted s" | "astarted s" "abytes s + obj_len j > also_queueBytes s"
    | "astarted s" "abytes s + obj_len j \<le> also_queueBytes s" "length (aq s) < also_cap s"
    | "astarted s" "abytes s + obj_len j \<le> also_queueBytes s" "\<not> length (aq s) < also_cap s" by linarith
  then show ?thesis
  proof cases
    case 1
    then have "run also_step s [AOffer j, AShed j] ((also_Offer topic object s)\<lparr>offers := offers s + 1\<rparr>)"
      using assms(1) by (auto simp: also_run_simps also_Offer_def also_add_def)
    then show ?thesis by blast
  next
    case 2
    then have "run also_step s [AOffer j, AGiveBack j, AShed j] ((also_Offer topic object s)\<lparr>offers := offers s + 1\<rparr>)"
      using assms(1) n by (auto simp: also_run_simps also_Offer_def also_add_def)
    then show ?thesis by blast
  next
    case 3
    then have "run also_step s [AOffer j, APut j] ((also_Offer topic object s)\<lparr>offers := offers s + 1\<rparr>)"
      using assms n by (auto simp: also_run_simps also_Offer_def)
    then show ?thesis by blast
  next
    case 4
    then have "run also_step s [AOffer j, APut j, AGiveBack j, AShed j]
        ((also_Offer topic object s)\<lparr>offers := offers s + 1\<rparr>)"
      using assms(1) n by (auto simp: also_run_simps also_Offer_def also_add_def)
    then show ?thesis by blast
  qed
qed

section \<open>Properties\<close>

text \<open>
  C24. However the offers to an \<^verbatim>\<open>Also\<close> and its workers interleave, the bytes of the objects waiting, being
  put or in a worker's hands never exceed the target's byte bound and the queue never its depth; the byte counter
  is exactly those bytes plus what refused offers are about to give back; and every offer made is counted
  under exactly one result or is still on its way to one.
\<close>

theorem also_target_bounded_and_accounted:
  assumes "also_start c s0" and "run also_step s0 es s"
  shows "weight (mset (aq s) + putting s + hands s + releasing s) \<le> also_queueBytes c \<and>
    length (aq s) \<le> also_cap c \<and> size (hands s) + size (releasing s) \<le> also_workers c \<and>
    abytes s = weight (mset (aq s) + putting s + hands s + releasing s) + weight (refusing s) \<and>
    offers s = aresults s AlsoOK + aresults s AlsoRefused + aresults s AlsoError + aresults s AlsoShed +
      of_nat (length (aq s) + size (putting s) + size (refusing s) + size (shedding s) + size (hands s))"
proof -
  have ok: "also_ok s" by (rule also_queue.invar_reach [OF assms])
  have "also_config s = also_config c" by (rule also_conf.invar_reach [OF assms])
  then have cfg: "also_queueBytes c = also_queueBytes s" "also_cap c = also_cap s" "also_workers c = also_workers s"
    by (simp_all add: also_config_sel)
  show ?thesis
    using ok unfolding also_ok_def accepted_def cfg tallied_def AlsoResults_def by (simp add: add.assoc)
qed

definition sample_also :: also_sys where
  "sample_also = \<lparr>aSubmit = Some 0, aWorkers = 1, aQueueDepth = 1, aQueueBytes = 4, aRetries = 0, aBackoff = 0, aName = ''tm_*'', aTarget = ''http://a'',
     aresults = (\<lambda>_. 0), aq = [], abytes = 0, astarted = False, putting = {#}, refusing = {#}, shedding = {#},
     hands = {#}, releasing = {#}, offers = 0\<rparr>"

definition sample_job :: alsoJob where
  "sample_job = \<lparr>aj_topic = ''t'', aj_object = [1, 2, 3]\<rparr>"

theorem also_target_bounded_and_accounted_witness:
  "\<exists>s. run also_step sample_also [AStart, AOffer sample_job, AOffer sample_job, APut sample_job] s \<and>
     weight (mset (aq s) + putting s + hands s + releasing s) \<le> also_queueBytes sample_also \<and>
     length (aq s) = 1 \<and> size (refusing s) = 1 \<and> abytes s = 6"
proof -
  let ?es = "[AStart, AOffer sample_job, AOffer sample_job, APut sample_job]"
  let ?s = "sample_also\<lparr>astarted := True, aq := [sample_job], abytes := 6, refusing := {#sample_job#}, offers := 2\<rparr>"
  have r: "run also_step sample_also ?es ?s"
    by (simp add: run_Cons_iff also_step_iff offer_begin_def offer_put_def also_queueBytes_def also_cap_def
        sample_also_def sample_job_def obj_len_def)
  have st: "also_start sample_also sample_also" by (simp add: also_start_def sample_also_def)
  from also_target_bounded_and_accounted [OF st r] show ?thesis
    using r by (intro exI [of _ ?s] conjI) simp_all
qed

end
