(* ===== verification/Feed_Shadow.thy ===== *)
theory Feed_Shadow
  imports Feed_Targets
begin

text \<open>
  The shadow engine of \<^verbatim>\<open>src/feed/shadow.go\<close>: the canonical rendering of an answer, the comparison of
  two answers, and the bounded queue whose workers submit to the shadow and book each comparison.
\<close>

section \<open>Comparing two answers\<close>

definition ShadowMatch :: string where "ShadowMatch = ''match''"
definition ShadowPrimaryOnly :: string where "ShadowPrimaryOnly = ''primary_only''"
definition ShadowShadowOnly :: string where "ShadowShadowOnly = ''shadow_only''"
definition ShadowDiffer :: string where "ShadowDiffer = ''differ''"
definition ShadowError :: string where "ShadowError = ''shadow_error''"
definition ShadowDropped :: string where "ShadowDropped = ''shadow_dropped''"

definition ShadowKinds :: "string list" where
  "ShadowKinds = [ShadowMatch, ShadowPrimaryOnly, ShadowShadowOnly, ShadowDiffer, ShadowError, ShadowDropped]"

lemmas shadow_kind_defs = ShadowMatch_def ShadowPrimaryOnly_def ShadowShadowOnly_def ShadowDiffer_def
  ShadowError_def ShadowDropped_def

fun comma_join :: "u32 list \<Rightarrow> string" where
  "comma_join [] = []"
| "comma_join (x # xs) = dec (unat x) @ concat (map (\<lambda>y. CHR '','' # dec (unat y)) xs)"

definition canon :: "u32 list option \<Rightarrow> string" where
  "canon v = comma_join (sort (slice v))"

definition sets :: "adm option \<Rightarrow> string \<times> string" where
  "sets ai = (case ai of None \<Rightarrow> ([], []) | Some a \<Rightarrow> (canon (OutputsToAdmit a), canon (CoinsToRetain a)))"

definition Classify :: "adm option \<Rightarrow> adm option \<Rightarrow> string" where
  "Classify primary shadow =
    (let (po, pc) = sets primary; (so, sc) = sets shadow;
         pEmpty = (po = [] \<and> pc = []); sEmpty = (so = [] \<and> sc = []) in
     if po = so \<and> pc = sc then ShadowMatch
     else if pEmpty \<and> \<not> sEmpty then ShadowShadowOnly
     else if \<not> pEmpty \<and> sEmpty then ShadowPrimaryOnly
     else ShadowDiffer)"

section \<open>The rendering is faithful\<close>

lemma dec_no_comma: "CHR '','' \<notin> set (dec n)"
  using dec_digits [of "CHR '',''" n] by (auto simp: is_digit_def)

lemma comma_join_Nil: "comma_join xs = [] \<longleftrightarrow> xs = []"
  by (cases xs) (simp_all add: dec_nonempty)

lemma split_comma_join: "xs \<noteq> [] \<Longrightarrow> split_on CHR '','' (comma_join xs) = map (\<lambda>x. dec (unat x)) xs"
proof (cases xs)
  case (Cons y ys)
  have "concat (map (\<lambda>y. CHR '','' # dec (unat y)) ys) = concat (map (\<lambda>x. CHR '','' # x) (map (\<lambda>x. dec (unat x)) ys))"
    by (simp add: comp_def)
  then show ?thesis using split_on_join [of "CHR '',''" "dec (unat y)" "map (\<lambda>x. dec (unat x)) ys"] dec_no_comma
    by (simp add: Cons list_all_iff)
qed simp

lemma comma_join_inj: "comma_join xs = comma_join ys \<longleftrightarrow> xs = ys"
proof
  assume e: "comma_join xs = comma_join ys"
  have inj: "inj (\<lambda>x :: u32. dec (unat x))"
    by (rule injI) (simp add: dec_inj word_unat_eq_iff)
  show "xs = ys"
  proof (cases "xs = [] \<or> ys = []")
    case True
    then show ?thesis using e comma_join_Nil by metis
  next
    case False
    then have "map (\<lambda>x. dec (unat x)) xs = map (\<lambda>x. dec (unat x)) ys" using e split_comma_join by metis
    then show ?thesis using inj by (simp add: inj_map_eq_map)
  qed
qed simp

lemma sort_eq_iff: "sort xs = sort ys \<longleftrightarrow> mset xs = mset ys" for xs ys :: "'a::linorder list"
proof
  assume "sort xs = sort ys"
  then have "mset (sort xs) = mset (sort ys)" by simp
  then show "mset xs = mset ys" by simp
next
  assume "mset xs = mset ys"
  then show "sort xs = sort ys" by (intro properties_for_sort) simp_all
qed

lemma canon_decimals: "canon v = canon w \<longleftrightarrow> mset (slice v) = mset (slice w)"
  by (simp add: canon_def comma_join_inj sort_eq_iff)

lemma canon_empty: "canon v = [] \<longleftrightarrow> slice v = []"
  using canon_decimals [of v None] by (simp add: canon_def)

section \<open>State and sequential operations\<close>

record shadowJob =
  sj_topic :: string
  sj_object :: bytes
  sj_marker :: string
  sj_primary :: "adm option"

text \<open>\<open>sMarked\<close> says whether the shadow's client takes a marker.\<close>

record shadow_target =
  sSubmit :: "nat option"
  sMarked :: bool
  sWorkers :: int
  sQueueDepth :: int
  sName :: string
  kinds :: "string \<Rightarrow> u64"
  submitted :: u64
  sq :: "shadowJob list"
  sstarted :: bool

definition shadow_add :: "string \<Rightarrow> 'z shadow_target_scheme \<Rightarrow> 'z shadow_target_scheme" where
  "shadow_add k s = s\<lparr>kinds := (kinds s)(k := kinds s k + 1)\<rparr>"

definition shadow_workers :: "'z shadow_target_scheme \<Rightarrow> nat" where
  "shadow_workers s = (if sWorkers s > 0 then nat (sWorkers s) else 2)"

definition shadow_cap :: "'z shadow_target_scheme \<Rightarrow> nat" where
  "shadow_cap s = (if sQueueDepth s \<le> 0 then 1024 else nat (sQueueDepth s))"

definition shadow_Offer ::
  "string \<Rightarrow> bytes \<Rightarrow> string \<Rightarrow> adm option \<Rightarrow> 'z shadow_target_scheme \<Rightarrow> 'z shadow_target_scheme" where
  "shadow_Offer topic object marker primary s =
    (if sSubmit s = None then s
     else if \<not> sstarted s then shadow_add ShadowDropped s
     else if length (sq s) < shadow_cap s then
       s\<lparr>sq := sq s @ [\<lparr>sj_topic = topic, sj_object = object, sj_marker = marker, sj_primary = primary\<rparr>]\<rparr>
     else shadow_add ShadowDropped s)"

text \<open>Whether a job's submit carries its marker to the shadow's client.\<close>

definition shadow_marker :: "'z shadow_target_scheme \<Rightarrow> shadowJob \<Rightarrow> string" where
  "shadow_marker s j = (if sMarked s \<and> sj_marker j \<noteq> [] then sj_marker j else [])"

text \<open>One job, given what the shadow answered: the client's answer to the topic, object and marker sent.\<close>

definition shadow_process ::
  "(string \<Rightarrow> bytes \<Rightarrow> string \<Rightarrow> submit_err + steak) \<Rightarrow> shadowJob \<Rightarrow> 'z shadow_target_scheme \<Rightarrow> 'z shadow_target_scheme" where
  "shadow_process send j s = (case send (sj_topic j) (sj_object j) (shadow_marker s j) of
      Inl e \<Rightarrow> shadow_add ShadowError s
    | Inr steak \<Rightarrow>
        (let s1 = s\<lparr>submitted := submitted s + 1\<rparr> in
         case steak (sj_topic j) of
           None \<Rightarrow> shadow_add ShadowError s1
         | Some None \<Rightarrow> shadow_add ShadowError s1
         | Some (Some ai) \<Rightarrow> shadow_add (Classify (sj_primary j) (Some ai)) s1))"

section \<open>Concurrent offers and workers\<close>

record shadow_sys = shadow_target +
  dropping :: nat
  comparing :: "shadowJob multiset"
  shadow_offers :: u64

datatype shadow_event =
    SOffer shadowJob | SDrop | STake | SProcess shadowJob "string \<Rightarrow> bytes \<Rightarrow> string \<Rightarrow> submit_err + steak"
  | SStart | SStop

definition shadow_put :: "shadowJob \<Rightarrow> shadow_sys \<Rightarrow> shadow_sys" where
  "shadow_put j s = (let s1 = s\<lparr>shadow_offers := shadow_offers s + 1\<rparr> in
     if sstarted s \<and> length (sq s) < shadow_cap s then s1\<lparr>sq := sq s @ [j]\<rparr>
     else s1\<lparr>dropping := dropping s + 1\<rparr>)"

inductive shadow_step :: "shadow_sys \<Rightarrow> shadow_event \<Rightarrow> shadow_sys \<Rightarrow> bool" where
  soffer: "sSubmit s \<noteq> None \<Longrightarrow> shadow_step s (SOffer j) (shadow_put j s)"
| sdrop: "dropping s > 0 \<Longrightarrow> shadow_step s SDrop (shadow_add ShadowDropped (s\<lparr>dropping := dropping s - 1\<rparr>))"
| stake: "sstarted s \<Longrightarrow> sq s = j # rest \<Longrightarrow> size (comparing s) < shadow_workers s \<Longrightarrow>
    shadow_step s STake (s\<lparr>sq := rest, comparing := add_mset j (comparing s)\<rparr>)"
| sprocess: "j \<in># comparing s \<Longrightarrow>
    shadow_step s (SProcess j send) (shadow_process send j (s\<lparr>comparing := comparing s - {#j#}\<rparr>))"
| sstart: "shadow_step s SStart (s\<lparr>sstarted := True\<rparr>)"
| sstop: "comparing s = {#} \<Longrightarrow> shadow_step s SStop (s\<lparr>sstarted := False\<rparr>)"

inductive_simps shadow_step_iff:
  "shadow_step s (SOffer j) t" "shadow_step s SDrop t" "shadow_step s STake t" "shadow_step s (SProcess j send) t"
  "shadow_step s SStart t" "shadow_step s SStop t"

definition shadow_start :: "shadow_sys \<Rightarrow> shadow_sys \<Rightarrow> bool" where
  "shadow_start c s \<longleftrightarrow> s = c\<lparr>kinds := (\<lambda>_. 0), submitted := 0, sq := [], sstarted := False, dropping := 0,
     comparing := {#}, shadow_offers := 0\<rparr>"

definition compared :: "shadow_sys \<Rightarrow> u64" where
  "compared s = sum_list (map (kinds s) ShadowKinds)"

definition shadow_ok :: "shadow_sys \<Rightarrow> shadow_sys \<Rightarrow> bool" where
  "shadow_ok c s \<longleftrightarrow> shadow_cap s = shadow_cap c \<and> shadow_workers s = shadow_workers c \<and>
     length (sq s) \<le> shadow_cap c \<and> size (comparing s) \<le> shadow_workers c \<and>
     shadow_offers s = compared s + of_nat (length (sq s) + dropping s + size (comparing s))"

lemma Classify_kind: "Classify p s \<in> set ShadowKinds"
  by (simp add: Classify_def ShadowKinds_def Let_def split: prod.splits)

lemma compared_add: "k \<in> set ShadowKinds \<Longrightarrow> compared (shadow_add k s) = compared s + 1"
  by (auto simp: compared_def shadow_add_def ShadowKinds_def shadow_kind_defs)

lemma compared_upd [simp]:
  "compared (s\<lparr>sq := q\<rparr>) = compared s" "compared (s\<lparr>submitted := n\<rparr>) = compared s"
  "compared (s\<lparr>dropping := d\<rparr>) = compared s" "compared (s\<lparr>comparing := M\<rparr>) = compared s"
  "compared (s\<lparr>shadow_offers := n\<rparr>) = compared s" "compared (s\<lparr>sstarted := b\<rparr>) = compared s"
  by (simp_all add: compared_def)

lemma shadow_add_fields [simp]:
  "sq (shadow_add k s) = sq s" "shadow_cap (shadow_add k s) = shadow_cap s"
  "shadow_workers (shadow_add k s) = shadow_workers s" "dropping (shadow_add k t) = dropping t"
  "comparing (shadow_add k t) = comparing t" "shadow_offers (shadow_add k t) = shadow_offers t"
  by (simp_all add: shadow_add_def shadow_cap_def shadow_workers_def)

lemma shadow_conf_upd [simp]:
  "shadow_cap (s\<lparr>sq := q\<rparr>) = shadow_cap s" "shadow_cap (s\<lparr>submitted := n\<rparr>) = shadow_cap s"
  "shadow_cap (t\<lparr>dropping := d\<rparr>) = shadow_cap t" "shadow_cap (t\<lparr>comparing := M\<rparr>) = shadow_cap t"
  "shadow_cap (t\<lparr>shadow_offers := n\<rparr>) = shadow_cap t" "shadow_cap (s\<lparr>sstarted := b\<rparr>) = shadow_cap s"
  "shadow_workers (s\<lparr>sq := q\<rparr>) = shadow_workers s" "shadow_workers (s\<lparr>submitted := n\<rparr>) = shadow_workers s"
  "shadow_workers (t\<lparr>dropping := d\<rparr>) = shadow_workers t" "shadow_workers (t\<lparr>comparing := M\<rparr>) = shadow_workers t"
  "shadow_workers (t\<lparr>shadow_offers := n\<rparr>) = shadow_workers t" "shadow_workers (s\<lparr>sstarted := b\<rparr>) = shadow_workers s"
  by (simp_all add: shadow_cap_def shadow_workers_def)

text \<open>Whatever the shadow answers, a processed job adds exactly one kind and nothing else but the submit count.\<close>

lemma shadow_process_one_kind:
  "\<exists>k n. k \<in> set ShadowKinds \<and> shadow_process send j s = shadow_add k (s\<lparr>submitted := n\<rparr>)"
proof -
  have e: "ShadowError \<in> set ShadowKinds" by (simp add: ShadowKinds_def)
  consider e where "send (sj_topic j) (sj_object j) (shadow_marker s j) = Inl e"
    | st where "send (sj_topic j) (sj_object j) (shadow_marker s j) = Inr st" "st (sj_topic j) \<in> {None, Some None}"
    | st ai where "send (sj_topic j) (sj_object j) (shadow_marker s j) = Inr st" "st (sj_topic j) = Some (Some ai)"
    by (metis insertCI not_None_eq sum.exhaust)
  then show ?thesis
  proof cases
    case 1
    then show ?thesis using e by (intro exI [of _ ShadowError] exI [of _ "submitted s"]) (simp add: shadow_process_def)
  next
    case 2
    then show ?thesis using e
      by (intro exI [of _ ShadowError] exI [of _ "submitted s + 1"]) (auto simp: shadow_process_def)
  next
    case 3
    then show ?thesis using Classify_kind
      by (intro exI [of _ "Classify (sj_primary j) (Some ai)"] exI [of _ "submitted s + 1"])
        (simp add: shadow_process_def)
  qed
qed

lemma shadow_ok_step: "shadow_step s e t \<Longrightarrow> shadow_ok c s \<Longrightarrow> shadow_ok c t"
proof (induction rule: shadow_step.induct)
  case (soffer s j)
  then show ?case by (auto simp: shadow_ok_def shadow_put_def Let_def)
next
  case (sdrop s)
  have "ShadowDropped \<in> set ShadowKinds" by (simp add: ShadowKinds_def)
  moreover obtain d where "dropping s = Suc d" using sdrop(1) by (cases "dropping s") auto
  ultimately show ?case using sdrop(2) by (simp add: shadow_ok_def compared_add)
next
  case (stake s j rest)
  then show ?case by (simp add: shadow_ok_def)
next
  case (sprocess j s send)
  obtain M where M: "comparing s = add_mset j M" using multi_member_split [OF sprocess(1)] by blast
  obtain k n where "k \<in> set ShadowKinds"
    "shadow_process send j (s\<lparr>comparing := M\<rparr>) = shadow_add k (s\<lparr>comparing := M, submitted := n\<rparr>)"
    using shadow_process_one_kind by blast
  then show ?case using sprocess(2) M by (simp add: shadow_ok_def compared_add)
qed (simp_all add: shadow_ok_def)

interpretation shadow_queue: transition_system "shadow_start c" shadow_step "shadow_ok c" for c
proof unfold_locales
  fix s assume "shadow_start c s"
  then show "shadow_ok c s"
    by (auto simp: shadow_start_def shadow_ok_def compared_def ShadowKinds_def shadow_cap_def shadow_workers_def)
qed (rule shadow_ok_step)

lemma shadow_Offer_run:
  assumes "sSubmit s \<noteq> None" and "dropping s = 0"
  shows "\<exists>es. run shadow_step s
      (SOffer \<lparr>sj_topic = topic, sj_object = object, sj_marker = marker, sj_primary = primary\<rparr> # es)
      ((shadow_Offer topic object marker primary s)\<lparr>shadow_offers := shadow_offers s + 1\<rparr>)"
proof (cases "sstarted s \<and> length (sq s) < shadow_cap s")
  case True
  then show ?thesis using assms
    by (intro exI [of _ "[]"]) (auto simp: run_Cons_iff shadow_step_iff shadow_put_def shadow_Offer_def)
next
  case False
  let ?j = "\<lparr>sj_topic = topic, sj_object = object, sj_marker = marker, sj_primary = primary\<rparr>"
  let ?m = "s\<lparr>shadow_offers := shadow_offers s + 1, dropping := 1\<rparr>"
  have "shadow_put ?j s = ?m" using False assms(2) by (simp only: shadow_put_def Let_def if_False) simp
  then have put: "shadow_step s (SOffer ?j) ?m" using shadow_step.soffer [OF assms(1), of ?j] by simp
  have drop: "shadow_step ?m SDrop (shadow_add ShadowDropped (?m\<lparr>dropping := dropping ?m - 1\<rparr>))"
    by (rule shadow_step.sdrop) simp
  have offer: "shadow_Offer topic object marker primary s = shadow_add ShadowDropped s"
    using False assms(1) by (auto simp: shadow_Offer_def)
  have "shadow_add ShadowDropped (?m\<lparr>dropping := dropping ?m - 1\<rparr>) =
      (shadow_Offer topic object marker primary s)\<lparr>shadow_offers := shadow_offers s + 1\<rparr>"
    unfolding offer using assms(2) by (cases s) (simp add: shadow_add_def)
  with put drop show ?thesis by (metis run_Cons run_Nil)
qed

section \<open>Properties\<close>

definition adm_outputs :: "adm option \<Rightarrow> u32 multiset" where
  "adm_outputs a = (case a of None \<Rightarrow> {#} | Some x \<Rightarrow> mset (slice (OutputsToAdmit x)))"

definition adm_coins :: "adm option \<Rightarrow> u32 multiset" where
  "adm_coins a = (case a of None \<Rightarrow> {#} | Some x \<Rightarrow> mset (slice (CoinsToRetain x)))"

definition answered :: "adm option \<Rightarrow> bool" where
  "answered a \<longleftrightarrow> adm_outputs a \<noteq> {#} \<or> adm_coins a \<noteq> {#}"

lemma sets_eq: "sets p = sets s \<longleftrightarrow> adm_outputs p = adm_outputs s \<and> adm_coins p = adm_coins s"
proof -
  define out where "out a = (case a of None \<Rightarrow> None | Some x \<Rightarrow> OutputsToAdmit x)" for a :: "adm option"
  define coin where "coin a = (case a of None \<Rightarrow> None | Some x \<Rightarrow> CoinsToRetain x)" for a :: "adm option"
  have "sets a = (canon (out a), canon (coin a))" for a
    by (cases a) (simp_all add: sets_def out_def coin_def canon_def)
  moreover have "adm_outputs a = mset (slice (out a))" "adm_coins a = mset (slice (coin a))" for a
    by (cases a; simp add: adm_outputs_def adm_coins_def out_def coin_def)+
  ultimately show ?thesis by (simp only: prod.inject canon_decimals)
qed

lemma sets_empty: "fst (sets a) = [] \<and> snd (sets a) = [] \<longleftrightarrow> \<not> answered a"
  using sets_eq [of a None] by (simp add: sets_def adm_outputs_def adm_coins_def answered_def prod_eq_iff)

text \<open>
  C25. The comparison of two answers is exact: it reads match precisely when both admit the same outputs and retain
  the same coins, whatever the order they list them in; when they do not, it says which side alone answered
  something, or that both did.
\<close>

theorem classify_exact:
  "Classify p s =
    (if adm_outputs p = adm_outputs s \<and> adm_coins p = adm_coins s then ShadowMatch
     else if \<not> answered p then ShadowShadowOnly
     else if \<not> answered s then ShadowPrimaryOnly
     else ShadowDiffer)"
proof -
  obtain po pc so sc where e: "sets p = (po, pc)" "sets s = (so, sc)" by (metis surj_pair)
  have m: "po = so \<and> pc = sc \<longleftrightarrow> adm_outputs p = adm_outputs s \<and> adm_coins p = adm_coins s"
    using sets_eq [of p s] e by simp
  have a: "po = [] \<and> pc = [] \<longleftrightarrow> \<not> answered p" "so = [] \<and> sc = [] \<longleftrightarrow> \<not> answered s"
    using sets_empty [of p] sets_empty [of s] e by simp_all
  show ?thesis unfolding Classify_def e Let_def prod.case m a by (auto simp: answered_def)
qed

text \<open>
  However offers and workers interleave, the shadow's queue stays within its depth and its workers within
  their number, and every offer made to a shadow is booked under exactly one comparison kind or is still
  queued, being compared, or about to be counted as dropped.
\<close>

theorem shadow_offers_booked_once:
  assumes "shadow_start c s0" and "run shadow_step s0 es s"
  shows "length (sq s) \<le> shadow_cap c \<and> size (comparing s) \<le> shadow_workers c \<and>
    shadow_offers s = kinds s ShadowMatch + kinds s ShadowPrimaryOnly + kinds s ShadowShadowOnly +
      kinds s ShadowDiffer + kinds s ShadowError + kinds s ShadowDropped +
      of_nat (length (sq s) + dropping s + size (comparing s))"
  using shadow_queue.invar_reach [OF assms]
  unfolding shadow_ok_def compared_def ShadowKinds_def by (simp add: add.assoc)

definition sample_shadow :: shadow_sys where
  "sample_shadow = \<lparr>sSubmit = Some 0, sMarked = True, sWorkers = 1, sQueueDepth = 1, sName = ''default'', kinds = (\<lambda>_. 0), submitted = 0,
     sq = [], sstarted = False, dropping = 0, comparing = {#}, shadow_offers = 0\<rparr>"

definition sample_shadow_job :: shadowJob where
  "sample_shadow_job = \<lparr>sj_topic = ''t'', sj_object = [1], sj_marker = [], sj_primary = None\<rparr>"

theorem shadow_offers_booked_once_witness:
  "\<exists>s. run shadow_step sample_shadow [SStart, SOffer sample_shadow_job, SOffer sample_shadow_job, SDrop] s \<and>
     shadow_offers s = 2 \<and> kinds s ShadowDropped = 1 \<and> length (sq s) = 1 \<and>
     kinds s ShadowMatch + kinds s ShadowPrimaryOnly + kinds s ShadowShadowOnly +
      kinds s ShadowDiffer + kinds s ShadowError = 0"
proof -
  let ?s = "sample_shadow\<lparr>sstarted := True, sq := [sample_shadow_job], shadow_offers := 2,
    kinds := (\<lambda>_. 0)(ShadowDropped := 1)\<rparr>"
  have r: "run shadow_step sample_shadow [SStart, SOffer sample_shadow_job, SOffer sample_shadow_job, SDrop] ?s"
    by (simp add: run_Cons_iff shadow_step_iff shadow_put_def shadow_cap_def shadow_add_def sample_shadow_def)
  have st: "shadow_start sample_shadow sample_shadow" by (simp add: shadow_start_def sample_shadow_def)
  from shadow_offers_booked_once [OF st r] r show ?thesis
    by (intro exI [of _ ?s]) (simp_all add: sample_shadow_def shadow_kind_defs)
qed

end
