(* ===== verification/Feed_Dispatch.thy ===== *)
theory Feed_Dispatch
  imports Feed_Route Feed_Also Feed_Shadow
begin

text \<open>
  What the feed and the facade share: the routes (\<^verbatim>\<open>src/feed/route.go\<close>), the secondary targets behind them
  as one store of objects reached through references, and the loop guard (\<^verbatim>\<open>src/guard\<close>) over the
  registry of another repository, which is a parameter.
\<close>

section \<open>Routes\<close>

text \<open>A pointer is an optional reference into the store of targets; an engine client is known by its number.\<close>

record route =
  Pattern :: string
  rSubmit :: "nat option"
  rShadow :: "nat option"
  rAlso :: "nat option list"

definition Matches :: "route \<Rightarrow> string \<Rightarrow> bool" where
  "Matches r topic \<longleftrightarrow> path_Match (Pattern r) topic = Some True"

fun RouteFor :: "route option list \<Rightarrow> string \<Rightarrow> route option" where
  "RouteFor [] topic = None"
| "RouteFor (r # rs) topic = (case r of
     Some x \<Rightarrow> if Matches x topic then Some x else RouteFor rs topic
   | None \<Rightarrow> RouteFor rs topic)"

definition DefaultRoute :: string where "DefaultRoute = ''default''"

text \<open>The primary and the shadow of a topic: its route's, or the defaults of the caller.\<close>

definition route_engines :: "route option list \<Rightarrow> nat option \<Rightarrow> nat option \<Rightarrow> string \<Rightarrow> nat option \<times> nat option" where
  "route_engines rs submit shadow topic = (case RouteFor rs topic of
      Some r \<Rightarrow> if rSubmit r \<noteq> None then (rSubmit r, rShadow r) else (submit, shadow)
    | None \<Rightarrow> (submit, shadow))"

definition routeName :: "route option list \<Rightarrow> string \<Rightarrow> string" where
  "routeName rs topic = (case RouteFor rs topic of
      Some r \<Rightarrow> if rSubmit r \<noteq> None then Pattern r else DefaultRoute
    | None \<Rightarrow> DefaultRoute)"

section \<open>The store of targets\<close>

text \<open>One request to an engine: the client, the topic, the object and the marker it carried.\<close>

record engine_call =
  call_engine :: nat
  call_topic :: string
  call_object :: bytes
  call_marker :: string

record 'g site =
  registry :: 'g
  alsos :: "nat \<Rightarrow> also_target"
  shadows :: "nat \<Rightarrow> shadow_target"
  calls :: "engine_call list"

definition offer_also :: "string \<Rightarrow> bytes \<Rightarrow> nat option \<Rightarrow> (nat \<Rightarrow> also_target) \<Rightarrow> (nat \<Rightarrow> also_target)" where
  "offer_also topic object a as = (case a of None \<Rightarrow> as | Some i \<Rightarrow> as(i := also_Offer topic object (as i)))"

definition OfferAlso :: "route option \<Rightarrow> string \<Rightarrow> bytes \<Rightarrow> (nat \<Rightarrow> also_target) \<Rightarrow> (nat \<Rightarrow> also_target)" where
  "OfferAlso r topic object as = (case r of
      None \<Rightarrow> as
    | Some x \<Rightarrow> fold (offer_also topic object) (rAlso x) as)"

definition offer_shadow ::
  "nat option \<Rightarrow> string \<Rightarrow> bytes \<Rightarrow> string \<Rightarrow> adm option \<Rightarrow> (nat \<Rightarrow> shadow_target) \<Rightarrow> (nat \<Rightarrow> shadow_target)" where
  "offer_shadow sh topic object marker primary ss = (case sh of
      None \<Rightarrow> ss
    | Some i \<Rightarrow> ss(i := shadow_Offer topic object marker primary (ss i)))"

section \<open>The loop guard\<close>

datatype direction = Delivered | Submitted_dir

text \<open>
  The registry's operations: record a key in a direction, returning what was known, and read. \<open>digest\<close> is
  SHA-256.
\<close>

record 'g registry_ops =
  reg_mark :: "bytes \<Rightarrow> direction \<Rightarrow> 'g \<Rightarrow> direction option \<times> 'g"
  reg_lookup :: "bytes \<Rightarrow> 'g \<Rightarrow> direction option"
  digest :: "bytes \<Rightarrow> bytes"

definition Key :: "'g registry_ops \<Rightarrow> hash \<Rightarrow> hash \<Rightarrow> bytes" where
  "Key ops contentID topicID = digest ops (contentID @ topicID)"

definition Mark :: "'g registry_ops \<Rightarrow> hash \<Rightarrow> hash \<Rightarrow> direction \<Rightarrow> 'g \<Rightarrow> direction option \<times> 'g" where
  "Mark ops contentID topicID dir g = reg_mark ops (Key ops contentID topicID) dir g"

definition Lookup :: "'g registry_ops \<Rightarrow> hash \<Rightarrow> hash \<Rightarrow> 'g \<Rightarrow> direction option" where
  "Lookup ops contentID topicID g = reg_lookup ops (Key ops contentID topicID) g"

section \<open>First match wins\<close>

lemma RouteFor_find: "RouteFor rs topic = find (\<lambda>r. Matches r topic) (List.map_filter (\<lambda>r. r) rs)"
  by (induction rs) (auto simp: map_filter_simps split: option.splits)

lemma RouteFor_Some: "RouteFor rs topic = Some r \<Longrightarrow> Some r \<in> set rs \<and> Matches r topic"
  by (induction rs) (auto split: option.splits if_splits)

end
