(* ===== verification/Spv_Marker.thy ===== *)
theory Spv_Marker
  imports Go_Strings
begin

text \<open>
  The verdict type of \<^verbatim>\<open>src/pkg/spv/spv.go\<close>, which the feed reads, and the trust marker of
  \<^verbatim>\<open>src/pkg/spv/marker.go\<close>: an HMAC over a fixed label and the object's bytes, rendered in
  hexadecimal, and its check. SHA-256 is a parameter; HMAC is RFC 2104 over it, with SHA-256's block of 64 bytes.
\<close>

section \<open>Verdicts\<close>

datatype spv_result = ResultOK | ResultRefused | ResultError

datatype spv_reason =
    ReasonNone | ReasonParse | ReasonMerkle | ReasonScript | ReasonStructure | ReasonTracker | ReasonNotYet | ReasonDeadline

datatype spv_err =
    NoTracker | BadBEEF | NoTransaction | TrackerErr | InvalidMerklePath | SourceMismatch | UnminedCoinbase
  | NoInputs | NoOutputs | ValueOutOfRange | P2SHOutput | MissingSource | NullOutpoint | DuplicateInput
  | NonFinal | ConfiscationTx | PrematureCoinbase | PrematureConfiscation | OutputsExceedInputs | ScriptFailed

record verdict =
  vResult :: spv_result
  vReason :: spv_reason
  vTxID :: hash
  vTransactions :: nat
  vScripts :: nat
  vErr :: "spv_err option"

section \<open>Hexadecimal\<close>

definition hex_digit :: "nat \<Rightarrow> char" where
  "hex_digit n = char_of (if n < 10 then 48 + n else 87 + n)"

definition unhex_digit :: "char \<Rightarrow> nat option" where
  "unhex_digit c = (let n = of_char c :: nat in
     if 48 \<le> n \<and> n \<le> 57 then Some (n - 48)
     else if 97 \<le> n \<and> n \<le> 102 then Some (n - 87)
     else if 65 \<le> n \<and> n \<le> 70 then Some (n - 55)
     else None)"

fun hex_encode :: "bytes \<Rightarrow> string" where
  "hex_encode [] = []"
| "hex_encode (b # bs) = hex_digit (unat b div 16) # hex_digit (unat b mod 16) # hex_encode bs"

fun hex_decode :: "string \<Rightarrow> bytes option" where
  "hex_decode [] = Some []"
| "hex_decode [c] = None"
| "hex_decode (c # d # cs) = (case (unhex_digit c, unhex_digit d) of
     (Some hi, Some lo) \<Rightarrow> map_option ((#) (word_of_nat (16 * hi + lo))) (hex_decode cs)
   | _ \<Rightarrow> None)"

lemma unhex_hex: "n < 16 \<Longrightarrow> unhex_digit (hex_digit n) = Some n"
  by (simp add: unhex_digit_def hex_digit_def of_char_of)

lemma hex_decode_encode: "hex_decode (hex_encode bs) = Some bs"
proof (induction bs)
  case (Cons b bs)
  have "unat b < 256" using unsigned_less [of b] by simp
  then have "unat b div 16 < 16" by simp
  moreover have "(word_of_nat (16 * (unat b div 16) + unat b mod 16) :: byte) = b" by simp
  ultimately show ?case using Cons by (simp add: unhex_hex)
qed simp

section \<open>HMAC\<close>

definition hmac_key :: "(bytes \<Rightarrow> bytes) \<Rightarrow> bytes \<Rightarrow> bytes" where
  "hmac_key sha key = (let k = (if length key > 64 then sha key else key) in k @ replicate (64 - length k) 0)"

definition hmac :: "(bytes \<Rightarrow> bytes) \<Rightarrow> bytes \<Rightarrow> bytes \<Rightarrow> bytes" where
  "hmac sha key msg =
     sha (map (\<lambda>b. b XOR 0x5C) (hmac_key sha key) @ sha (map (\<lambda>b. b XOR 0x36) (hmac_key sha key) @ msg))"

section \<open>The marker\<close>

definition MarkerHeader :: string where "MarkerHeader = ''X-Overlay-Bridge-Verified''"

definition markerLabel :: bytes where
  "markerLabel = map (\<lambda>c. word_of_nat (of_char c)) ''overlay-bridge-verified/v1'' @ [0]"

definition MinKeyBytes :: nat where "MinKeyBytes = 32"

definition Marker :: "(bytes \<Rightarrow> bytes) \<Rightarrow> bytes \<Rightarrow> bytes \<Rightarrow> string" where
  "Marker sha key body = ''v1='' @ hex_encode (hmac sha key (markerLabel @ body))"

definition cut_prefix :: "string \<Rightarrow> string \<Rightarrow> string option" where
  "cut_prefix p s = (if has_prefix p s then Some (drop (length p) s) else None)"

definition CheckMarker :: "(bytes \<Rightarrow> bytes) \<Rightarrow> bytes \<Rightarrow> bytes \<Rightarrow> string \<Rightarrow> bool" where
  "CheckMarker sha key body value = (case cut_prefix ''v1='' (trim_space value) of
      None \<Rightarrow> False
    | Some got \<Rightarrow>
        if length key < MinKeyBytes then False
        else (case hex_decode got of None \<Rightarrow> False | Some mac \<Rightarrow> mac = hmac sha key (markerLabel @ body)))"

text \<open>A key file: its permission bits and its contents, or an error reading it.\<close>

datatype key_err = KeyStat | KeyMode nat | KeyRead | KeyShort nat

definition trim_bytes :: "bytes \<Rightarrow> bytes" where
  "trim_bytes b = (let sp = (\<lambda>x. is_space (char_of (unat x))) in rev (dropWhile sp (rev (dropWhile sp b))))"

definition LoadKey :: "nat option \<Rightarrow> bytes option \<Rightarrow> key_err + bytes" where
  "LoadKey mode contents = (case mode of
      None \<Rightarrow> Inl KeyStat
    | Some m \<Rightarrow>
        if m mod 64 \<noteq> 0 then Inl (KeyMode m)
        else (case contents of
            None \<Rightarrow> Inl KeyRead
          | Some b \<Rightarrow> let k = trim_bytes b in
              if length k < MinKeyBytes then Inl (KeyShort (length k)) else Inr k))"

lemma hex_not_space: "n < 16 \<Longrightarrow> \<not> is_space (hex_digit n)"
proof
  assume "n < 16" and sp: "is_space (hex_digit n)"
  then have "(of_char (hex_digit n) :: nat) > 32" by (simp add: hex_digit_def of_char_of)
  with sp show False by (auto simp: is_space_def)
qed

lemma hex_encode_Nil: "hex_encode bs = [] \<longleftrightarrow> bs = []"
  by (cases bs) auto

lemma hex_last: "bs \<noteq> [] \<Longrightarrow> \<not> is_space (last (hex_encode bs))"
  by (induction bs) (auto simp: hex_not_space hex_encode_Nil)

lemma marker_clean: "clean (Marker sha key body)"
proof -
  let ?h = "hex_encode (hmac sha key (markerLabel @ body))"
  have "\<not> is_space (last (''v1='' @ ?h))"
    using hex_last hex_encode_Nil by (cases "?h = []") (auto simp: is_space_def)
  then show ?thesis by (simp add: Marker_def clean_def is_space_def)
qed

section \<open>Properties\<close>

text \<open>
  C26. The marker made for one body is accepted for a body, under the same key, exactly when the key is long
  enough and the two bodies have the same HMAC: a marker always verifies the object it was made for, and
  moving it to another object needs an HMAC collision.
\<close>

theorem marker_binds_body:
  "CheckMarker sha key body' (Marker sha key body) \<longleftrightarrow>
     32 \<le> length key \<and> hmac sha key (markerLabel @ body) = hmac sha key (markerLabel @ body')"
proof -
  have "trim_space (Marker sha key body) = Marker sha key body" by (simp add: trim_space_clean marker_clean)
  then have "cut_prefix ''v1='' (trim_space (Marker sha key body)) = Some (hex_encode (hmac sha key (markerLabel @ body)))"
    by (simp add: Marker_def cut_prefix_def)
  then show ?thesis by (auto simp: CheckMarker_def MinKeyBytes_def hex_decode_encode)
qed

end
