(* ===== verification/Feed_Core.thy ===== *)
theory Feed_Core
  imports Feed_Dispatch Spv_Marker
begin

text \<open>
  The lane handler of \<^verbatim>\<open>src/feed/feed.go\<close> and \<^verbatim>\<open>src/feed/verify.go\<close>: decoding a delivery, electing its topics,
  marking the guard, queueing, verifying, submitting and booking. The codec of the delivery record, the guard's
  registry, the verifier and the engines are parameters collected in \<open>feed_env\<close>.
\<close>

section \<open>State\<close>

text \<open>
  \<open>engine_reply n c\<close> is the answer to the \<open>n\<close>-th engine request of the run; \<open>ctx_over n\<close> and
  \<open>ctx_over_waiting n\<close> say whether the context has ended right after it, or ends during the wait that follows.
\<close>

record 'g feed_env =
  decode_delivery :: "bytes \<Rightarrow> (hash \<times> bytes \<times> nat) option"
  split_payload :: "bytes \<Rightarrow> (bytes \<times> string list) option"
  is_beef :: "bytes \<Rightarrow> bool"
  topic_id :: "string \<Rightarrow> hash"
  content_id :: "bytes \<Rightarrow> hash"
  default_max :: int
  reg_ops :: "'g registry_ops"
  run_verify :: "bytes \<Rightarrow> verdict"
  takes_marker :: "nat \<Rightarrow> bool"
  engine_reply :: "nat \<Rightarrow> engine_call \<Rightarrow> submit_err + steak"
  ctx_over :: "nat \<Rightarrow> bool"
  ctx_over_waiting :: "nat \<Rightarrow> bool"

datatype feed_err =
    DecodeDelivery | LengthDisagrees | DecodePayload | ErrReject | ErrShed | NotStarted
  | SPVRefusedErr | FeedSubmit string submit_err | FeedCtx | NilEngine

record job =
  names :: "string list"
  object :: bytes

record counters =
  c_submitted :: u64
  c_engineError :: u64
  c_parseError :: u64
  c_unknownTopic :: u64
  c_rejected :: u64
  c_sunk :: u64
  c_shed :: u64
  c_retried :: u64
  c_engineRefused :: u64
  c_spvRefused :: u64
  c_verifyScripts :: u64
  c_mismatch :: "string \<Rightarrow> u64"
  c_steak :: "string \<times> string \<Rightarrow> u64"
  c_shedRoute :: "string \<Rightarrow> u64"

record feed =
  Topics :: "hash \<Rightarrow> string option"
  fSubmit :: "nat option"
  fGuard :: bool
  MaxObject :: int
  fWorkers :: int
  SubmitRetries :: int
  SubmitBackoff :: int
  fQueueDepth :: int
  fQueueBytes :: int
  fVerify :: bool
  VerifyMode :: string
  MarkerKey :: bytes
  fShadow :: "nat option"
  fRoutes :: "route option list"
  cnt :: counters
  observed :: "string list"
  fq :: "job list"
  queuedBytes :: int
  fstarted :: bool

section \<open>Configuration and small helpers\<close>

definition VerifyOff :: string where "VerifyOff = ''off''"
definition VerifyShadow :: string where "VerifyShadow = ''shadow''"
definition VerifyEnforce :: string where "VerifyEnforce = ''enforce''"

definition ParseVerifyMode :: "string \<Rightarrow> string option" where
  "ParseVerifyMode s = (if s = [] then Some VerifyOff
     else if s \<in> {VerifyOff, VerifyShadow, VerifyEnforce} then Some s else None)"

definition feed_cap :: "'z feed_scheme \<Rightarrow> nat" where
  "feed_cap f = (if fQueueDepth f \<le> 0 then 256 else nat (fQueueDepth f))"

definition submitRetries :: "'z feed_scheme \<Rightarrow> nat" where
  "submitRetries f = (if SubmitRetries f < 0 then 0 else if SubmitRetries f = 0 then 4 else nat (SubmitRetries f))"

definition submitBackoff :: "'z feed_scheme \<Rightarrow> int" where
  "submitBackoff f = (if SubmitBackoff f \<le> 0 then 2 * 10 ^ 9 else SubmitBackoff f)"

definition maxObject :: "'g feed_env \<Rightarrow> 'z feed_scheme \<Rightarrow> int" where
  "maxObject env f = (if MaxObject f > 0 then MaxObject f else default_max env)"

fun NewTopicMap :: "'g feed_env \<Rightarrow> string list \<Rightarrow> (hash \<Rightarrow> string option) \<Rightarrow> (hash \<Rightarrow> string option)" where
  "NewTopicMap env [] m = m"
| "NewTopicMap env (n # ns) m = NewTopicMap env ns (m(topic_id env n := Some n))"

definition enginesFor :: "'z feed_scheme \<Rightarrow> string \<Rightarrow> nat option \<times> nat option" where
  "enginesFor f topic = route_engines (fRoutes f) (fSubmit f) (fShadow f) topic"

definition OutcomeAdmitted :: string where "OutcomeAdmitted = ''admitted''"
definition OutcomeEmpty :: string where "OutcomeEmpty = ''empty''"
definition OutcomeError :: string where "OutcomeError = ''error''"
definition OutcomeRefused :: string where "OutcomeRefused = ''refused''"
definition OutcomeEngineError :: string where "OutcomeEngineError = ''engine_error''"

definition outcomeOf :: "steak \<Rightarrow> string \<Rightarrow> string" where
  "outcomeOf st topic = (case st topic of
      None \<Rightarrow> OutcomeError
    | Some None \<Rightarrow> OutcomeError
    | Some (Some ai) \<Rightarrow> if length (slice (OutputsToAdmit ai)) > 0 then OutcomeAdmitted else OutcomeEmpty)"

definition addShed :: "string \<Rightarrow> counters \<Rightarrow> counters" where
  "addShed r c = c\<lparr>c_shed := c_shed c + 1, c_shedRoute := (c_shedRoute c)(r := c_shedRoute c r + 1)\<rparr>"

definition addMismatch :: "string \<Rightarrow> counters \<Rightarrow> counters" where
  "addMismatch k c = c\<lparr>c_mismatch := (c_mismatch c)(k := c_mismatch c k + 1)\<rparr>"

definition addSteak :: "string \<Rightarrow> string \<Rightarrow> counters \<Rightarrow> counters" where
  "addSteak t oc c = c\<lparr>c_steak := (c_steak c)((t, oc) := c_steak c (t, oc) + 1)\<rparr>"

definition tally :: "(counters \<Rightarrow> counters) \<Rightarrow> 'z feed_scheme \<Rightarrow> 'z feed_scheme" where
  "tally u f = f\<lparr>cnt := u (cnt f)\<rparr>"

definition observe :: "string \<Rightarrow> 'z feed_scheme \<Rightarrow> 'z feed_scheme" where
  "observe oc f = f\<lparr>observed := observed f @ [oc]\<rparr>"

section \<open>Submitting one object to one topic\<close>

definition feed_attempts :: "'g feed_env \<Rightarrow> nat \<Rightarrow> engine_call \<Rightarrow> attempts" where
  "feed_attempts env n c = \<lparr>answer = (\<lambda>i. engine_reply env (n + i) c), ended = (\<lambda>i. ctx_over env (n + i)),
     ends_waiting = (\<lambda>i. ctx_over_waiting env (n + i))\<rparr>"

definition make_call :: "'g feed_env \<Rightarrow> nat \<Rightarrow> string \<Rightarrow> bytes \<Rightarrow> string \<Rightarrow> engine_call" where
  "make_call env e name obj marker = \<lparr>call_engine = e, call_topic = name, call_object = obj,
     call_marker = (if takes_marker env e \<and> marker \<noteq> [] then marker else [])\<rparr>"

definition book_answer :: "string \<Rightarrow> steak \<Rightarrow> nat \<Rightarrow> 'z feed_scheme \<Rightarrow> 'z feed_scheme" where
  "book_answer name st tries f =
    (let oc = outcomeOf st name;
         f1 = observe oc (tally (addSteak name oc) (tally (\<lambda>c. c\<lparr>c_submitted := c_submitted c + 1\<rparr>) f)) in
     if tries > 1 then tally (\<lambda>c. c\<lparr>c_retried := c_retried c + 1\<rparr>) f1 else f1)"

definition book_refusal :: "'z feed_scheme \<Rightarrow> 'z feed_scheme" where
  "book_refusal f = observe OutcomeRefused (tally (\<lambda>c. c\<lparr>c_engineRefused := c_engineRefused c + 1\<rparr>) f)"

definition book_failure :: "'z feed_scheme \<Rightarrow> 'z feed_scheme" where
  "book_failure f = observe OutcomeEngineError (tally (\<lambda>c. c\<lparr>c_engineError := c_engineError c + 1\<rparr>) f)"

definition submitOne :: "'g feed_env \<Rightarrow> string \<Rightarrow> bytes \<Rightarrow> string \<Rightarrow> 'z feed_scheme \<Rightarrow> 'g site \<Rightarrow>
    feed_err option \<times> 'z feed_scheme \<times> 'g site" where
  "submitOne env name obj marker f s =
    (let s1 = s\<lparr>alsos := OfferAlso (RouteFor (fRoutes f) name) name obj (alsos s)\<rparr>;
         (engine, shadow) = enginesFor f name in
     case engine of
       None \<Rightarrow> (Some NilEngine, f, s1)
     | Some e \<Rightarrow>
         (let c = make_call env e name obj marker;
              (r, tries) = submit_loop (submitRetries f) (feed_attempts env (length (calls s1)) c) 0;
              s2 = s1\<lparr>calls := calls s1 @ replicate tries c\<rparr>;
              tell = (\<lambda>primary. s2\<lparr>shadows := offer_shadow shadow name obj marker primary (shadows s2)\<rparr>) in
          case r of
            Submitted st \<Rightarrow> (None, book_answer name st tries f, tell (steak_get st name))
          | RefusedEnd err \<Rightarrow> (Some (FeedSubmit name err), book_refusal f, tell None)
          | GaveUp err \<Rightarrow> (Some (FeedSubmit name err), book_failure f, tell None)
          | CutShort \<Rightarrow> (Some FeedCtx, f, s2)))"

section \<open>Verifying and submitting a job\<close>

definition MismatchBridgeOKEngineRefused :: string where
  "MismatchBridgeOKEngineRefused = ''bridge_ok_engine_refused''"

definition MismatchBridgeRefusedEngineOK :: string where
  "MismatchBridgeRefusedEngineOK = ''bridge_refused_engine_ok''"

text \<open>\<^verbatim>\<open>Refused\<close> looks through the feed's wrapping of the engine's error.\<close>

definition engine_refused :: "feed_err option \<Rightarrow> bool" where
  "engine_refused e = (case e of Some (FeedSubmit _ x) \<Rightarrow> Refused x | _ \<Rightarrow> False)"

definition compare :: "verdict \<Rightarrow> feed_err option \<Rightarrow> 'z feed_scheme \<Rightarrow> 'z feed_scheme" where
  "compare vd e f =
    (if vResult vd = ResultOK \<and> engine_refused e then tally (addMismatch MismatchBridgeOKEngineRefused) f
     else if vResult vd = ResultRefused \<and> e = None then tally (addMismatch MismatchBridgeRefusedEngineOK) f
     else f)"

fun submit_names :: "'g feed_env \<Rightarrow> verdict option \<Rightarrow> string list \<Rightarrow> bytes \<Rightarrow> string \<Rightarrow> feed_err option \<Rightarrow>
    'z feed_scheme \<Rightarrow> 'g site \<Rightarrow> feed_err option \<times> 'z feed_scheme \<times> 'g site" where
  "submit_names env cmp [] obj marker first f s = (first, f, s)"
| "submit_names env cmp (n # ns) obj marker first f s =
    (let (e, f1, s1) = submitOne env n obj marker f s;
         f2 = (case cmp of None \<Rightarrow> f1 | Some vd \<Rightarrow> compare vd e f1) in
     submit_names env None ns obj marker (if first = None then e else first) f2 s1)"

definition feed_verifies :: "'z feed_scheme \<Rightarrow> bool" where
  "feed_verifies f \<longleftrightarrow> fVerify f \<and> VerifyMode f \<noteq> [] \<and> VerifyMode f \<noteq> VerifyOff"

definition process_marker :: "'g feed_env \<Rightarrow> bytes \<Rightarrow> 'z feed_scheme \<Rightarrow> string" where
  "process_marker env obj f =
    (if feed_verifies f \<and> VerifyMode f = VerifyEnforce \<and> vResult (run_verify env obj) = ResultOK \<and>
        length (MarkerKey f) \<ge> MinKeyBytes
     then Marker (digest (reg_ops env)) (MarkerKey f) obj else [])"

definition feed_process :: "'g feed_env \<Rightarrow> job \<Rightarrow> 'z feed_scheme \<Rightarrow> 'g site \<Rightarrow> feed_err option \<times> 'z feed_scheme \<times> 'g site" where
  "feed_process env j f s =
    (let vd = run_verify env (object j);
         f1 = (if feed_verifies f then tally (\<lambda>c. c\<lparr>c_verifyScripts := c_verifyScripts c + of_nat (vScripts vd)\<rparr>) f else f) in
     if feed_verifies f \<and> VerifyMode f = VerifyEnforce \<and> vResult vd = ResultRefused then
       (Some SPVRefusedErr, tally (\<lambda>c. c\<lparr>c_spvRefused := c_spvRefused c + 1\<rparr>) f1, s)
     else submit_names env (if feed_verifies f \<and> VerifyMode f = VerifyShadow then Some vd else None)
       (names j) (object j) (process_marker env (object j) f) None f1 s)"

section \<open>Handling a delivery\<close>

text \<open>The elected names the payload lists besides the delivered one, in the payload's order.\<close>

definition elected_names :: "'g feed_env \<Rightarrow> (hash \<Rightarrow> string option) \<Rightarrow> string \<Rightarrow> string list \<Rightarrow> string list" where
  "elected_names env topics name named =
     name # filter (\<lambda>n. n \<noteq> name \<and> topics (topic_id env n) = Some n) named"

definition mark_delivered :: "'g feed_env \<Rightarrow> hash \<Rightarrow> string list \<Rightarrow> 'g \<Rightarrow> 'g" where
  "mark_delivered env cid ns g = fold (\<lambda>n g. snd (Mark (reg_ops env) cid (topic_id env n) Delivered g)) ns g"

definition shed_delivery :: "string \<Rightarrow> 'z feed_scheme \<Rightarrow> 'z feed_scheme" where
  "shed_delivery name f = tally (addShed (routeName (fRoutes f) name)) f"

definition enqueue :: "string \<Rightarrow> job \<Rightarrow> 'z feed_scheme \<Rightarrow> feed_err option \<times> 'z feed_scheme" where
  "enqueue name j f =
    (let n = int (length (object j)); f1 = f\<lparr>queuedBytes := queuedBytes f + n\<rparr> in
     if fQueueBytes f > 0 \<and> queuedBytes f1 > fQueueBytes f then
       (Some ErrShed, shed_delivery name (f1\<lparr>queuedBytes := queuedBytes f1 - n\<rparr>))
     else if length (fq f1) < feed_cap f then (None, f1\<lparr>fq := fq f1 @ [j]\<rparr>)
     else (Some ErrShed, shed_delivery name (f1\<lparr>queuedBytes := queuedBytes f1 - n\<rparr>)))"

text \<open>What the record says, or the counter and the error of the check it fails.\<close>

datatype inspected = Bad feed_err "counters \<Rightarrow> counters" | Good string job

definition parse_failed :: "feed_err \<Rightarrow> inspected" where
  "parse_failed e = Bad e (\<lambda>c. c\<lparr>c_parseError := c_parseError c + 1\<rparr>)"

definition inspect :: "'g feed_env \<Rightarrow> 'z feed_scheme \<Rightarrow> bytes \<Rightarrow> inspected" where
  "inspect env f record = (case decode_delivery env record of
      None \<Rightarrow> parse_failed DecodeDelivery
    | Some (tid, payload, n) \<Rightarrow>
        if n \<noteq> length record then parse_failed LengthDisagrees
        else (case split_payload env payload of
            None \<Rightarrow> parse_failed DecodePayload
          | Some (obj, named) \<Rightarrow>
              if int (length obj) > maxObject env f \<or> \<not> is_beef env obj then
                Bad ErrReject (\<lambda>c. c\<lparr>c_rejected := c_rejected c + 1\<rparr>)
              else (case Topics f tid of
                  None \<Rightarrow> Bad ErrReject (\<lambda>c. c\<lparr>c_unknownTopic := c_unknownTopic c + 1\<rparr>)
                | Some name \<Rightarrow> Good name \<lparr>names = elected_names env (Topics f) name named, object = obj\<rparr>)))"

definition mark_names :: "'g feed_env \<Rightarrow> job \<Rightarrow> 'z feed_scheme \<Rightarrow> 'g site \<Rightarrow> 'g site" where
  "mark_names env j f s = (if fGuard f
     then s\<lparr>registry := mark_delivered env (content_id env (object j)) (names j) (registry s)\<rparr> else s)"

definition Feed_Handle :: "'g feed_env \<Rightarrow> bytes \<Rightarrow> 'z feed_scheme \<Rightarrow> 'g site \<Rightarrow>
    feed_err option \<times> 'z feed_scheme \<times> 'g site" where
  "Feed_Handle env record f s = (case inspect env f record of
      Bad e u \<Rightarrow> (Some e, tally u f, s)
    | Good name j \<Rightarrow>
        (let s1 = mark_names env j f s in
         if fSubmit f = None then (None, tally (\<lambda>c. c\<lparr>c_sunk := c_sunk c + 1\<rparr>) f, s1)
         else if fWorkers f > 0 then
           (if \<not> fstarted f then (Some NotStarted, shed_delivery name f, s1)
            else (let (e, f1) = enqueue name j f in (e, f1, s1)))
         else feed_process env j f s1))"

definition take_job :: "'g feed_env \<Rightarrow> job \<Rightarrow> 'z feed_scheme \<Rightarrow> 'g site \<Rightarrow> 'z feed_scheme \<times> 'g site" where
  "take_job env j f s =
     snd (feed_process env j (f\<lparr>queuedBytes := queuedBytes f - int (length (object j))\<rparr>) s)"

end
