(* ===== verification/Facade_Core.thy ===== *)
theory Facade_Core
  imports Facade_Topics Feed_Core
begin

text \<open>
  The submit server of \<^verbatim>\<open>src/facade/facade.go\<close>: trust rules, reading the body behind its record envelope, and
  the handler that forwards a submission to each topic's engine and publishes it on the plane once per topic not
  seen before.
\<close>

section \<open>Addresses and trust rules\<close>

text \<open>The values of \<^verbatim>\<open>net/netip\<close>; an IPv6 address may carry a zone.\<close>

datatype ip_addr = V4 "32 word" | V6 "128 word" string

definition Unmap :: "ip_addr \<Rightarrow> ip_addr" where
  "Unmap a = (case a of
      V4 w \<Rightarrow> V4 w
    | V6 w z \<Rightarrow> if drop_bit 32 w = 0xFFFF then V4 (ucast w) else V6 w z)"

type_synonym ip_prefix = "ip_addr \<times> nat"

definition Masked :: "ip_prefix \<Rightarrow> ip_prefix" where
  "Masked p = (case p of
      (V4 w, n) \<Rightarrow> (V4 (push_bit (32 - n) (drop_bit (32 - n) w)), n)
    | (V6 w z, n) \<Rightarrow> (V6 (push_bit (128 - n) (drop_bit (128 - n) w)) [], n))"

definition prefix_contains :: "ip_prefix \<Rightarrow> ip_addr \<Rightarrow> bool" where
  "prefix_contains p a = (case (p, a) of
      ((V4 w, n), V4 x) \<Rightarrow> drop_bit (32 - n) (w XOR x) = 0
    | ((V6 w _, n), V6 x z) \<Rightarrow> z = [] \<and> drop_bit (128 - n) (w XOR x) = 0
    | _ \<Rightarrow> False)"

record TrustRule =
  tPattern :: string
  tNets :: "ip_prefix list"

datatype trust_err = NotGlobCIDR | TrustGlob | TrustCIDR string

fun parse_nets :: "(string \<Rightarrow> ip_prefix option) \<Rightarrow> string list \<Rightarrow> trust_err + ip_prefix list" where
  "parse_nets pp [] = Inr []"
| "parse_nets pp (s # ss) = (case pp (trim_space s) of
     None \<Rightarrow> Inl (TrustCIDR s)
   | Some p \<Rightarrow> bind_res (parse_nets pp ss) (\<lambda>ps. Inr (Masked p # ps)))"

definition ParseTrust :: "(string \<Rightarrow> ip_prefix option) \<Rightarrow> string \<Rightarrow> trust_err + TrustRule" where
  "ParseTrust pp v = (case cut CHR ''='' v of
      None \<Rightarrow> Inl NotGlobCIDR
    | Some (pattern, nets) \<Rightarrow>
        if pattern = [] \<or> nets = [] then Inl NotGlobCIDR
        else if path_Match pattern [] = None then Inl TrustGlob
        else bind_res (parse_nets pp (split_on CHR '','' nets)) (\<lambda>ns. Inr \<lparr>tPattern = pattern, tNets = ns\<rparr>))"

fun trusts :: "(string \<Rightarrow> ip_addr option) \<Rightarrow> TrustRule list \<Rightarrow> string \<Rightarrow> string \<Rightarrow> bool" where
  "trusts pa [] addr topic = False"
| "trusts pa (r # rs) addr topic = (case pa addr of
     None \<Rightarrow> False
   | Some a \<Rightarrow>
       if path_Match (tPattern r) topic = Some True \<and> list_ex (\<lambda>n. prefix_contains n (Unmap a)) (tNets r) then True
       else trusts pa rs addr topic)"

section \<open>The request and its body\<close>

text \<open>A body is the bytes that can be read and whether reading then fails rather than ends.\<close>

record http_request =
  x_topics :: "string list"
  ContentLength :: int
  body_data :: bytes
  body_fails :: bool
  RemoteAddr :: string

datatype body_err = TooLarge | PastLength | ShortBody | BrokenBody

definition readBodyAfter :: "http_request \<Rightarrow> int \<Rightarrow> bytes option \<Rightarrow> body_err + (bytes \<times> bytes option)" where
  "readBodyAfter r limit prefix =
    (let data = body_data r; cl = ContentLength r in
     if 0 \<le> cl \<and> cl \<le> limit then
       (if int (length data) > cl then Inl PastLength
        else if body_fails r then Inl BrokenBody
        else if int (length data) < cl then Inl ShortBody
        else Inr (data, map_option (\<lambda>p. p @ data) prefix))
     else if int (length data) > limit then Inl TooLarge
     else if body_fails r then Inl BrokenBody
     else Inr (data, None))"

section \<open>State\<close>

text \<open>
  What the facade calls besides what the feed calls: the record codec, whether an engine client reports its answer's
  wrapper form, an engine's detailed answer to the \<open>n\<close>-th request, whether the publisher takes the \<open>n\<close>-th record offered
  to it, and the parser of a remote address.
\<close>

record 'g facade_env =
  fbase :: "'g feed_env"
  encode_header :: "string list \<Rightarrow> int \<Rightarrow> bytes option"
  encode_record :: "string list \<Rightarrow> bytes \<Rightarrow> bytes option"
  reports_detail :: "nat \<Rightarrow> bool"
  detail_reply :: "nat \<Rightarrow> engine_call \<Rightarrow> submit_err + Answer"
  publisher_takes :: "nat \<Rightarrow> bytes \<Rightarrow> bool"
  parse_addr :: "string \<Rightarrow> ip_addr option"

text \<open>A record the publisher took, with the identity its \<^verbatim>\<open>sent\<close> callback will mark.\<close>

record publication =
  p_topic :: string
  p_record :: bytes
  p_content :: hash
  p_topicID :: hash

record facade =
  fac_Engine :: nat
  fac_Publish :: bool
  fac_Guard :: bool
  fac_Topics :: "string set"
  fac_MaxObject :: int
  fac_Routes :: "route option list"
  fac_Shadow :: "nat option"
  ShadowFacade :: bool
  Trusted :: "TrustRule list"
  n_ok :: u64
  n_malformed :: u64
  n_unknownTopic :: u64
  n_loopDropped :: u64
  n_engineError :: u64
  n_publishFailed :: u64
  n_trusted :: u64
  taken :: "publication list"
  offered :: nat

datatype reply = HttpError nat | Unpublished | Steaks "string \<Rightarrow> admittance option" bool

definition fac_maxObject :: "'g facade_env \<Rightarrow> facade \<Rightarrow> int" where
  "fac_maxObject env f = (if fac_MaxObject f > 0 then fac_MaxObject f else default_max (fbase env))"

definition fac_enginesFor :: "facade \<Rightarrow> string \<Rightarrow> nat \<times> nat option" where
  "fac_enginesFor f topic = (case RouteFor (fac_Routes f) topic of
      None \<Rightarrow> (fac_Engine f, fac_Shadow f)
    | Some r \<Rightarrow> (case rSubmit r of
        None \<Rightarrow> (fac_Engine f, fac_Shadow f)
      | Some e \<Rightarrow> (e, rShadow r)))"

text \<open>A client without the wrapper form is asked plainly and its answer relayed bare.\<close>

definition submit_detail :: "'g facade_env \<Rightarrow> nat \<Rightarrow> engine_call \<Rightarrow> submit_err + Answer" where
  "submit_detail env n c =
    (if reports_detail env (call_engine c) then detail_reply env n c
     else bind_res (engine_reply (fbase env) n c) (\<lambda>st. Inr \<lparr>Steak = st, Wrapped = False\<rparr>))"

definition merge_steak :: "steak \<Rightarrow> steak \<Rightarrow> steak" where
  "merge_steak st a = (\<lambda>k. case a k of Some v \<Rightarrow> Some v | None \<Rightarrow> st k)"

definition ensure_topic :: "string \<Rightarrow> steak \<Rightarrow> steak" where
  "ensure_topic name st = (if st name = None then st(name := Some (Some empty_adm)) else st)"

definition trusted_adm :: adm where
  "trusted_adm = empty_adm\<lparr>OutputsToAdmit := Some [0]\<rparr>"

section \<open>One topic of a submission\<close>

definition known :: "'g facade_env \<Rightarrow> facade \<Rightarrow> bytes \<Rightarrow> string \<Rightarrow> 'g site \<Rightarrow> bool" where
  "known env f obj name s \<longleftrightarrow> fac_Guard f \<and>
     Lookup (reg_ops (fbase env)) (content_id (fbase env) obj) (topic_id (fbase env) name) (registry s) \<noteq> None"

definition trusted_source :: "'g facade_env \<Rightarrow> facade \<Rightarrow> string \<Rightarrow> string \<Rightarrow> bool" where
  "trusted_source env f addr name = trusts (parse_addr env) (Trusted f) addr name"

text \<open>
  Answering a topic: as admitted for a trusted source, else by the topic's engine, whose answer is merged into the
  reply and offered to the shadow; \<open>None\<close> when the engine failed.
\<close>

definition answer_topic :: "'g facade_env \<Rightarrow> string \<Rightarrow> bytes \<Rightarrow> string \<Rightarrow> steak \<times> bool \<Rightarrow> facade \<Rightarrow> 'g site \<Rightarrow>
    (steak \<times> bool) option \<times> facade \<times> 'g site" where
  "answer_topic env addr obj name acc f s =
    (if trusted_source env f addr name then
       (Some ((fst acc)(name := Some (Some trusted_adm)), snd acc), f\<lparr>n_trusted := n_trusted f + 1\<rparr>, s)
     else
       (let (e, sh) = fac_enginesFor f name;
            c = \<lparr>call_engine = e, call_topic = name, call_object = obj, call_marker = []\<rparr>;
            s1 = s\<lparr>calls := calls s @ [c]\<rparr> in
        case submit_detail env (length (calls s)) c of
          Inl err \<Rightarrow> (None, f\<lparr>n_engineError := n_engineError f + 1\<rparr>, s1)
        | Inr a \<Rightarrow>
            (Some (ensure_topic name (merge_steak (fst acc) (Steak a)), snd acc \<or> Wrapped a), f,
             (if ShadowFacade f
              then s1\<lparr>shadows := offer_shadow sh name obj [] (steak_get (Steak a) name) (shadows s1)\<rparr> else s1))))"

text \<open>The record published for a topic: the buffer the body was read into for the first, else encoded.\<close>

definition topic_record :: "'g facade_env \<Rightarrow> bytes option \<Rightarrow> string \<Rightarrow> string \<Rightarrow> bytes \<Rightarrow> bytes option" where
  "topic_record env buf first name obj = (case buf of
      Some b \<Rightarrow> if name = first then Some b else encode_record env [name] obj
    | None \<Rightarrow> encode_record env [name] obj)"

datatype published = Published_ok | Encode_failed | Not_taken

definition publish_topic :: "'g facade_env \<Rightarrow> bytes option \<Rightarrow> string \<Rightarrow> bytes \<Rightarrow> string \<Rightarrow> facade \<Rightarrow> published \<times> facade" where
  "publish_topic env buf first obj name f = (case topic_record env buf first name obj of
      None \<Rightarrow> (Encode_failed, f\<lparr>n_publishFailed := n_publishFailed f + 1\<rparr>)
    | Some rec \<Rightarrow>
        (let f1 = f\<lparr>offered := offered f + 1\<rparr> in
         if publisher_takes env (offered f) rec then
           (Published_ok, f1\<lparr>taken := taken f @ [\<lparr>p_topic = name, p_record = rec, p_content = content_id (fbase env) obj,
              p_topicID = topic_id (fbase env) name\<rparr>]\<rparr>)
         else (Not_taken, f1\<lparr>n_publishFailed := n_publishFailed f1 + 1\<rparr>)))"

fun submit_topics :: "'g facade_env \<Rightarrow> string \<Rightarrow> bytes option \<Rightarrow> string \<Rightarrow> bytes \<Rightarrow> string list \<Rightarrow> steak \<times> bool \<Rightarrow>
    facade \<Rightarrow> 'g site \<Rightarrow> reply \<times> facade \<times> 'g site" where
  "submit_topics env addr buf first obj [] acc f s =
     (Steaks (wireSteak (fst acc)) (snd acc), f\<lparr>n_ok := n_ok f + 1\<rparr>, s)"
| "submit_topics env addr buf first obj (name # ns) acc f s =
    (let k = known env f obj name s in
     case answer_topic env addr obj name acc f s of
       (None, f1, s1) \<Rightarrow> (HttpError 502, f1, s1)
     | (Some acc1, f1, s1) \<Rightarrow>
         if k then submit_topics env addr buf first obj ns acc1 (f1\<lparr>n_loopDropped := n_loopDropped f1 + 1\<rparr>) s1
         else
           (let s2 = (if trusted_source env f addr name then s1
                      else s1\<lparr>alsos := OfferAlso (RouteFor (fac_Routes f1) name) name obj (alsos s1)\<rparr>) in
            if \<not> fac_Publish f1 then submit_topics env addr buf first obj ns acc1 f1 s2
            else (case publish_topic env buf first obj name f1 of
                (Not_taken, f2) \<Rightarrow> (Unpublished, f2, s2)
              | (_, f2) \<Rightarrow> submit_topics env addr buf first obj ns acc1 f2 s2)))"

section \<open>The handler\<close>

definition malformed :: "facade \<Rightarrow> facade" where
  "malformed f = f\<lparr>n_malformed := n_malformed f + 1\<rparr>"

definition facade_submit :: "'g facade_env \<Rightarrow> http_request \<Rightarrow> facade \<Rightarrow> 'g site \<Rightarrow> reply \<times> facade \<times> 'g site" where
  "facade_submit env r f s = (case ParseTopics (x_topics r) of
      Inl _ \<Rightarrow> (HttpError 400, malformed f, s)
    | Inr topics \<Rightarrow>
        (let prefix = (if ContentLength r > 0 \<and> topics \<noteq> []
                       then encode_header env [hd topics] (ContentLength r) else None) in
         case readBodyAfter r (fac_maxObject env f) prefix of
           Inl TooLarge \<Rightarrow> (HttpError 413, malformed f, s)
         | Inl _ \<Rightarrow> (HttpError 400, malformed f, s)
         | Inr (obj, buf) \<Rightarrow>
             if \<not> is_beef (fbase env) obj then (HttpError 400, malformed f, s)
             else if \<not> list_all (\<lambda>n. n \<in> fac_Topics f) topics then
               (HttpError 400, f\<lparr>n_unknownTopic := n_unknownTopic f + 1\<rparr>, s)
             else submit_topics env (RemoteAddr r) buf (hd topics) obj topics (nil_steak, False) f s))"

text \<open>The publisher's \<^verbatim>\<open>sent\<close> callback, which runs once a record it took has reached the plane.\<close>

definition facade_sent :: "'g facade_env \<Rightarrow> publication \<Rightarrow> facade \<Rightarrow> 'g site \<Rightarrow> 'g site" where
  "facade_sent env p f s = (if fac_Guard f
     then s\<lparr>registry := snd (Mark (reg_ops (fbase env)) (p_content p) (p_topicID p) Submitted_dir (registry s))\<rparr> else s)"

end
