(* ===== verification/Feed_Handler.thy ===== *)
theory Feed_Handler
  imports Feed_Core
begin

text \<open>
  What the feed's operations do: the frame of each operation, the requests a job makes and the markers they
  carry, how an outcome is booked, and the queue between the lane and the workers as a transition system.
\<close>

section \<open>Frames\<close>

text \<open>Submitting touches the counters and the outcome history of the feed and nothing else of it.\<close>

definition books_only :: "'z feed_scheme \<Rightarrow> 'z feed_scheme \<Rightarrow> bool" where
  "books_only f f' \<longleftrightarrow> (\<exists>c ob. f' = f\<lparr>cnt := c, observed := ob\<rparr>)"

lemma books_only_refl [simp]: "books_only f f"
  unfolding books_only_def by (intro exI [of _ "cnt f"] exI [of _ "observed f"]) simp

lemma books_only_trans: "books_only f g \<Longrightarrow> books_only g h \<Longrightarrow> books_only f h"
  unfolding books_only_def
proof (elim exE)
  fix c ob c' ob' assume "g = f\<lparr>cnt := c, observed := ob\<rparr>" "h = g\<lparr>cnt := c', observed := ob'\<rparr>"
  then show "\<exists>c ob. h = f\<lparr>cnt := c, observed := ob\<rparr>" by (intro exI [of _ c'] exI [of _ ob']) simp
qed

lemma books_only_tally [simp]: "books_only f (tally u f)"
  unfolding books_only_def tally_def by (intro exI [of _ "u (cnt f)"] exI [of _ "observed f"]) simp

lemma books_only_observe [simp]: "books_only f (observe oc f)"
  unfolding books_only_def observe_def by (intro exI [of _ "cnt f"] exI) simp

lemma books_only_compare [simp]: "books_only f (compare vd e f)"
  by (simp add: compare_def)

lemma books_only_books [simp]:
  "books_only f (book_answer name st n f)" "books_only f (book_refusal f)" "books_only f (book_failure f)"
  by (simp_all add: book_answer_def book_refusal_def book_failure_def Let_def)
    (meson books_only_observe books_only_tally books_only_trans)+

lemma books_only_fields:
  assumes "books_only f f'"
  shows "Topics f' = Topics f" "fSubmit f' = fSubmit f" "fGuard f' = fGuard f" "fWorkers f' = fWorkers f"
    "fQueueBytes f' = fQueueBytes f" "feed_cap f' = feed_cap f" "submitRetries f' = submitRetries f"
    "fRoutes f' = fRoutes f" "fShadow f' = fShadow f" "enginesFor f' t = enginesFor f t"
    "fq f' = fq f" "queuedBytes f' = queuedBytes f" "fstarted f' = fstarted f"
  using assms by (auto simp: books_only_def feed_cap_def submitRetries_def enginesFor_def)

section \<open>One topic\<close>

lemma engine_present: "fSubmit f \<noteq> None \<Longrightarrow> \<exists>e sh. enginesFor f name = (Some e, sh)"
  by (auto simp: enginesFor_def route_engines_def split: option.splits)

text \<open>
  Everything a submit to one topic does: at least one and at most one more than the configured retries identical
  requests to the topic's engine, the offers, and a booking decided by how the request loop ended.
\<close>

definition submit_effect :: "'g feed_env \<Rightarrow> string \<Rightarrow> bytes \<Rightarrow> string \<Rightarrow> 'z feed_scheme \<Rightarrow> 'g site \<Rightarrow>
    nat \<Rightarrow> engine_call \<Rightarrow> feed_err option \<Rightarrow> 'z feed_scheme \<Rightarrow> 'g site \<Rightarrow> bool" where
  "submit_effect env name obj marker f s n c e f' s' \<longleftrightarrow>
     n \<le> submitRetries f \<and>
     fst (enginesFor f name) = Some (call_engine c) \<and>
     c = make_call env (call_engine c) name obj marker \<and>
     calls s' = calls s @ replicate (n + 1) c \<and>
     registry s' = registry s \<and>
     alsos s' = OfferAlso (RouteFor (fRoutes f) name) name obj (alsos s) \<and>
     (let w = feed_attempts env (length (calls s)) c; sh = snd (enginesFor f name);
          tell = (\<lambda>p. shadows s' = offer_shadow sh name obj marker p (shadows s)) in
      case loop_stop (submitRetries f) w n of
        Submitted st \<Rightarrow> e = None \<and> f' = book_answer name st (n + 1) f \<and> tell (steak_get st name)
      | RefusedEnd x \<Rightarrow> e = Some (FeedSubmit name x) \<and> Refused x \<and> f' = book_refusal f \<and> tell None
      | GaveUp x \<Rightarrow> e = Some (FeedSubmit name x) \<and> \<not> Refused x \<and> f' = book_failure f \<and> tell None
      | CutShort \<Rightarrow> e = Some FeedCtx \<and> f' = f \<and> shadows s' = shadows s \<and> ctx_over_waiting env (length (calls s) + n))"

lemma submitOne_effect:
  assumes "fSubmit f \<noteq> None"
  obtains n c e f' s' where "submitOne env name obj marker f s = (e, f', s')"
    "submit_effect env name obj marker f s n c e f' s'"
proof -
  obtain i sh where es: "enginesFor f name = (Some i, sh)" using engine_present [OF assms] by blast
  define c where "c = make_call env i name obj marker"
  define w where "w = feed_attempts env (length (calls s)) c"
  obtain n where n: "n \<le> submitRetries f" "\<not> retried_past (submitRetries f) w n"
      "submit_loop (submitRetries f) w 0 = (loop_stop (submitRetries f) w n, n + 1)"
    using submit_loop_char [of 0 "submitRetries f" w] by auto
  have ci: "call_engine c = i" by (simp add: c_def make_call_def)
  have cs: "ctx_over_waiting env (length (calls s) + n)" if "loop_stop (submitRetries f) w n = CutShort"
    using that n(2) by (auto simp: loop_stop_def retried_past_def w_def feed_attempts_def split: sum.splits if_splits)
  have gu: "\<not> Refused x" if "loop_stop (submitRetries f) w n = GaveUp x" for x
    using that by (auto simp: loop_stop_def split: sum.splits if_splits)
  have rf: "Refused x" if "loop_stop (submitRetries f) w n = RefusedEnd x" for x
    using that by (auto simp: loop_stop_def split: sum.splits if_splits)
  obtain e f' s' where r: "submitOne env name obj marker f s = (e, f', s')" by (metis surj_pair)
  have "submit_effect env name obj marker f s n c e f' s'"
    using r n(1,3) es ci cs gu rf unfolding submit_effect_def submitOne_def
    by (simp add: c_def [symmetric] w_def [symmetric] split: submit_end.splits) auto
  with r that show ?thesis by blast
qed

lemma submit_effect_frame:
  "submit_effect env name obj marker f s n c e f' s' \<Longrightarrow> books_only f f' \<and> registry s' = registry s"
  by (auto simp: submit_effect_def Let_def split: submit_end.splits)

section \<open>Every topic of a job\<close>

text \<open>The requests a state has beyond an earlier one.\<close>

definition new_calls :: "'g site \<Rightarrow> 'g site \<Rightarrow> engine_call list" where
  "new_calls s s' = drop (length (calls s)) (calls s')"

text \<open>
  Requests that belong to a job: they extend the history, each goes to its topic's primary with the job's object, and
  carries the marker exactly when there is one and the client takes it.
\<close>

definition calls_for :: "'g feed_env \<Rightarrow> string list \<Rightarrow> bytes \<Rightarrow> string \<Rightarrow> 'z feed_scheme \<Rightarrow> engine_call list \<Rightarrow> bool" where
  "calls_for env ns obj marker f cs \<longleftrightarrow>
     list_all (\<lambda>c. call_topic c \<in> set ns \<and> fst (enginesFor f (call_topic c)) = Some (call_engine c) \<and>
        c = make_call env (call_engine c) (call_topic c) obj marker) cs \<and>
     set ns \<subseteq> call_topic ` set cs"

lemma make_call_topic [simp]: "call_topic (make_call env i name obj marker) = name"
  by (simp add: make_call_def)

lemma calls_for_mono:
  "calls_for env ns obj marker f cs \<Longrightarrow> calls_for env ms obj marker f ds \<Longrightarrow>
   calls_for env (ns @ ms) obj marker f (cs @ ds)"
  by (auto simp: calls_for_def list_all_iff)

lemma submit_names_effect:
  assumes "fSubmit f \<noteq> None"
  shows "\<exists>e f' s' cs. submit_names env cmp ns obj marker first f s = (e, f', s') \<and> books_only f f' \<and>
    registry s' = registry s \<and> calls s' = calls s @ cs \<and> calls_for env ns obj marker f cs"
  using assms
proof (induction ns arbitrary: cmp first f s)
  case Nil
  then show ?case by (simp add: calls_for_def)
next
  case (Cons m ns)
  obtain n c e f1 s1 where one: "submitOne env m obj marker f s = (e, f1, s1)"
    and eff: "submit_effect env m obj marker f s n c e f1 s1" by (rule submitOne_effect [OF Cons.prems])
  define f2 where "f2 = (case cmp of None \<Rightarrow> f1 | Some vd \<Rightarrow> compare vd e f1)"
  have b: "books_only f f2"
    using submit_effect_frame [OF eff] books_only_trans books_only_compare
    by (fastforce simp: f2_def split: option.splits)
  note keep = books_only_fields [OF b]
  obtain e' f' s' cs where rest:
    "submit_names env None ns obj marker (if first = None then e else first) f2 s1 = (e', f', s')"
    "books_only f2 f'" "registry s' = registry s1" "calls s' = calls s1 @ cs" "calls_for env ns obj marker f2 cs"
    using Cons.IH [of f2 None "if first = None then e else first" s1] Cons.prems keep by auto
  have "calls_for env [m] obj marker f (replicate (n + 1) c)"
    using eff unfolding submit_effect_def calls_for_def list_all_iff by (auto, (metis make_call_topic)+)
  moreover have "calls_for env ns obj marker f cs" using rest(5) keep by (simp add: calls_for_def)
  ultimately have "calls_for env ([m] @ ns) obj marker f (replicate (n + 1) c @ cs)" by (rule calls_for_mono)
  moreover have "calls s1 = calls s @ replicate (n + 1) c" "registry s1 = registry s"
    using eff by (simp_all add: submit_effect_def)
  moreover have "submit_names env cmp (m # ns) obj marker first f s = (e', f', s')"
    using rest(1) one by (simp add: f2_def [symmetric])
  moreover have "books_only f f'" using books_only_trans [OF b rest(2)] .
  ultimately show ?case using rest(3,4) by auto
qed

text \<open>When the feed's own verifier stands in the way.\<close>

definition spv_blocks :: "'g feed_env \<Rightarrow> bytes \<Rightarrow> 'z feed_scheme \<Rightarrow> bool" where
  "spv_blocks env obj f \<longleftrightarrow>
     feed_verifies f \<and> VerifyMode f = VerifyEnforce \<and> vResult (run_verify env obj) = ResultRefused"

lemma process_blocked:
  assumes "spv_blocks env (object j) f"
  shows "\<exists>f'. feed_process env j f s = (Some SPVRefusedErr, f', s) \<and> books_only f f' \<and>
     c_spvRefused (cnt f') = c_spvRefused (cnt f) + 1 \<and> observed f' = observed f"
proof -
  define f1 where "f1 = tally (\<lambda>c. c\<lparr>c_verifyScripts := c_verifyScripts c +
    of_nat (vScripts (run_verify env (object j)))\<rparr>) f"
  define f2 where "f2 = tally (\<lambda>c. c\<lparr>c_spvRefused := c_spvRefused c + 1\<rparr>) f1"
  have "feed_process env j f s = (Some SPVRefusedErr, f2, s)"
    using assms unfolding feed_process_def Let_def spv_blocks_def f2_def f1_def by simp
  moreover have "books_only f f2"
    unfolding f2_def f1_def by (meson books_only_tally books_only_trans)
  moreover have "c_spvRefused (cnt f2) = c_spvRefused (cnt f) + 1" "observed f2 = observed f"
    by (simp_all add: f2_def f1_def tally_def)
  ultimately show ?thesis by blast
qed

lemma process_submits:
  assumes "\<not> spv_blocks env (object j) f" "fSubmit f \<noteq> None"
  shows "\<exists>e f' s' cs. feed_process env j f s = (e, f', s') \<and> books_only f f' \<and> registry s' = registry s \<and>
    calls s' = calls s @ cs \<and> calls_for env (names j) (object j) (process_marker env (object j) f) f cs"
proof -
  define f1 where "f1 = (if feed_verifies f then
    tally (\<lambda>c. c\<lparr>c_verifyScripts := c_verifyScripts c + of_nat (vScripts (run_verify env (object j)))\<rparr>) f else f)"
  have b: "books_only f f1" by (simp add: f1_def)
  have "\<exists>e f' s' cs. submit_names env (if feed_verifies f \<and> VerifyMode f = VerifyShadow then Some (run_verify env (object j)) else None)
      (names j) (object j) (process_marker env (object j) f) None f1 s = (e, f', s') \<and> books_only f1 f' \<and>
    registry s' = registry s \<and> calls s' = calls s @ cs \<and>
    calls_for env (names j) (object j) (process_marker env (object j) f) f1 cs"
    using assms(2) books_only_fields [OF b] by (intro submit_names_effect) simp
  then obtain e f' s' cs where r: "submit_names env (if feed_verifies f \<and> VerifyMode f = VerifyShadow then Some (run_verify env (object j)) else None)
      (names j) (object j) (process_marker env (object j) f) None f1 s = (e, f', s')" "books_only f1 f'"
    "registry s' = registry s" "calls s' = calls s @ cs"
    "calls_for env (names j) (object j) (process_marker env (object j) f) f1 cs" by blast
  have "feed_process env j f s = (e, f', s')"
    using r(1) assms(1) unfolding feed_process_def Let_def f1_def [symmetric] spv_blocks_def by (simp only: if_False)
  moreover have "calls_for env (names j) (object j) (process_marker env (object j) f) f cs"
    using r(5) books_only_fields [OF b] by (simp add: calls_for_def)
  ultimately show ?thesis using r(2-4) books_only_trans [OF b] by blast
qed

end
