(* ===== verification/Feed_Props.thy ===== *)
theory Feed_Props
  imports Feed_Handler
begin

text \<open>
  The feed between the lane and its workers as a transition system, and the properties of the feed.
\<close>

section \<open>Deliveries, workers and the stop\<close>

text \<open>
  The record carries, beside the feed, the jobs ever queued and ever taken, whether the run context has ended, and how
  many workers are still running. A delivery is one step, and so is a worker's whole handling of a job.
\<close>

record feed_sys = feed +
  acc_jobs :: "job list"
  done_jobs :: "job list"
  cancelled :: bool
  active :: nat

datatype 'g feed_event =
    FHandle "'g feed_env" bytes | FTake "'g feed_env" | FStart | FCancel | FExit | FStop

definition queued_since :: "feed_sys \<Rightarrow> feed_sys \<Rightarrow> feed_sys" where
  "queued_since f f' = f'\<lparr>acc_jobs := acc_jobs f @ drop (length (fq f)) (fq f')\<rparr>"

inductive feed_step :: "feed_sys \<times> 'g site \<Rightarrow> 'g feed_event \<Rightarrow> feed_sys \<times> 'g site \<Rightarrow> bool" where
  handle: "Feed_Handle env record f s = (e, f', s') \<Longrightarrow> feed_step (f, s) (FHandle env record) (queued_since f f', s')"
| takes: "active f > 0 \<Longrightarrow> fq f = j # rest \<Longrightarrow> take_job env j (f\<lparr>fq := rest\<rparr>) s = (f', s') \<Longrightarrow>
    feed_step (f, s) (FTake env) (f'\<lparr>done_jobs := done_jobs f @ [j]\<rparr>, s')"
| start: "fWorkers f > 0 \<Longrightarrow> \<not> fstarted f \<Longrightarrow>
    feed_step (f, s) FStart (f\<lparr>fstarted := True, active := nat (fWorkers f), cancelled := False\<rparr>, s)"
| cancel: "feed_step (f, s) FCancel (f\<lparr>cancelled := True\<rparr>, s)"
| leave: "cancelled f \<Longrightarrow> fq f = [] \<Longrightarrow> active f > 0 \<Longrightarrow> feed_step (f, s) FExit (f\<lparr>active := active f - 1\<rparr>, s)"
| stop: "fstarted f \<Longrightarrow> cancelled f \<Longrightarrow> active f = 0 \<Longrightarrow> feed_step (f, s) FStop (f\<lparr>fstarted := False\<rparr>, s)"

inductive_simps feed_step_iff:
  "feed_step (f, s) (FHandle env record) t" "feed_step (f, s) (FTake env) t" "feed_step (f, s) FStart t"
  "feed_step (f, s) FCancel t" "feed_step (f, s) FExit t" "feed_step (f, s) FStop t"

definition feed_start :: "feed_sys \<Rightarrow> feed_sys \<times> 'g site \<Rightarrow> bool" where
  "feed_start c fs \<longleftrightarrow> fst fs = c\<lparr>fq := [], queuedBytes := 0, fstarted := False, acc_jobs := [], done_jobs := [],
     cancelled := False, active := 0\<rparr>"

definition total_bytes :: "job list \<Rightarrow> int" where
  "total_bytes js = (\<Sum>j\<leftarrow>js. int (length (object j)))"

lemma total_bytes_simps [simp]:
  "total_bytes [] = 0" "total_bytes (j # js) = int (length (object j)) + total_bytes js"
  "total_bytes (js @ ks) = total_bytes js + total_bytes ks"
  by (simp_all add: total_bytes_def)

definition feed_ok :: "feed_sys \<Rightarrow> feed_sys \<times> 'g site \<Rightarrow> bool" where
  "feed_ok c fs = (case fs of (f, s) \<Rightarrow>
     fQueueBytes f = fQueueBytes c \<and> feed_cap f = feed_cap c \<and> fSubmit f = fSubmit c \<and>
     queuedBytes f = total_bytes (fq f) \<and> (fQueueBytes c > 0 \<longrightarrow> total_bytes (fq f) \<le> fQueueBytes c) \<and>
     length (fq f) \<le> feed_cap c \<and> acc_jobs f = done_jobs f @ fq f \<and>
     (fq f \<noteq> [] \<longrightarrow> fSubmit c \<noteq> None))"

lemma books_only_ghosts:
  "books_only f f' \<Longrightarrow> acc_jobs f' = acc_jobs f \<and> done_jobs f' = done_jobs f \<and> active f' = active f \<and> cancelled f' = cancelled f"
  by (auto simp: books_only_def)

text \<open>A delivery either leaves the feed's queue alone or appends one job to it.\<close>

lemma enqueue_effect:
  "enqueue name j f = (e, f') \<Longrightarrow>
     (e = None \<and> f' = f\<lparr>queuedBytes := queuedBytes f + int (length (object j)), fq := fq f @ [j]\<rparr> \<and>
        length (fq f) < feed_cap f \<and> (fQueueBytes f > 0 \<longrightarrow> queuedBytes f + int (length (object j)) \<le> fQueueBytes f)) \<or>
     (e = Some ErrShed \<and> books_only f f')"
proof -
  assume q: "enqueue name j f = (e, f')"
  have b: "books_only f (shed_delivery name (f\<lparr>queuedBytes := queuedBytes f\<rparr>))"
    by (simp add: shed_delivery_def)
  show ?thesis
    using q b unfolding enqueue_def Let_def by (auto split: if_splits)
qed

lemma Handle_effect:
  assumes "Feed_Handle env record f s = (e, f', s')"
  obtains "books_only f f'"
  | name j where "inspect env f record = Good name j" "e = None" "fSubmit f \<noteq> None" "fWorkers f > 0"
      "f' = f\<lparr>queuedBytes := queuedBytes f + int (length (object j)), fq := fq f @ [j]\<rparr>"
      "length (fq f) < feed_cap f" "fQueueBytes f > 0 \<longrightarrow> queuedBytes f + int (length (object j)) \<le> fQueueBytes f"
proof (cases "inspect env f record")
  case (Bad x u)
  then have "f' = tally u f" using assms by (simp add: Feed_Handle_def)
  then show ?thesis using that(1) by simp
next
  case (Good name j)
  consider "fSubmit f = None" | "fSubmit f \<noteq> None" "fWorkers f > 0" "\<not> fstarted f"
    | "fSubmit f \<noteq> None" "fWorkers f > 0" "fstarted f" | "fSubmit f \<noteq> None" "fWorkers f \<le> 0" by linarith
  then show ?thesis
  proof cases
    case 1
    then have "books_only f f'" using assms Good by (auto simp: Feed_Handle_def Let_def)
    then show ?thesis by (rule that(1))
  next
    case 2
    then have "books_only f f'" using assms Good by (auto simp: Feed_Handle_def Let_def shed_delivery_def)
    then show ?thesis by (rule that(1))
  next
    case 3
    then obtain e1 f1 where q: "enqueue name j f = (e1, f1)" by (metis surj_pair)
    then have "e = e1" "f' = f1" using assms Good 3 by (simp_all add: Feed_Handle_def Let_def)
    then show ?thesis using enqueue_effect [OF q] that Good 3 by blast
  next
    case 4
    let ?s = "mark_names env j f s"
    have p: "feed_process env j f ?s = (e, f', s')"
      using 4 assms Good by (auto simp: Feed_Handle_def Let_def)
    have "books_only f f'"
      using process_blocked [of env j f ?s] process_submits [of env j f ?s] 4 p by (cases "spv_blocks env (object j) f") auto
    then show ?thesis using that(1) by blast
  qed
qed

lemma take_effect:
  assumes "fSubmit f \<noteq> None"
  obtains f' s' where "take_job env j f s = (f', s')"
    "books_only (f\<lparr>queuedBytes := queuedBytes f - int (length (object j))\<rparr>) f'"
proof -
  let ?f = "f\<lparr>queuedBytes := queuedBytes f - int (length (object j))\<rparr>"
  have "\<exists>e f' s'. feed_process env j ?f s = (e, f', s') \<and> books_only ?f f'"
    using process_blocked [of env j ?f s] process_submits [of env j ?f s] assms
    by (cases "spv_blocks env (object j) ?f") auto
  then show ?thesis using that by (auto simp: take_job_def)
qed

lemma feed_cap_upd [simp]:
  "feed_cap (f\<lparr>fq := q\<rparr>) = feed_cap f" "feed_cap (f\<lparr>queuedBytes := b\<rparr>) = feed_cap f"
  "feed_cap (f\<lparr>fstarted := x\<rparr>) = feed_cap f" "feed_cap (t\<lparr>acc_jobs := js\<rparr>) = feed_cap t"
  "feed_cap (t\<lparr>done_jobs := js\<rparr>) = feed_cap t" "feed_cap (t\<lparr>cancelled := x\<rparr>) = feed_cap t"
  "feed_cap (t\<lparr>active := n\<rparr>) = feed_cap t"
  by (simp_all add: feed_cap_def)

lemma feed_ok_step:
  assumes "feed_step fs e ft" "feed_ok c fs"
  shows "feed_ok c ft"
  using assms
proof (induction rule: feed_step.induct)
  case (handle env raw f s e f' s')
  from handle(1) show ?case
  proof (cases rule: Handle_effect)
    case 1
    then show ?thesis using handle(2) books_only_ghosts [OF 1]
      by (simp add: feed_ok_def queued_since_def books_only_fields [OF 1])
  next
    case (2 name j)
    then show ?thesis using handle(2) by (simp add: feed_ok_def queued_since_def)
  qed
next
  case (takes f j rest env s f' s')
  have sub: "fSubmit (f\<lparr>fq := rest\<rparr>) \<noteq> None" using takes(2,4) by (auto simp: feed_ok_def)
  let ?f = "f\<lparr>fq := rest, queuedBytes := queuedBytes f - int (length (object j))\<rparr>"
  have b: "books_only ?f f'"
    using take_effect [OF sub, of env j s] takes(3) by auto
  show ?case using takes(2,4) books_only_ghosts [OF b]
    by (auto simp add: feed_ok_def books_only_fields [OF b])
qed (simp_all add: feed_ok_def)

interpretation lane: transition_system "feed_start c" feed_step "feed_ok c" for c
proof unfold_locales
  fix fs assume "feed_start c fs"
  then show "feed_ok c fs" by (cases fs) (auto simp: feed_start_def feed_ok_def feed_cap_def)
qed (rule feed_ok_step)

section \<open>What a delivery can end in\<close>

lemma submit_effect_error:
  "submit_effect env name obj marker f s n c e f' s' \<Longrightarrow> e \<noteq> None \<Longrightarrow>
     (\<exists>x. e = Some (FeedSubmit name x)) \<or> e = Some FeedCtx"
  by (auto simp: submit_effect_def Let_def split: submit_end.splits)

lemma submit_names_error:
  assumes "fSubmit f \<noteq> None" "submit_names env cmp ns obj marker first f s = (e, f', s')"
  shows "e = first \<or> (\<exists>n x. e = Some (FeedSubmit n x)) \<or> e = Some FeedCtx \<or> e = None"
  using assms
proof (induction ns arbitrary: cmp first f s)
  case (Cons m ns)
  obtain n c e1 f1 s1 where one: "submitOne env m obj marker f s = (e1, f1, s1)"
    and eff: "submit_effect env m obj marker f s n c e1 f1 s1" by (rule submitOne_effect [OF Cons.prems(1)])
  define f2 where "f2 = (case cmp of None \<Rightarrow> f1 | Some vd \<Rightarrow> compare vd e1 f1)"
  have "books_only f f2"
    using submit_effect_frame [OF eff] books_only_trans books_only_compare
    by (fastforce simp: f2_def split: option.splits)
  then have "fSubmit f2 \<noteq> None" using Cons.prems(1) books_only_fields by metis
  moreover have "submit_names env None ns obj marker (if first = None then e1 else first) f2 s1 = (e, f', s')"
    using Cons.prems(2) one by (simp add: f2_def [symmetric])
  ultimately have "e = (if first = None then e1 else first) \<or> (\<exists>n x. e = Some (FeedSubmit n x)) \<or> e = Some FeedCtx \<or> e = None"
    by (rule Cons.IH)
  then show ?case using submit_effect_error [OF eff] by (cases "e1 = None") (auto split: if_splits)
qed simp

lemma process_error:
  assumes "fSubmit f \<noteq> None" "feed_process env j f s = (e, f', s')"
  shows "e = Some SPVRefusedErr \<or> (\<exists>n x. e = Some (FeedSubmit n x)) \<or> e = Some FeedCtx \<or> e = None"
proof (cases "spv_blocks env (object j) f")
  case True
  then show ?thesis using process_blocked [OF True, of s] assms(2) by auto
next
  case False
  define f1 where "f1 = (if feed_verifies f then
    tally (\<lambda>c. c\<lparr>c_verifyScripts := c_verifyScripts c + of_nat (vScripts (run_verify env (object j)))\<rparr>) f else f)"
  have sub: "fSubmit f1 \<noteq> None" using assms(1) by (simp add: f1_def tally_def)
  have "submit_names env (if feed_verifies f \<and> VerifyMode f = VerifyShadow then Some (run_verify env (object j)) else None)
      (names j) (object j) (process_marker env (object j) f) None f1 s = (e, f', s')"
    using False assms(2) unfolding feed_process_def Let_def f1_def [symmetric] spv_blocks_def by (simp only: if_False)
  then show ?thesis using submit_names_error [OF sub] by blast
qed

definition record_refusals :: "feed_err list" where
  "record_refusals = [DecodeDelivery, LengthDisagrees, DecodePayload, ErrReject]"

lemma Handle_refused:
  assumes "Feed_Handle env raw f s = (Some e, f', s')" "e \<in> set record_refusals"
  shows "\<exists>u. inspect env f raw = Bad e u \<and> f' = tally u f \<and> s' = s"
proof (cases "inspect env f raw")
  case (Bad x u)
  then show ?thesis using assms(1) by (simp add: Feed_Handle_def)
next
  case (Good name j)
  have no: "e \<notin> {NotStarted, ErrShed, SPVRefusedErr, FeedCtx}" "\<And>n x. e \<noteq> FeedSubmit n x"
    using assms(2) by (auto simp: record_refusals_def)
  have sub: "fSubmit f \<noteq> None"
  proof
    assume "fSubmit f = None"
    then show False using assms(1) Good by (simp add: Feed_Handle_def Let_def)
  qed
  show ?thesis
  proof (cases "fWorkers f > 0")
    case True
    obtain e1 f1 where q: "enqueue name j f = (e1, f1)" by (metis surj_pair)
    then have "Some e = Some NotStarted \<or> Some e = e1"
      using assms(1) Good sub True by (auto simp: Feed_Handle_def Let_def split: if_splits)
    then show ?thesis using enqueue_effect [OF q] no by auto
  next
    case False
    then have "feed_process env j f (mark_names env j f s) = (Some e, f', s')"
      using assms(1) Good sub by (auto simp: Feed_Handle_def Let_def)
    from process_error [OF sub this] no show ?thesis by auto
  qed
qed

lemma inspect_Good:
  assumes "inspect env f raw = Good name j"
  shows "\<exists>tid payload named. decode_delivery env raw = Some (tid, payload, length raw) \<and>
    split_payload env payload = Some (object j, named) \<and> int (length (object j)) \<le> maxObject env f \<and>
    is_beef env (object j) \<and> Topics f tid = Some name \<and> names j = elected_names env (Topics f) name named"
  using assms unfolding inspect_def
  by (auto simp: parse_failed_def split: option.splits if_splits prod.splits)

lemma enqueue_site: "registry (mark_names env j f s) = (if fGuard f then
    mark_delivered env (content_id env (object j)) (names j) (registry s) else registry s)"
  "calls (mark_names env j f s) = calls s" "alsos (mark_names env j f s) = alsos s"
  "shadows (mark_names env j f s) = shadows s"
  by (simp_all add: mark_names_def)

section \<open>A concrete feed\<close>

text \<open>
  A small instance for the witnesses: a registry that is a map, a record whose first byte is the topic identifier, and
  an engine that refuses topic \<open>b\<close> and admits one output of everything else.
\<close>

definition map_registry :: "(bytes \<Rightarrow> direction option) registry_ops" where
  "map_registry = \<lparr>reg_mark = (\<lambda>k d g. (g k, g(k := Some d))), reg_lookup = (\<lambda>k g. g k), digest = (\<lambda>b. b)\<rparr>"

definition sample_tid :: "string \<Rightarrow> hash" where
  "sample_tid n = map (\<lambda>c. word_of_nat (of_char c)) n"

definition sample_adm :: adm where
  "sample_adm = empty_adm\<lparr>OutputsToAdmit := Some [0]\<rparr>"

definition sample_verdict :: verdict where
  "sample_verdict = \<lparr>vResult = ResultOK, vReason = ReasonNone, vTxID = [], vTransactions = 1, vScripts = 1, vErr = None\<rparr>"

definition sample_feed_env :: "(bytes \<Rightarrow> direction option) feed_env" where
  "sample_feed_env = \<lparr>decode_delivery = (\<lambda>r. if r = [] then None else Some ([hd r], tl r, length r)),
     split_payload = (\<lambda>p. Some (p, [''a'', ''b'', ''x''])), is_beef = (\<lambda>b. b \<noteq> []), topic_id = sample_tid,
     content_id = (\<lambda>b. b), default_max = 8, reg_ops = map_registry, run_verify = (\<lambda>_. sample_verdict),
     takes_marker = (\<lambda>_. True),
     engine_reply = (\<lambda>n c. if call_topic c = ''b'' then Inl (StatusError 400 []) else Inr (\<lambda>_. Some (Some sample_adm))),
     ctx_over = (\<lambda>_. False), ctx_over_waiting = (\<lambda>_. False)\<rparr>"

definition zero_counters :: counters where
  "zero_counters = \<lparr>c_submitted = 0, c_engineError = 0, c_parseError = 0, c_unknownTopic = 0, c_rejected = 0, c_sunk = 0,
     c_shed = 0, c_retried = 0, c_engineRefused = 0, c_spvRefused = 0, c_verifyScripts = 0, c_mismatch = (\<lambda>_. 0),
     c_steak = (\<lambda>_. 0), c_shedRoute = (\<lambda>_. 0)\<rparr>"

definition sample_feed :: feed_sys where
  "sample_feed = \<lparr>Topics = (\<lambda>h. if h = [97] then Some ''a'' else if h = [98] then Some ''b'' else None),
     fSubmit = Some 0, fGuard = True, MaxObject = 0, fWorkers = 1, SubmitRetries = 0, SubmitBackoff = 0, fQueueDepth = 2,
     fQueueBytes = 10, fVerify = True, VerifyMode = VerifyEnforce, MarkerKey = replicate 32 1, fShadow = None,
     fRoutes = [], cnt = zero_counters, observed = [], fq = [], queuedBytes = 0, fstarted = False, acc_jobs = [],
     done_jobs = [], cancelled = False, active = 0\<rparr>"

definition sample_site :: "(bytes \<Rightarrow> direction option) site" where
  "sample_site = \<lparr>registry = (\<lambda>_. None), alsos = (\<lambda>_. also_target.truncate sample_also),
     shadows = (\<lambda>_. shadow_target.truncate sample_shadow), calls = []\<rparr>"

definition sample_delivery :: job where
  "sample_delivery = \<lparr>names = [''a'', ''b''], object = [1, 2]\<rparr>"

lemmas sample_feed_defs = sample_feed_def sample_feed_env_def sample_site_def sample_delivery_def sample_tid_def map_registry_def
  sample_verdict_def

lemma sample_inspect: "inspect sample_feed_env (sample_feed\<lparr>fstarted := b, active := n\<rparr>) [97, 1, 2] = Good ''a'' sample_delivery"
  by (simp add: inspect_def maxObject_def elected_names_def sample_feed_defs)

section \<open>Properties\<close>

text \<open>
  A delivery refused on its form (it does not decode, the codec and the lane disagree on its length, its object is
  too large, carries no BEEF marker, or its topic is not elected) leaves no trace but one counter: the guard, the
  queue, the engines, the shadows and the other targets are exactly as before.
\<close>

theorem refused_deliveries_leave_no_trace:
  assumes "Feed_Handle env raw f s = (Some e, f', s')" and "e \<in> set record_refusals"
  shows "s' = s \<and> books_only f f' \<and> observed f' = observed f \<and>
    c_parseError (cnt f') + c_rejected (cnt f') + c_unknownTopic (cnt f') =
    c_parseError (cnt f) + c_rejected (cnt f) + c_unknownTopic (cnt f) + 1"
proof -
  obtain u where u: "inspect env f raw = Bad e u" "f' = tally u f" "s' = s" using Handle_refused [OF assms] by blast
  have "c_parseError (u (cnt f)) + c_rejected (u (cnt f)) + c_unknownTopic (u (cnt f)) =
      c_parseError (cnt f) + c_rejected (cnt f) + c_unknownTopic (cnt f) + 1"
    using u(1) unfolding inspect_def by (auto simp: parse_failed_def split: option.splits if_splits prod.splits)
  then show ?thesis using u(2,3) by (simp add: tally_def) (metis books_only_tally tally_def)
qed

theorem refused_deliveries_leave_no_trace_witness:
  "\<exists>f'. Feed_Handle sample_feed_env [99, 1] sample_feed sample_site = (Some ErrReject, f', sample_site) \<and>
     c_unknownTopic (cnt f') = 1 \<and>
     c_parseError (cnt f') + c_rejected (cnt f') + c_unknownTopic (cnt f') =
       c_parseError (cnt sample_feed) + c_rejected (cnt sample_feed) + c_unknownTopic (cnt sample_feed) + 1"
proof -
  let ?f = "tally (\<lambda>c. c\<lparr>c_unknownTopic := c_unknownTopic c + 1\<rparr>) sample_feed"
  have h: "Feed_Handle sample_feed_env [99, 1] sample_feed sample_site = (Some ErrReject, ?f, sample_site)"
    by (simp add: Feed_Handle_def inspect_def maxObject_def sample_feed_defs)
  have "c_unknownTopic (cnt ?f) = 1" by (simp add: tally_def sample_feed_def zero_counters_def)
  with refused_deliveries_leave_no_trace [OF h] h show ?thesis by (auto simp: record_refusals_def)
qed



lemma process_gate:
  assumes "feed_process env j f s = (e, f', s')" and "fSubmit f \<noteq> None"
  shows "spv_blocks env (object j) f \<Longrightarrow> e = Some SPVRefusedErr \<and> s' = s"
    and "\<not> spv_blocks env (object j) f \<Longrightarrow> set (names j) \<subseteq> call_topic ` set (new_calls s s')"
    and "c \<in> set (new_calls s s') \<Longrightarrow> call_topic c \<in> set (names j) \<and> call_object c = object j \<and>
      fst (enginesFor f (call_topic c)) = Some (call_engine c)"
    and "c \<in> set (new_calls s s') \<Longrightarrow> call_marker c \<noteq> [] \<Longrightarrow>
      fVerify f \<and> VerifyMode f = VerifyEnforce \<and> vResult (run_verify env (object j)) = ResultOK \<and>
      32 \<le> length (MarkerKey f) \<and> call_marker c = Marker (digest (reg_ops env)) (MarkerKey f) (object j)"
proof -
  have blocked: "e = Some SPVRefusedErr \<and> s' = s" if "spv_blocks env (object j) f"
    using process_blocked [OF that, of s] assms(1) by auto
  then show "spv_blocks env (object j) f \<Longrightarrow> e = Some SPVRefusedErr \<and> s' = s" .
  have sent: "calls_for env (names j) (object j) (process_marker env (object j) f) f (new_calls s s')"
    if "\<not> spv_blocks env (object j) f"
    using process_submits [OF that assms(2), of s] assms(1) by (auto simp: new_calls_def)
  then show "\<not> spv_blocks env (object j) f \<Longrightarrow> set (names j) \<subseteq> call_topic ` set (new_calls s s')"
    by (simp add: calls_for_def)
  have each: "call_topic c \<in> set (names j) \<and> fst (enginesFor f (call_topic c)) = Some (call_engine c) \<and>
      c = make_call env (call_engine c) (call_topic c) (object j) (process_marker env (object j) f)"
    if "c \<in> set (new_calls s s')" for c
  proof -
    have "\<not> spv_blocks env (object j) f" using that blocked by (auto simp: new_calls_def)
    then show ?thesis using sent that by (simp add: calls_for_def list_all_iff)
  qed
  show "c \<in> set (new_calls s s') \<Longrightarrow> call_topic c \<in> set (names j) \<and> call_object c = object j \<and>
      fst (enginesFor f (call_topic c)) = Some (call_engine c)"
    using each [of c] by (metis engine_call.select_convs(3) make_call_def)
  assume "c \<in> set (new_calls s s')" "call_marker c \<noteq> []"
  moreover have "call_marker (make_call env i n obj m) \<noteq> [] \<Longrightarrow> call_marker (make_call env i n obj m) = m" for i n obj m
    by (simp add: make_call_def split: if_splits)
  ultimately have m: "call_marker c = process_marker env (object j) f" using each by metis
  with \<open>call_marker c \<noteq> []\<close> show "fVerify f \<and> VerifyMode f = VerifyEnforce \<and> vResult (run_verify env (object j)) = ResultOK \<and>
      32 \<le> length (MarkerKey f) \<and> call_marker c = Marker (digest (reg_ops env)) (MarkerKey f) (object j)"
    by (auto simp: process_marker_def feed_verifies_def MinKeyBytes_def split: if_splits)
qed

text \<open>
  C5. The verification gate of a job. In enforce mode an object the bridge's verifier refuses reaches no engine, no
  shadow and no other target. Otherwise every topic of the job is tried at its own primary, with the job's object
  unchanged, whatever earlier topics answered; and a trust marker is only ever sent in enforce mode, for an object
  that passed, under a key of at least 32 bytes, and is the marker of exactly that object.
\<close>

theorem verification_gates_submits:
  assumes "feed_process env j f s = (e, f', s')" and "fSubmit f \<noteq> None"
  shows "(if spv_blocks env (object j) f then e = Some SPVRefusedErr \<and> s' = s
      else set (names j) \<subseteq> call_topic ` set (new_calls s s')) \<and>
    (\<forall>c \<in> set (new_calls s s'). call_topic c \<in> set (names j) \<and> call_object c = object j \<and>
      fst (enginesFor f (call_topic c)) = Some (call_engine c) \<and>
      (call_marker c \<noteq> [] \<longrightarrow>
        fVerify f \<and> VerifyMode f = VerifyEnforce \<and> vResult (run_verify env (object j)) = ResultOK \<and>
        32 \<le> length (MarkerKey f) \<and> call_marker c = Marker (digest (reg_ops env)) (MarkerKey f) (object j)))"
  using process_gate [OF assms] by simp

theorem verification_gates_submits_witness:
  "\<exists>e f' s'. feed_process sample_feed_env sample_delivery sample_feed sample_site = (e, f', s') \<and>
     {''a'', ''b''} \<subseteq> call_topic ` set (new_calls sample_site s')"
proof -
  obtain e f' s' where p: "feed_process sample_feed_env sample_delivery sample_feed sample_site = (e, f', s')" by (metis surj_pair)
  have "fSubmit sample_feed \<noteq> None" "\<not> spv_blocks sample_feed_env (object sample_delivery) sample_feed"
    by (simp_all add: sample_feed_defs spv_blocks_def)
  from verification_gates_submits [OF p this(1)] this(2) p show ?thesis by (auto simp: sample_delivery_def)
qed

lemma submitOne_booked:
  assumes "submitOne env name obj marker f s = (e, f', s')" and "fSubmit f \<noteq> None"
  shows "e = None \<Longrightarrow> c_submitted (cnt f') = c_submitted (cnt f) + 1 \<and>
      c_engineRefused (cnt f') = c_engineRefused (cnt f) \<and> c_engineError (cnt f') = c_engineError (cnt f)"
    and "engine_refused e \<Longrightarrow> c_engineRefused (cnt f') = c_engineRefused (cnt f) + 1 \<and>
      c_submitted (cnt f') = c_submitted (cnt f) \<and> c_engineError (cnt f') = c_engineError (cnt f)"
    and "e \<noteq> None \<Longrightarrow> \<not> engine_refused e \<Longrightarrow> e \<noteq> Some FeedCtx \<Longrightarrow>
      c_engineError (cnt f') = c_engineError (cnt f) + 1 \<and>
      c_submitted (cnt f') = c_submitted (cnt f) \<and> c_engineRefused (cnt f') = c_engineRefused (cnt f)"
    and "e \<noteq> Some FeedCtx \<Longrightarrow> \<exists>oc p. observed f' = observed f @ [oc] \<and>
      shadows s' = offer_shadow (snd (enginesFor f name)) name obj marker p (shadows s)"
    and "e = Some FeedCtx \<Longrightarrow> f' = f \<and> shadows s' = shadows s"
proof -
  obtain n c where "submit_effect env name obj marker f s n c e f' s'"
    using submitOne_effect [OF assms(2), of env name obj marker s] assms(1) by auto
  note eff = this [unfolded submit_effect_def Let_def]
  note books = book_answer_def book_refusal_def book_failure_def tally_def observe_def addSteak_def
    engine_refused_def Let_def
  show "e = None \<Longrightarrow> c_submitted (cnt f') = c_submitted (cnt f) + 1 \<and>
      c_engineRefused (cnt f') = c_engineRefused (cnt f) \<and> c_engineError (cnt f') = c_engineError (cnt f)"
    using eff by (auto simp: books split: submit_end.splits)
  show "engine_refused e \<Longrightarrow> c_engineRefused (cnt f') = c_engineRefused (cnt f) + 1 \<and>
      c_submitted (cnt f') = c_submitted (cnt f) \<and> c_engineError (cnt f') = c_engineError (cnt f)"
    using eff by (auto simp: books split: submit_end.splits)
  show "e \<noteq> None \<Longrightarrow> \<not> engine_refused e \<Longrightarrow> e \<noteq> Some FeedCtx \<Longrightarrow>
      c_engineError (cnt f') = c_engineError (cnt f) + 1 \<and>
      c_submitted (cnt f') = c_submitted (cnt f) \<and> c_engineRefused (cnt f') = c_engineRefused (cnt f)"
    using eff by (auto simp: books split: submit_end.splits)
  show "e \<noteq> Some FeedCtx \<Longrightarrow> \<exists>oc p. observed f' = observed f @ [oc] \<and>
      shadows s' = offer_shadow (snd (enginesFor f name)) name obj marker p (shadows s)"
    using eff by (auto simp: books split: submit_end.splits)
  show "e = Some FeedCtx \<Longrightarrow> f' = f \<and> shadows s' = shadows s"
    using eff by (auto simp: books split: submit_end.splits)
qed

text \<open>
  C21. Each submit of an object to a topic is booked exactly once: one outcome is observed and exactly one of the
  submitted, refused and failed counters moves, in agreement with the error returned; the shadow is offered the
  object. The one exception is a context that ends during the wait between two attempts: the submit then returns
  with nothing counted, nothing observed and nothing offered to the shadow.
\<close>

theorem each_submit_booked_once:
  assumes "submitOne env name obj marker f s = (e, f', s')" and "fSubmit f \<noteq> None"
  shows "if e = Some FeedCtx then f' = f \<and> shadows s' = shadows s
    else (\<exists>oc p. observed f' = observed f @ [oc] \<and>
        shadows s' = offer_shadow (snd (enginesFor f name)) name obj marker p (shadows s)) \<and>
      c_submitted (cnt f') = c_submitted (cnt f) + (if e = None then 1 else 0) \<and>
      c_engineRefused (cnt f') = c_engineRefused (cnt f) + (if engine_refused e then 1 else 0) \<and>
      c_engineError (cnt f') = c_engineError (cnt f) + (if e \<noteq> None \<and> \<not> engine_refused e then 1 else 0)"
  using submitOne_booked [OF assms] by (cases "e = None") (auto simp: engine_refused_def)

theorem each_submit_booked_once_witness:
  "\<exists>f' s'. submitOne sample_feed_env ''b'' [1] [] sample_feed sample_site = (Some (FeedSubmit ''b'' (StatusError 400 [])), f', s') \<and>
     c_engineRefused (cnt f') = 1 \<and> c_submitted (cnt f') = 0 \<and> c_engineError (cnt f') = 0"
proof -
  have "\<exists>f' s'. submitOne sample_feed_env ''b'' [1] [] sample_feed sample_site = (Some (FeedSubmit ''b'' (StatusError 400 [])), f', s')"
    by (simp add: submitOne_def enginesFor_def route_engines_def make_call_def feed_attempts_def submit_loop.simps
        Refused_def sample_feed_defs)
  then obtain f' s' where h:
    "submitOne sample_feed_env ''b'' [1] [] sample_feed sample_site = (Some (FeedSubmit ''b'' (StatusError 400 [])), f', s')" by blast
  have "fSubmit sample_feed \<noteq> None" by (simp add: sample_feed_def)
  from each_submit_booked_once [OF h this] h show ?thesis
    by (auto simp: engine_refused_def Refused_def sample_feed_def zero_counters_def)
qed

text \<open>
  C8. Between the lane and the workers nothing is lost, duplicated or reordered: in every reachable state the jobs
  ever queued are exactly those the workers have taken followed by those still waiting; the byte counter is
  the bytes waiting, within the configured bound, and the depth is never exceeded.
\<close>

theorem feed_queue_fifo_and_bounded:
  assumes "feed_start c fs0" and "run feed_step fs0 es (f, s)"
  shows "acc_jobs f = done_jobs f @ fq f \<and> queuedBytes f = total_bytes (fq f) \<and>
    length (fq f) \<le> feed_cap c \<and> (fQueueBytes c > 0 \<longrightarrow> total_bytes (fq f) \<le> fQueueBytes c)"
  using lane.invar_reach [OF assms] by (simp add: feed_ok_def)

lemma sample_start: "feed_start sample_feed (sample_feed, sample_site)"
  by (simp add: feed_start_def sample_feed_def)

lemma sample_run:
  "\<exists>f s. run feed_step (sample_feed, sample_site) [FStart, FHandle sample_feed_env [97, 1, 2]] (f, s) \<and>
     fq f = [sample_delivery] \<and> active f = 1"
proof -
  have "\<exists>f' s'. Feed_Handle sample_feed_env [97, 1, 2] (sample_feed\<lparr>fstarted := True, active := 1\<rparr>) sample_site = (None, f', s') \<and>
      fq f' = [sample_delivery] \<and> active f' = 1"
    using sample_inspect [of 1 True]
    by (simp add: Feed_Handle_def enqueue_def feed_cap_def sample_feed_def sample_delivery_def)
  then obtain f' s' where h: "Feed_Handle sample_feed_env [97, 1, 2] (sample_feed\<lparr>fstarted := True, active := 1\<rparr>) sample_site = (None, f', s')"
    "fq f' = [sample_delivery]" "active f' = 1" by blast
  have "sample_feed\<lparr>fstarted := True, active := nat (fWorkers sample_feed), cancelled := False\<rparr> =
      sample_feed\<lparr>fstarted := True, active := 1\<rparr>" "fWorkers sample_feed > 0" "\<not> fstarted sample_feed"
    by (simp_all add: sample_feed_def)
  then have st: "feed_step (sample_feed, sample_site) FStart (sample_feed\<lparr>fstarted := True, active := 1\<rparr>, sample_site)"
    using feed_step.start [of sample_feed sample_site] by simp
  have "run feed_step (sample_feed, sample_site) [FStart, FHandle sample_feed_env [97, 1, 2]]
      (queued_since (sample_feed\<lparr>fstarted := True, active := 1\<rparr>) f', s')"
    by (rule run_Cons, rule st, rule run_Cons, rule feed_step.handle [OF h(1)], rule run_Nil)
  then show ?thesis using h(2,3) by (auto simp: queued_since_def)
qed

theorem feed_queue_fifo_and_bounded_witness:
  "\<exists>f s. run feed_step (sample_feed, sample_site) [FStart, FHandle sample_feed_env [97, 1, 2]] (f, s) \<and>
     acc_jobs f = done_jobs f @ [sample_delivery] \<and> queuedBytes f = 2"
proof -
  obtain f s where r: "run feed_step (sample_feed, sample_site) [FStart, FHandle sample_feed_env [97, 1, 2]] (f, s)"
    "fq f = [sample_delivery]" using sample_run by blast
  with feed_queue_fifo_and_bounded [OF sample_start r(1)] show ?thesis
    by (intro exI [of _ f] exI [of _ s]) (simp add: sample_delivery_def)
qed



end
