(* ===== verification/Facade_Props.thy ===== *)
theory Facade_Props
  imports Facade_Core Feed_Props
begin

text \<open>
  What the facade's handler does with a submission: which records it publishes, which engines it asks, what it leaves
  of the guard, and how the publisher's callback closes the loop with the feed.
\<close>

section \<open>Frames\<close>

lemma answer_topic_frame:
  assumes "answer_topic env addr obj name acc f s = (r, f1, s1)"
  shows "registry s1 = registry s" "alsos s1 = alsos s" "fac_Guard f1 = fac_Guard f" "fac_Routes f1 = fac_Routes f"
    "fac_Publish f1 = fac_Publish f" "taken f1 = taken f" "offered f1 = offered f" "Trusted f1 = Trusted f"
    "fac_Engine f1 = fac_Engine f" "fac_Shadow f1 = fac_Shadow f"
  using assms by (auto simp: answer_topic_def Let_def split: if_splits prod.splits sum.splits)

definition facade_call :: "facade \<Rightarrow> bytes \<Rightarrow> string \<Rightarrow> engine_call" where
  "facade_call f obj name = \<lparr>call_engine = fst (fac_enginesFor f name), call_topic = name, call_object = obj, call_marker = []\<rparr>"

lemma answer_topic_calls:
  assumes "answer_topic env addr obj name acc f s = (r, f1, s1)"
  shows "calls s1 = calls s @ (if trusted_source env f addr name then [] else [facade_call f obj name])"
  using assms by (auto simp: answer_topic_def facade_call_def Let_def split: if_splits prod.splits sum.splits)

lemma publish_topic_frame:
  assumes "publish_topic env buf first obj name f = (p, f1)"
  shows "fac_Guard f1 = fac_Guard f" "fac_Routes f1 = fac_Routes f" "fac_Publish f1 = fac_Publish f"
    "Trusted f1 = Trusted f" "fac_Engine f1 = fac_Engine f" "fac_Shadow f1 = fac_Shadow f"
  using assms by (auto simp: publish_topic_def Let_def split: if_splits option.splits)

definition publication_of :: "'g facade_env \<Rightarrow> bytes option \<Rightarrow> string \<Rightarrow> bytes \<Rightarrow> string \<Rightarrow> publication" where
  "publication_of env buf first obj name = \<lparr>p_topic = name, p_record = the (topic_record env buf first name obj),
     p_content = content_id (fbase env) obj, p_topicID = topic_id (fbase env) name\<rparr>"

lemma publish_topic_taken:
  assumes "publish_topic env buf first obj name f = (p, f1)"
  shows "p = Published_ok \<Longrightarrow> taken f1 = taken f @ [publication_of env buf first obj name] \<and>
      topic_record env buf first name obj \<noteq> None"
    and "p = Encode_failed \<Longrightarrow> taken f1 = taken f \<and> topic_record env buf first name obj = None"
    and "p = Not_taken \<Longrightarrow> taken f1 = taken f \<and> topic_record env buf first name obj \<noteq> None"
  using assms by (auto simp: publish_topic_def publication_of_def Let_def split: if_splits option.splits)

text \<open>The topics of a submission that a publication is due for.\<close>

definition due :: "'g facade_env \<Rightarrow> facade \<Rightarrow> bytes option \<Rightarrow> string \<Rightarrow> bytes \<Rightarrow> 'g site \<Rightarrow> string \<Rightarrow> bool" where
  "due env f buf first obj s n \<longleftrightarrow> fac_Publish f \<and> \<not> known env f obj n s \<and> topic_record env buf first n obj \<noteq> None"

lemma known_cong: "fac_Guard f' = fac_Guard f \<Longrightarrow> registry s' = registry s \<Longrightarrow> known env f' obj n s' = known env f obj n s"
  by (simp add: known_def)

text \<open>
  What a pass over the topics leaves: the guard untouched, a prefix of the due publications taken (all of them when
  every topic was passed), and one unmarked request to its engine for each untrusted topic passed.
\<close>

definition topics_effect :: "'g facade_env \<Rightarrow> string \<Rightarrow> bytes option \<Rightarrow> string \<Rightarrow> bytes \<Rightarrow> string list \<Rightarrow> facade \<Rightarrow> 'g site \<Rightarrow>
    reply \<Rightarrow> facade \<Rightarrow> 'g site \<Rightarrow> string list \<Rightarrow> string list \<Rightarrow> bool" where
  "topics_effect env addr buf first obj ns f s rep f' s' pubs asked \<longleftrightarrow>
     registry s' = registry s \<and>
     taken f' = taken f @ map (publication_of env buf first obj) (filter (due env f buf first obj s) pubs) \<and>
     calls s' = calls s @ map (facade_call f obj) (filter (\<lambda>n. \<not> trusted_source env f addr n) asked) \<and>
     (case rep of
        Steaks st w \<Rightarrow> pubs = ns \<and> asked = ns
      | Unpublished \<Rightarrow> fac_Publish f \<and> (\<exists>n rest. ns = pubs @ n # rest \<and> asked = pubs @ [n] \<and> \<not> known env f obj n s)
      | HttpError code \<Rightarrow> code = 502 \<and> (\<exists>n rest. ns = pubs @ n # rest \<and> asked = pubs @ [n] \<and> \<not> trusted_source env f addr n))"

lemma facade_cong:
  assumes "fac_Guard f1 = fac_Guard f" "fac_Routes f1 = fac_Routes f" "fac_Publish f1 = fac_Publish f"
    "Trusted f1 = Trusted f" "fac_Engine f1 = fac_Engine f" "fac_Shadow f1 = fac_Shadow f" "registry s1 = registry s"
  shows "due env f1 buf first obj s1 = due env f buf first obj s" "facade_call f1 obj = facade_call f obj"
    "trusted_source env f1 = trusted_source env f" "known env f1 obj n s1 = known env f obj n s"
proof -
  have "fac_enginesFor f1 = fac_enginesFor f" unfolding fac_enginesFor_def assms by (rule refl)
  then show "facade_call f1 obj = facade_call f obj" by (simp add: facade_call_def fun_eq_iff)
qed (simp_all add: assms due_def trusted_source_def known_def fun_eq_iff)

lemma topics_effect_step:
  assumes "topics_effect env addr buf first obj ns f1 s1 rep f' s' pubs asked"
    and "fac_Guard f1 = fac_Guard f" "fac_Routes f1 = fac_Routes f" "fac_Publish f1 = fac_Publish f"
      "Trusted f1 = Trusted f" "fac_Engine f1 = fac_Engine f" "fac_Shadow f1 = fac_Shadow f" "registry s1 = registry s"
    and "taken f1 = taken f @ (if due env f buf first obj s m then [publication_of env buf first obj m] else [])"
    and "calls s1 = calls s @ (if trusted_source env f addr m then [] else [facade_call f obj m])"
  shows "topics_effect env addr buf first obj (m # ns) f s rep f' s' (m # pubs) (m # asked)"
  using assms facade_cong [OF assms(2-8)] unfolding topics_effect_def
  by (auto split: reply.splits)

lemma submit_topics_effect:
  "submit_topics env addr buf first obj ns acc f s = (rep, f', s') \<Longrightarrow>
   \<exists>pubs asked. topics_effect env addr buf first obj ns f s rep f' s' pubs asked"
proof (induction ns arbitrary: acc f s)
  case Nil
  then show ?case by (intro exI [of _ "[]"]) (auto simp: topics_effect_def)
next
  case (Cons m ns)
  obtain r f1 s1 where a: "answer_topic env addr obj m acc f s = (r, f1, s1)" by (metis surj_pair)
  note fr = answer_topic_frame [OF a] and ca = answer_topic_calls [OF a]
  have untrusted: "\<not> trusted_source env f addr m" if "r = None"
    using a that by (auto simp: answer_topic_def split: if_splits)
  define s2 where "s2 = (if trusted_source env f addr m then s1
    else s1\<lparr>alsos := OfferAlso (RouteFor (fac_Routes f1) m) m obj (alsos s1)\<rparr>)"
  have s2: "registry s2 = registry s" "calls s2 = calls s1" using fr by (simp_all add: s2_def)
  consider "r = None" | acc1 where "r = Some acc1" "known env f obj m s"
    | acc1 where "r = Some acc1" "\<not> known env f obj m s" "\<not> fac_Publish f"
    | acc1 where "r = Some acc1" "\<not> known env f obj m s" "fac_Publish f" by (cases r) blast+
  then show ?case
  proof cases
    case 1
    then have "rep = HttpError 502" "f' = f1" "s' = s1" using Cons.prems a by simp_all
    then show ?thesis using untrusted [OF 1] fr ca
      by (intro exI [of _ "[]"] exI [of _ "[m]"]) (auto simp: topics_effect_def)
  next
    case (2 acc1)
    let ?f = "f1\<lparr>n_loopDropped := n_loopDropped f1 + 1\<rparr>"
    have "submit_topics env addr buf first obj ns acc1 ?f s1 = (rep, f', s')" using Cons.prems a 2 by simp
    from Cons.IH [OF this] obtain pubs asked where "topics_effect env addr buf first obj ns ?f s1 rep f' s' pubs asked" by blast
    moreover have "\<not> due env f buf first obj s m" using 2 by (simp add: due_def)
    ultimately have "topics_effect env addr buf first obj (m # ns) f s rep f' s' (m # pubs) (m # asked)"
      using fr ca by (intro topics_effect_step [of _ _ _ _ _ _ ?f s1]) simp_all
    then show ?thesis by blast
  next
    case (3 acc1)
    have "submit_topics env addr buf first obj ns acc1 f1 s2 = (rep, f', s')"
      using Cons.prems a 3 fr by (simp add: s2_def)
    from Cons.IH [OF this] obtain pubs asked where "topics_effect env addr buf first obj ns f1 s2 rep f' s' pubs asked" by blast
    moreover have "\<not> due env f buf first obj s m" using 3 by (simp add: due_def)
    ultimately have "topics_effect env addr buf first obj (m # ns) f s rep f' s' (m # pubs) (m # asked)"
      using fr ca s2 by (intro topics_effect_step [of _ _ _ _ _ _ f1 s2]) simp_all
    then show ?thesis by blast
  next
    case (4 acc1)
    obtain p f2 where pt: "publish_topic env buf first obj m f1 = (p, f2)" by (metis surj_pair)
    note pf = publish_topic_frame [OF pt] and tk = publish_topic_taken [OF pt]
    show ?thesis
    proof (cases "p = Not_taken")
      case True
      then have "rep = Unpublished" "f' = f2" "s' = s2" using Cons.prems a 4 fr pt by (simp_all add: s2_def)
      then show ?thesis using 4 fr ca s2 tk(3) [OF True]
        by (intro exI [of _ "[]"] exI [of _ "[m]"]) (auto simp: topics_effect_def)
    next
      case False
      then have "submit_topics env addr buf first obj ns acc1 f2 s2 = (rep, f', s')"
        using Cons.prems a 4 fr pt by (cases p) (simp_all add: s2_def)
      from Cons.IH [OF this] obtain pubs asked where e: "topics_effect env addr buf first obj ns f2 s2 rep f' s' pubs asked" by blast
      have "taken f2 = taken f @ (if due env f buf first obj s m then [publication_of env buf first obj m] else [])"
        using tk fr 4 False by (cases p) (simp_all add: due_def)
      with e have "topics_effect env addr buf first obj (m # ns) f s rep f' s' (m # pubs) (m # asked)"
        using fr ca s2 pf by (intro topics_effect_step [of _ _ _ _ _ _ f2 s2]) simp_all
      then show ?thesis by blast
    qed
  qed
qed

section \<open>The handler\<close>

text \<open>A submission that passes the form checks: its topics, its object and the buffer it was read into.\<close>

definition read_submission :: "'g facade_env \<Rightarrow> http_request \<Rightarrow> facade \<Rightarrow> string list \<Rightarrow> bytes \<Rightarrow> bytes option \<Rightarrow> bool" where
  "read_submission env r f topics obj buf \<longleftrightarrow> ParseTopics (x_topics r) = Inr topics \<and>
     readBodyAfter r (fac_maxObject env f)
       (if ContentLength r > 0 \<and> topics \<noteq> [] then encode_header env [hd topics] (ContentLength r) else None) = Inr (obj, buf) \<and>
     is_beef (fbase env) obj \<and> list_all (\<lambda>n. n \<in> fac_Topics f) topics"

lemma facade_submit_effect:
  assumes "facade_submit env r f s = (rep, f', s')"
  obtains code where "rep = HttpError code" "code \<in> {400, 413}" "s' = s" "taken f' = taken f"
  | topics obj buf pubs asked where "read_submission env r f topics obj buf"
      "topics_effect env (RemoteAddr r) buf (hd topics) obj topics f s rep f' s' pubs asked"
proof (cases "ParseTopics (x_topics r)")
  case (Inl e)
  then show ?thesis using assms that(1) [of 400] by (auto simp: facade_submit_def malformed_def)
next
  case (Inr topics)
  define body where "body = readBodyAfter r (fac_maxObject env f)
    (if ContentLength r > 0 \<and> topics \<noteq> [] then encode_header env [hd topics] (ContentLength r) else None)"
  show ?thesis
  proof (cases body)
    case (Inl e)
    then have "rep = HttpError (if e = TooLarge then 413 else 400)" "s' = s" "f' = malformed f"
      using assms Inr by (cases e; simp add: facade_submit_def body_def Let_def)+
    then show ?thesis using that(1) by (simp add: malformed_def)
  next
    case b: (Inr ob)
    obtain obj buf where ob: "ob = (obj, buf)" by (metis surj_pair)
    show ?thesis
    proof (cases "is_beef (fbase env) obj \<and> list_all (\<lambda>n. n \<in> fac_Topics f) topics")
      case True
      then have "submit_topics env (RemoteAddr r) buf (hd topics) obj topics (nil_steak, False) f s = (rep, f', s')"
        using assms Inr b ob by (simp add: facade_submit_def body_def Let_def)
      from submit_topics_effect [OF this] show ?thesis
        using that(2) Inr b ob True by (auto simp: read_submission_def body_def)
    next
      case False
      then have "rep = HttpError 400" "s' = s" "taken f' = taken f"
        using assms Inr b ob by (auto simp: facade_submit_def body_def Let_def malformed_def split: if_splits)
      then show ?thesis using that(1) by simp
    qed
  qed
qed

text \<open>What the codec promises: a record is its envelope followed by the object.\<close>

definition envelope_law :: "'g facade_env \<Rightarrow> bool" where
  "envelope_law env \<longleftrightarrow> (\<forall>n obj. encode_record env [n] obj = map_option (\<lambda>h. h @ obj) (encode_header env [n] (int (length obj))))"

lemma topic_record_encoded:
  assumes "envelope_law env" "read_submission env r f topics obj buf"
  shows "topic_record env buf (hd topics) n obj = encode_record env [n] obj"
proof -
  have "buf = None \<or> (\<exists>h. encode_header env [hd topics] (int (length obj)) = Some h \<and> buf = Some (h @ obj))"
    using assms(2) by (auto simp: read_submission_def readBodyAfter_def Let_def split: if_splits option.splits)
  then show ?thesis using assms(1) by (auto simp: topic_record_def envelope_law_def)
qed

lemma read_submission_body: "read_submission env r f topics obj buf \<Longrightarrow> obj = body_data r"
  by (auto simp: read_submission_def readBodyAfter_def Let_def split: if_splits)

lemma trusts_iff:
  "trusts pa rules addr topic \<longleftrightarrow> (\<exists>a. pa addr = Some a \<and>
     (\<exists>r \<in> set rules. path_Match (tPattern r) topic = Some True \<and> (\<exists>n \<in> set (tNets r). prefix_contains n (Unmap a))))"
  by (induction rules) (auto simp: list_ex_iff split: option.splits)

section \<open>A concrete facade\<close>

definition sample_facade_env :: "(bytes \<Rightarrow> direction option) facade_env" where
  "sample_facade_env = \<lparr>fbase = sample_feed_env,
     encode_header = (\<lambda>ns n. Some (concat (map sample_tid ns) @ [word_of_int n])),
     encode_record = (\<lambda>ns obj. Some (concat (map sample_tid ns) @ [word_of_int (int (length obj))] @ obj)),
     reports_detail = (\<lambda>_. True),
     detail_reply = (\<lambda>n c. Inr \<lparr>Steak = (\<lambda>_. Some (Some sample_adm)), Wrapped = True\<rparr>),
     publisher_takes = (\<lambda>n _. n < 2), parse_addr = (\<lambda>_. None)\<rparr>"

definition sample_facade :: facade where
  "sample_facade = \<lparr>fac_Engine = 0, fac_Publish = True, fac_Guard = True, fac_Topics = {''a'', ''b''}, fac_MaxObject = 0,
     fac_Routes = [], fac_Shadow = None, ShadowFacade = False, Trusted = [], n_ok = 0, n_malformed = 0, n_unknownTopic = 0,
     n_loopDropped = 0, n_engineError = 0, n_publishFailed = 0, n_trusted = 0, taken = [], offered = 0\<rparr>"

definition sample_request :: http_request where
  "sample_request = \<lparr>x_topics = [''a,b''], ContentLength = 2, body_data = [1, 2], body_fails = False, RemoteAddr = []\<rparr>"

lemma sample_topics: "ParseTopics (x_topics sample_request) = Inr [''a'', ''b'']"
  by (simp add: sample_request_def ParseTopics_def trim_space_def is_space_def)

lemma sample_envelope: "envelope_law sample_facade_env"
  by (simp add: envelope_law_def sample_facade_env_def)

lemmas sample_facade_defs = sample_facade_env_def sample_facade_def sample_request_def sample_feed_defs

lemmas submit_unfolds = facade_submit_def readBodyAfter_def fac_maxObject_def known_def Lookup_def Key_def
  trusted_source_def answer_topic_def fac_enginesFor_def submit_detail_def publish_topic_def topic_record_def OfferAlso_def Let_def

lemma sample_submission:
  "\<exists>st w f' s'. facade_submit sample_facade_env sample_request sample_facade sample_site = (Steaks st w, f', s')"
  using sample_topics by (simp add: submit_unfolds sample_facade_defs) blast

section \<open>Properties\<close>



text \<open>
  C29. A submission answered as not published leaves the way open for a retry: the guard is as it was, and some
  topic of the request is neither known to the guard nor among the records the publisher took.
\<close>

theorem unpublished_leaves_retry_open:
  assumes "facade_submit env r f s = (Unpublished, f', s')"
  shows "registry s' = registry s \<and> (\<exists>topics n. ParseTopics (x_topics r) = Inr topics \<and> n \<in> set topics \<and>
    \<not> known env f (body_data r) n s' \<and> n \<notin> p_topic ` set (drop (length (taken f)) (taken f')))"
  using assms
proof (cases rule: facade_submit_effect)
  case (2 topics obj buf pubs asked)
  have obj: "obj = body_data r" by (rule read_submission_body [OF 2(1)])
  obtain n rest where n: "topics = pubs @ n # rest" "\<not> known env f obj n s" "registry s' = registry s"
    using 2(2) by (auto simp: topics_effect_def)
  have "distinct topics" using 2(1) ParseTopics_ok by (auto simp: read_submission_def)
  then have "n \<notin> set pubs" using n(1) by simp
  moreover have "p_topic ` set (drop (length (taken f)) (taken f')) \<subseteq> set pubs"
    using 2(2) by (auto simp: topics_effect_def publication_of_def)
  ultimately show ?thesis using n obj 2(1) known_cong [of f f s' s]
    by (intro conjI exI [of _ topics] exI [of _ n]) (auto simp: read_submission_def)
qed simp

theorem unpublished_leaves_retry_open_witness:
  "\<exists>f' s' n. facade_submit sample_facade_env sample_request (sample_facade\<lparr>offered := 1\<rparr>) sample_site = (Unpublished, f', s') \<and>
     registry s' = registry sample_site \<and> \<not> known sample_facade_env sample_facade [1, 2] n s' \<and> n \<notin> p_topic ` set (taken f')"
proof -
  have "\<exists>f' s'. facade_submit sample_facade_env sample_request (sample_facade\<lparr>offered := 1\<rparr>) sample_site = (Unpublished, f', s')"
    using sample_topics by (simp add: submit_unfolds sample_facade_defs)
  then obtain f' s' where h: "facade_submit sample_facade_env sample_request (sample_facade\<lparr>offered := 1\<rparr>) sample_site = (Unpublished, f', s')"
    by blast
  from unpublished_leaves_retry_open [OF h] h show ?thesis
    by (auto simp: known_def sample_facade_def sample_request_def)
qed



text \<open>
  A submission refused for its form, with status 400 or 413, leaves no trace beyond a counter: no engine is asked,
  nothing is offered or published, and the guard is untouched.
\<close>

theorem facade_form_errors_leave_no_trace:
  assumes "facade_submit env r f s = (HttpError code, f', s')" and "code \<noteq> 502"
  shows "(code = 400 \<or> code = 413) \<and> s' = s \<and> taken f' = taken f"
  using assms(1)
proof (cases rule: facade_submit_effect)
  case (1 c)
  then show ?thesis by auto
next
  case (2 topics obj buf pubs asked)
  then show ?thesis using assms(2) by (simp add: topics_effect_def)
qed

theorem facade_form_errors_leave_no_trace_witness:
  "\<exists>f' s'. facade_submit sample_facade_env (sample_request\<lparr>ContentLength := 3\<rparr>) sample_facade sample_site = (HttpError 400, f', s') \<and>
     s' = sample_site \<and> taken f' = []"
proof -
  have "\<exists>f' s'. facade_submit sample_facade_env (sample_request\<lparr>ContentLength := 3\<rparr>) sample_facade sample_site = (HttpError 400, f', s')"
    using sample_topics by (simp add: submit_unfolds sample_facade_defs)
  then obtain f' s' where
    h: "facade_submit sample_facade_env (sample_request\<lparr>ContentLength := 3\<rparr>) sample_facade sample_site = (HttpError 400, f', s')" by blast
  have "taken sample_facade = []" by (simp add: sample_facade_def)
  with facade_form_errors_leave_no_trace [OF h] h show ?thesis by simp
qed

end
