(* ===== verification/Loop_Guard.thy ===== *)
theory Loop_Guard
  imports Facade_Props
begin

text \<open>
  The feed and the facade over one guard: the plane delivers, workers submit, clients submit, and the publisher reports
  what it sent, in any order. The guard's registry is a parameter; what the composition relies on is stated as
  \<open>registry_law\<close>.
\<close>

section \<open>The bridge's two sides\<close>

text \<open>
  The state: the feed, the facade, what they share, and the identities marked so far, for which the guard is
  answerable.
\<close>

record 'g bridge =
  b_feed :: feed_sys
  b_facade :: facade
  b_site :: "'g site"
  b_seen :: "(hash \<times> hash) set"

datatype 'g bridge_event =
    BDeliver "'g facade_env" bytes | BWork "'g facade_env" | BSubmit "'g facade_env" http_request | BSent "'g facade_env" publication

text \<open>The identities a delivery marks.\<close>

definition delivered_ids :: "'g feed_env \<Rightarrow> 'z feed_scheme \<Rightarrow> bytes \<Rightarrow> (hash \<times> hash) set" where
  "delivered_ids env f raw = (case inspect env f raw of
      Bad _ _ \<Rightarrow> {}
    | Good _ j \<Rightarrow> if fGuard f then (\<lambda>n. (content_id env (object j), topic_id env n)) ` set (names j) else {})"

inductive bridge_step :: "'g bridge \<Rightarrow> 'g bridge_event \<Rightarrow> 'g bridge \<Rightarrow> bool" where
  deliver: "Feed_Handle (fbase env) raw (b_feed b) (b_site b) = (e, f', s') \<Longrightarrow>
    bridge_step b (BDeliver env raw) (b\<lparr>b_feed := f', b_site := s', b_seen := b_seen b \<union> delivered_ids (fbase env) (b_feed b) raw\<rparr>)"
| work: "fq (b_feed b) = j # rest \<Longrightarrow> take_job (fbase env) j ((b_feed b)\<lparr>fq := rest\<rparr>) (b_site b) = (f', s') \<Longrightarrow>
    bridge_step b (BWork env) (b\<lparr>b_feed := f', b_site := s'\<rparr>)"
| submit: "facade_submit env r (b_facade b) (b_site b) = (rep, f', s') \<Longrightarrow>
    bridge_step b (BSubmit env r) (b\<lparr>b_facade := f', b_site := s'\<rparr>)"
| sent: "p \<in> set (taken (b_facade b)) \<Longrightarrow>
    bridge_step b (BSent env p) (b\<lparr>b_site := facade_sent env p (b_facade b) (b_site b),
      b_seen := (if fac_Guard (b_facade b) then insert (p_content p, p_topicID p) (b_seen b) else b_seen b)\<rparr>)"

inductive_simps bridge_submit_iff: "bridge_step b (BSubmit env r) b'"

section \<open>What the registry promises\<close>

text \<open>
  For the lifetime of an entry, a marked key is found, and marking a key does not lose another.
\<close>

definition registry_law :: "'g registry_ops \<Rightarrow> bool" where
  "registry_law ops \<longleftrightarrow> (\<forall>k d g. reg_lookup ops k (snd (reg_mark ops k d g)) \<noteq> None) \<and>
     (\<forall>k k' d g. reg_lookup ops k g \<noteq> None \<longrightarrow> reg_lookup ops k (snd (reg_mark ops k' d g)) \<noteq> None)"

definition marked :: "'g registry_ops \<Rightarrow> hash \<Rightarrow> hash \<Rightarrow> 'g \<Rightarrow> bool" where
  "marked ops c t g \<longleftrightarrow> Lookup ops c t g \<noteq> None"

lemma Mark_known: "registry_law ops \<Longrightarrow> marked ops c t (snd (Mark ops c t d g))"
  by (simp add: registry_law_def marked_def Lookup_def Mark_def)

lemma Mark_keeps: "registry_law ops \<Longrightarrow> marked ops c t g \<Longrightarrow> marked ops c t (snd (Mark ops c' t' d g))"
  unfolding registry_law_def marked_def Lookup_def Mark_def by blast

lemma mark_delivered_Cons:
  "mark_delivered env cid (m # ns) g = mark_delivered env cid ns (snd (Mark (reg_ops env) cid (topic_id env m) Delivered g))"
  by (simp add: mark_delivered_def)

lemma mark_delivered_keeps:
  "registry_law (reg_ops env) \<Longrightarrow> marked (reg_ops env) c t g \<Longrightarrow> marked (reg_ops env) c t (mark_delivered env cid ns g)"
proof (induction ns arbitrary: g)
  case Nil
  then show ?case by (simp add: mark_delivered_def)
next
  case (Cons m ns)
  show ?case unfolding mark_delivered_Cons by (rule Cons.IH [OF Cons.prems(1) Mark_keeps [OF Cons.prems]])
qed

lemma mark_delivered_known:
  "registry_law (reg_ops env) \<Longrightarrow> n \<in> set ns \<Longrightarrow>
   marked (reg_ops env) cid (topic_id env n) (mark_delivered env cid ns g)"
proof (induction ns arbitrary: g)
  case (Cons m ns)
  show ?case
  proof (cases "n = m")
    case True
    then show ?thesis unfolding mark_delivered_Cons
      using mark_delivered_keeps [OF Cons.prems(1) Mark_known [OF Cons.prems(1)]] by simp
  next
    case False
    then show ?thesis unfolding mark_delivered_Cons using Cons by simp
  qed
qed simp

section \<open>What is marked stays known\<close>

lemma process_registry:
  assumes "feed_process env j f s = (e, f', s')" "fSubmit f \<noteq> None"
  shows "registry s' = registry s \<and> books_only f f'"
  using assms process_blocked [of env j f s] process_submits [of env j f s] by (cases "spv_blocks env (object j) f") auto

lemma Handle_registry:
  assumes "Feed_Handle env raw f s = (e, f', s')"
  shows "registry s' = (case inspect env f raw of Bad _ _ \<Rightarrow> registry s | Good _ j \<Rightarrow> registry (mark_names env j f s)) \<and>
    fSubmit f' = fSubmit f \<and> (fq f' \<noteq> [] \<longrightarrow> fq f \<noteq> [] \<or> fSubmit f \<noteq> None)"
proof (cases "inspect env f raw")
  case (Bad x u)
  then show ?thesis using assms by (auto simp: Feed_Handle_def tally_def)
next
  case (Good name j)
  have fr: "fSubmit f' = fSubmit f \<and> (fq f' \<noteq> [] \<longrightarrow> fq f \<noteq> [] \<or> fSubmit f \<noteq> None)"
    using assms by (cases rule: Handle_effect) (simp_all add: books_only_fields)
  have "registry s' = registry (mark_names env j f s)"
  proof (cases "fSubmit f = None \<or> fWorkers f > 0")
    case True
    then show ?thesis using assms Good by (auto simp: Feed_Handle_def Let_def split: if_splits prod.splits)
  next
    case False
    then show ?thesis using assms Good process_registry [of env j f "mark_names env j f s"]
      by (auto simp: Feed_Handle_def Let_def)
  qed
  then show ?thesis using Good fr by simp
qed

text \<open>Every step's surroundings share the registry's operations.\<close>

fun event_env :: "'g bridge_event \<Rightarrow> 'g facade_env" where
  "event_env (BDeliver env raw) = env"
| "event_env (BWork env) = env"
| "event_env (BSubmit env r) = env"
| "event_env (BSent env p) = env"

definition guard_ok :: "'g registry_ops \<Rightarrow> 'g bridge \<Rightarrow> bool" where
  "guard_ok ops b \<longleftrightarrow> (fq (b_feed b) \<noteq> [] \<longrightarrow> fSubmit (b_feed b) \<noteq> None) \<and>
     (\<forall>(c, t) \<in> b_seen b. marked ops c t (registry (b_site b)))"

lemma submit_registry: "facade_submit env r f s = (rep, f', s') \<Longrightarrow> registry s' = registry s"
  by (erule facade_submit_effect) (simp_all add: topics_effect_def)

lemma guard_ok_step:
  assumes "bridge_step b e b'" "reg_ops (fbase (event_env e)) = ops" "registry_law ops" "guard_ok ops b"
  shows "guard_ok ops b'"
  using assms
proof (induction rule: bridge_step.induct)
  case (deliver env raw b e f' s')
  let ?r = "registry (b_site b)"
  note h = Handle_registry [OF deliver(1)]
  have ops: "ops = reg_ops (fbase env)" using deliver(2) by simp
  show ?case
  proof (cases "inspect (fbase env) (b_feed b) raw")
    case (Bad x u)
    then show ?thesis using h deliver(4) by (auto simp: guard_ok_def delivered_ids_def)
  next
    case (Good name j)
    have r: "registry s' = (if fGuard (b_feed b)
        then mark_delivered (fbase env) (content_id (fbase env) (object j)) (names j) ?r else ?r)"
      using h Good by (simp add: enqueue_site)
    have "marked ops c t (registry s')" if "(c, t) \<in> b_seen b" for c t
    proof -
      have "marked ops c t (registry (b_site b))" using that deliver(4) by (auto simp: guard_ok_def)
      then show ?thesis using r deliver(3) unfolding ops by (simp add: mark_delivered_keeps)
    qed
    moreover have "marked ops c t (registry s')" if "(c, t) \<in> delivered_ids (fbase env) (b_feed b) raw" for c t
      using that r deliver(3) Good mark_delivered_known unfolding ops by (auto simp: delivered_ids_def split: if_splits)
    ultimately show ?thesis using h deliver(4) unfolding guard_ok_def by auto
  qed
next
  case (work b j rest env f' s')
  let ?f = "(b_feed b)\<lparr>fq := rest, queuedBytes := queuedBytes (b_feed b) - int (length (object j))\<rparr>"
  have sub: "fSubmit ?f \<noteq> None" using work(1,5) by (simp add: guard_ok_def)
  obtain e where p: "feed_process (fbase env) j ?f (b_site b) = (e, f', s')"
    using work(2) by (cases "feed_process (fbase env) j ?f (b_site b)") (simp add: take_job_def)
  show ?case using process_registry [OF p sub] books_only_fields(2) [of ?f f'] sub work(5) by (simp add: guard_ok_def)
next
  case (submit env r b rep f' s')
  then show ?case using submit_registry [OF submit(1)] by (simp add: guard_ok_def)
next
  case (sent p b env)
  then show ?case using Mark_known Mark_keeps by (fastforce simp: guard_ok_def facade_sent_def)
qed

definition bridge_start :: "'g bridge \<Rightarrow> bool" where
  "bridge_start b \<longleftrightarrow> b_seen b = {} \<and> fq (b_feed b) = []"

definition lawful_step :: "'g registry_ops \<Rightarrow> 'g bridge \<Rightarrow> 'g bridge_event \<Rightarrow> 'g bridge \<Rightarrow> bool" where
  "lawful_step ops b e b' \<longleftrightarrow> bridge_step b e b' \<and> registry_law ops \<and> reg_ops (fbase (event_env e)) = ops"

interpretation loop: transition_system bridge_start "lawful_step ops" "guard_ok ops" for ops :: "'a registry_ops"
proof unfold_locales
  fix b :: "'a bridge" assume "bridge_start b"
  then show "guard_ok ops b" by (simp add: bridge_start_def guard_ok_def)
next
  fix b b' :: "'a bridge" and e assume "guard_ok ops b" "lawful_step ops b e b'"
  then show "guard_ok ops b'" unfolding lawful_step_def by (blast intro: guard_ok_step)
qed

lemma lawful_run:
  assumes "run bridge_step b es b'" "registry_law ops" "\<forall>e \<in> set es. reg_ops (fbase (event_env e)) = ops"
  shows "run (lawful_step ops) b es b'"
  using run_restrict [OF assms(1), of "set es"] assms(2,3)
  by (auto elim!: run_mono simp: lawful_step_def)

section \<open>Properties\<close>


definition sample_bridge :: "(bytes \<Rightarrow> direction option) bridge" where
  "sample_bridge = \<lparr>b_feed = sample_feed\<lparr>fstarted := True\<rparr>, b_facade = sample_facade, b_site = sample_site, b_seen = {}\<rparr>"

lemma map_registry_law: "registry_law map_registry"
  by (simp add: registry_law_def map_registry_def)


end
