(* ===== verification/Metrics_Desc.thy ===== *)
theory Metrics_Desc
  imports Bridge_Prelude
begin

text \<open>
  The descriptors of \<^verbatim>\<open>src/cmd/overlay-bridge/collector.go\<close>: one constructor per series family, with its name and its
  variable labels (the help texts are left out), and the metrics a scrape is made of.
\<close>

datatype desc =
    descFeed | descSteak | descHeaders | descTip | descRoots | descFacade | descQueue | descQueueDepth |
    descQueueCap | descQueueBytes | descQueueBytesCap | descUnconfirmed | descPeerClosed | descGuard | descLane |
    descLaneBound | descLaneConns | descBuild | descVerifyScripts | descMismatch | descShadow | descWarm |
    descWarmDuration | descConfig | descEngineQueue | descEngineQueueCap | descEngineQueueBytes |
    descEngineQueueBytesCap | descWorkers | descWorkersBusy | descShedRoute | descShadowQueue |
    descShadowQueueCap | descAlso | descAlsoQueue | descAlsoQueueCap

definition desc_name :: "desc \<Rightarrow> string" where
  "desc_name d = (case d of
      descFeed \<Rightarrow> ''overlay_bridge_feed_total''
    | descSteak \<Rightarrow> ''overlay_bridge_engine_submits_total''
    | descHeaders \<Rightarrow> ''overlay_bridge_headers_total''
    | descTip \<Rightarrow> ''overlay_bridge_header_tip_height''
    | descRoots \<Rightarrow> ''overlay_bridge_tracker_roots_total''
    | descFacade \<Rightarrow> ''overlay_bridge_facade_total''
    | descQueue \<Rightarrow> ''overlay_bridge_publish_total''
    | descQueueDepth \<Rightarrow> ''overlay_bridge_publish_queue_depth''
    | descQueueCap \<Rightarrow> ''overlay_bridge_publish_queue_capacity''
    | descQueueBytes \<Rightarrow> ''overlay_bridge_publish_queue_bytes''
    | descQueueBytesCap \<Rightarrow> ''overlay_bridge_publish_queue_bytes_capacity''
    | descUnconfirmed \<Rightarrow> ''overlay_bridge_publish_unconfirmed''
    | descPeerClosed \<Rightarrow> ''overlay_bridge_uptunnel_peer_closed_total''
    | descGuard \<Rightarrow> ''overlay_bridge_guard_entries''
    | descLane \<Rightarrow> ''overlay_bridge_lane_objects_total''
    | descLaneBound \<Rightarrow> ''overlay_bridge_lane_bound''
    | descLaneConns \<Rightarrow> ''overlay_bridge_lane_connections_active''
    | descBuild \<Rightarrow> ''overlay_bridge_build_info''
    | descVerifyScripts \<Rightarrow> ''overlay_bridge_verify_scripts_total''
    | descMismatch \<Rightarrow> ''overlay_bridge_verify_mismatch_total''
    | descShadow \<Rightarrow> ''overlay_bridge_shadow_total''
    | descWarm \<Rightarrow> ''overlay_bridge_header_warm_heights''
    | descWarmDuration \<Rightarrow> ''overlay_bridge_header_warm_duration_seconds''
    | descConfig \<Rightarrow> ''overlay_bridge_config_info''
    | descEngineQueue \<Rightarrow> ''overlay_bridge_engine_queue_depth''
    | descEngineQueueCap \<Rightarrow> ''overlay_bridge_engine_queue_capacity''
    | descEngineQueueBytes \<Rightarrow> ''overlay_bridge_engine_queue_bytes''
    | descEngineQueueBytesCap \<Rightarrow> ''overlay_bridge_engine_queue_bytes_capacity''
    | descWorkers \<Rightarrow> ''overlay_bridge_engine_workers''
    | descWorkersBusy \<Rightarrow> ''overlay_bridge_engine_workers_busy''
    | descShedRoute \<Rightarrow> ''overlay_bridge_feed_shed_total''
    | descShadowQueue \<Rightarrow> ''overlay_bridge_shadow_queue_depth''
    | descShadowQueueCap \<Rightarrow> ''overlay_bridge_shadow_queue_capacity''
    | descAlso \<Rightarrow> ''overlay_bridge_also_total''
    | descAlsoQueue \<Rightarrow> ''overlay_bridge_also_queue_bytes''
    | descAlsoQueueCap \<Rightarrow> ''overlay_bridge_also_queue_bytes_capacity'')"

definition desc_labels :: "desc \<Rightarrow> string list" where
  "desc_labels d = (case d of
      descFeed \<Rightarrow> [''outcome'']
    | descSteak \<Rightarrow> [''topic'', ''outcome'']
    | descHeaders \<Rightarrow> [''outcome'']
    | descRoots \<Rightarrow> [''source'']
    | descFacade \<Rightarrow> [''result'']
    | descQueue \<Rightarrow> [''result'']
    | descLane \<Rightarrow> [''lane'', ''outcome'']
    | descLaneBound \<Rightarrow> [''lane'']
    | descLaneConns \<Rightarrow> [''lane'']
    | descBuild \<Rightarrow> [''version'', ''shard_common'', ''go_sdk'', ''go_version'']
    | descMismatch \<Rightarrow> [''kind'']
    | descShadow \<Rightarrow> [''route'', ''kind'']
    | descWarm \<Rightarrow> [''state'']
    | descConfig \<Rightarrow> [''verify'', ''verify_network'', ''verify_finality'', ''engine_workers'', ''gomaxprocs'', ''gogc'', ''gomemlimit'', ''sig_verifier'']
    | descWorkersBusy \<Rightarrow> [''route'', ''stage'']
    | descShedRoute \<Rightarrow> [''route'']
    | descShadowQueue \<Rightarrow> [''route'']
    | descShadowQueueCap \<Rightarrow> [''route'']
    | descAlso \<Rightarrow> [''route'', ''target'', ''result'']
    | descAlsoQueue \<Rightarrow> [''route'', ''target'']
    | descAlsoQueueCap \<Rightarrow> [''route'', ''target'']
    | _ \<Rightarrow> [])"

definition collector_Describe :: "desc list" where
  "collector_Describe =
    [descFeed, descSteak, descHeaders, descTip, descRoots, descFacade, descQueue, descQueueDepth, descQueueCap,
    descQueueBytes, descQueueBytesCap, descUnconfirmed, descPeerClosed, descGuard, descLane, descLaneBound,
    descLaneConns, descBuild, descVerifyScripts, descMismatch, descShadow, descWarm, descWarmDuration, descConfig,
    descEngineQueue, descEngineQueueCap, descEngineQueueBytes, descEngineQueueBytesCap, descWorkers,
    descWorkersBusy, descShedRoute, descShadowQueue, descShadowQueueCap, descAlso, descAlsoQueue,
    descAlsoQueueCap]"

text \<open>
  A metric: its family, its kind, its value and its label values. Values are the numbers themselves (the rounding of
  a large one to a 64-bit float is left out); a duration is in nanoseconds, reported in seconds.
\<close>

datatype metric_kind = CounterValue | GaugeValue

datatype metric_value = MInt int | MSeconds int

record metric =
  m_desc :: desc
  m_kind :: metric_kind
  m_value :: metric_value
  m_labels :: "string list"

definition counter :: "desc \<Rightarrow> u64 \<Rightarrow> string list \<Rightarrow> metric" where
  "counter d v ls = \<lparr>m_desc = d, m_kind = CounterValue, m_value = MInt (uint v), m_labels = ls\<rparr>"

definition gauge :: "desc \<Rightarrow> int \<Rightarrow> string list \<Rightarrow> metric" where
  "gauge d v ls = \<lparr>m_desc = d, m_kind = GaugeValue, m_value = MInt v, m_labels = ls\<rparr>"

definition gauge_seconds :: "desc \<Rightarrow> int \<Rightarrow> string list \<Rightarrow> metric" where
  "gauge_seconds d ns ls = \<lparr>m_desc = d, m_kind = GaugeValue, m_value = MSeconds ns, m_labels = ls\<rparr>"

definition series :: "metric \<Rightarrow> desc \<times> string list" where
  "series m = (m_desc m, m_labels m)"

lemma metric_simps [simp]:
  "series (counter d v ls) = (d, ls)" "series (gauge d x ls) = (d, ls)" "series (gauge_seconds d x ls) = (d, ls)"
  "m_desc (counter d v ls) = d" "m_desc (gauge d x ls) = d" "m_desc (gauge_seconds d x ls) = d"
  "m_labels (counter d v ls) = ls" "m_labels (gauge d x ls) = ls" "m_labels (gauge_seconds d x ls) = ls"
  "m_value (counter d v ls) = MInt (uint v)" "m_value (gauge d x ls) = MInt x"
  by (simp_all add: series_def counter_def gauge_def gauge_seconds_def)

text \<open>
  What the registry asks of a scrape: every metric belongs to a described family and has a value for each of its
  labels (a constant metric cannot be made otherwise), and no series comes twice.
\<close>

definition well_labelled :: "metric \<Rightarrow> bool" where
  "well_labelled m \<longleftrightarrow> m_desc m \<in> set collector_Describe \<and> length (m_labels m) = length (desc_labels (m_desc m))"

definition gather_ok :: "metric list \<Rightarrow> bool" where
  "gather_ok ms \<longleftrightarrow> list_all well_labelled ms \<and> distinct (map series ms)"

lemma well_labelled_simps [simp]:
  "well_labelled (counter d v ls) \<longleftrightarrow> d \<in> set collector_Describe \<and> length ls = length (desc_labels d)"
  "well_labelled (gauge d x ls) \<longleftrightarrow> d \<in> set collector_Describe \<and> length ls = length (desc_labels d)"
  "well_labelled (gauge_seconds d x ls) \<longleftrightarrow> d \<in> set collector_Describe \<and> length ls = length (desc_labels d)"
  by (simp_all add: well_labelled_def)

lemma described [simp]: "d \<in> set collector_Describe"
  by (cases d) (simp_all add: collector_Describe_def)

lemma desc_names_distinct: "distinct (map desc_name collector_Describe)"
  by (simp add: collector_Describe_def desc_name_def)

section \<open>Distinct series\<close>

text \<open>Blocks whose series all carry a tag of the block's own never share a series.\<close>

lemma distinct_series_loop:
  assumes "distinct (map nm xs)"
    and "\<And>x. x \<in> set xs \<Longrightarrow> distinct (map series (g x))"
    and "\<And>x m. x \<in> set xs \<Longrightarrow> m \<in> set (g x) \<Longrightarrow> tag (series m) = nm x"
  shows "distinct (map series (concat (map g xs)))"
  using assms
proof (induction xs)
  case (Cons x xs)
  have "series ` set (g x) \<inter> series ` set (concat (map g xs)) = {}"
  proof (rule ccontr)
    assume "series ` set (g x) \<inter> series ` set (concat (map g xs)) \<noteq> {}"
    then obtain y m n where y: "y \<in> set xs" "m \<in> set (g x)" "n \<in> set (g y)" "series m = series n" by fastforce
    then have "nm x = nm y" using Cons.prems(3) [of x m] Cons.prems(3) [of y n] by simp
    then show False using Cons.prems(1) y(1) by force
  qed
  moreover have "distinct (map series (concat (map g xs)))" using Cons by simp
  ultimately show ?case using Cons.prems(2) [of x] by auto
qed simp

end
