(* ===== verification/Feed_Load.thy ===== *)
theory Feed_Load
  imports Feed_Props
begin

text \<open>
  What the feed reports of itself: the backlog and route names of \<^verbatim>\<open>src/feed/load.go\<close>, the busy-worker gauge with the
  workers that move it, and the counter snapshot of \<^verbatim>\<open>src/feed/stats.go\<close>. Two of its numbers are promised to add up:
  the busy workers of every route and stage to the workers that are not idle, and the sheds of every route to the
  sheds in total.
\<close>

section \<open>Snapshots\<close>

definition StageVerify :: string where "StageVerify = ''verify''"
definition StageSubmit :: string where "StageSubmit = ''submit''"

definition WorkerStages :: "string list" where
  "WorkerStages = [StageVerify, StageSubmit]"

text \<open>A key of the gauge is a route and a stage; a key absent from the map has none.\<close>

type_synonym BusyKey = "string \<times> string"

type_synonym busyCount = "BusyKey \<Rightarrow> int"

definition busy_enter :: "BusyKey \<Rightarrow> busyCount \<Rightarrow> busyCount" where
  "busy_enter k b = b(k := b k + 1)"

definition busy_exit :: "BusyKey \<Rightarrow> busyCount \<Rightarrow> busyCount" where
  "busy_exit k b = b(k := b k - 1)"

definition Backlog :: "'z feed_scheme \<Rightarrow> nat \<times> nat" where
  "Backlog f = (length (fq f), feed_cap f)"

definition BacklogBytes :: "'z feed_scheme \<Rightarrow> int \<times> int" where
  "BacklogBytes f = (queuedBytes f, fQueueBytes f)"

definition RouteNames :: "'z feed_scheme \<Rightarrow> string list" where
  "RouteNames f = DefaultRoute # map Pattern (List.map_filter (\<lambda>r. r) (fRoutes f))"

definition shadow_Backlog :: "'z shadow_target_scheme \<Rightarrow> nat \<times> nat" where
  "shadow_Backlog s = (length (sq s), shadow_cap s)"

record AlsoStats =
  as_Results :: "string \<Rightarrow> u64"
  as_Queued :: nat
  as_Capacity :: nat
  as_QueuedBytes :: int
  as_CapacityBytes :: int

definition also_Stats :: "'z also_target_scheme \<Rightarrow> AlsoStats" where
  "also_Stats a = \<lparr>as_Results = aresults a, as_Queued = length (aq a), as_Capacity = also_cap a,
     as_QueuedBytes = abytes a, as_CapacityBytes = also_queueBytes a\<rparr>"

record feed_Stats =
  st_Submitted :: u64
  st_EngineError :: u64
  st_Retried :: u64
  st_ParseError :: u64
  st_UnknownTopic :: u64
  st_Rejected :: u64
  st_Sunk :: u64
  st_Shed :: u64
  st_EngineRefused :: u64
  st_SPVRefused :: u64
  st_VerifyScripts :: u64
  st_Mismatch :: "string \<Rightarrow> u64"
  st_Steak :: "string \<times> string \<Rightarrow> u64"
  st_ShedByRoute :: "string \<Rightarrow> u64"

definition feed_snapshot :: "counters \<Rightarrow> feed_Stats" where
  "feed_snapshot c = \<lparr>st_Submitted = c_submitted c, st_EngineError = c_engineError c, st_Retried = c_retried c,
     st_ParseError = c_parseError c, st_UnknownTopic = c_unknownTopic c, st_Rejected = c_rejected c, st_Sunk = c_sunk c,
     st_Shed = c_shed c, st_EngineRefused = c_engineRefused c, st_SPVRefused = c_spvRefused c,
     st_VerifyScripts = c_verifyScripts c, st_Mismatch = c_mismatch c, st_Steak = c_steak c, st_ShedByRoute = c_shedRoute c\<rparr>"

lemma routeName_named: "routeName (fRoutes f) topic \<in> set (RouteNames f)"
proof -
  have "RouteFor rs topic = Some r \<Longrightarrow> r \<in> set (List.map_filter (\<lambda>r. r) rs)" for rs :: "route option list" and r
    by (induction rs) (auto simp: map_filter_simps split: option.splits if_splits)
  then show ?thesis by (auto simp: routeName_def RouteNames_def split: option.splits)
qed

section \<open>The workers and their gauge\<close>

text \<open>
  The stages a job takes its worker through, in order: the verification, counted under the route of the topic the
  plane delivered the object under, then one submit per name. A worker enters a stage and leaves it; leaving the
  verification with a refusal in enforce mode it leaves the rest of the job.
\<close>

definition job_stages :: "'z feed_scheme \<Rightarrow> string list \<Rightarrow> BusyKey list" where
  "job_stages f ns = (if feed_verifies f then [(routeName (fRoutes f) (hd ns), StageVerify)] else []) @
     map (\<lambda>n. (routeName (fRoutes f) n, StageSubmit)) ns"

record load_sys =
  busy :: busyCount
  todo :: "nat \<Rightarrow> BusyKey list"
  inside :: "nat \<Rightarrow> BusyKey option"

datatype load_event = LTake nat "string list" | LEnter nat | LLeave nat bool

inductive load_step :: "feed \<Rightarrow> nat \<Rightarrow> load_sys \<Rightarrow> load_event \<Rightarrow> load_sys \<Rightarrow> bool" for f n where
  ltake: "i < n \<Longrightarrow> todo l i = [] \<Longrightarrow> inside l i = None \<Longrightarrow>
    load_step f n l (LTake i ns) (l\<lparr>todo := (todo l)(i := job_stages f ns)\<rparr>)"
| lenter: "i < n \<Longrightarrow> todo l i = k # ks \<Longrightarrow> inside l i = None \<Longrightarrow>
    load_step f n l (LEnter i) (l\<lparr>busy := busy_enter k (busy l), todo := (todo l)(i := ks), inside := (inside l)(i := Some k)\<rparr>)"
| lleave: "inside l i = Some k \<Longrightarrow>
    load_step f n l (LLeave i refused) (l\<lparr>busy := busy_exit k (busy l), inside := (inside l)(i := None),
      todo := (if refused \<and> snd k = StageVerify \<and> VerifyMode f = VerifyEnforce then (todo l)(i := []) else todo l)\<rparr>)"

inductive_simps load_step_iff:
  "load_step f n l (LTake i ns) m" "load_step f n l (LEnter i) m" "load_step f n l (LLeave i refused) m"

definition load_start :: "load_sys \<Rightarrow> bool" where
  "load_start l \<longleftrightarrow> l = \<lparr>busy = (\<lambda>_. 0), todo = (\<lambda>_. []), inside = (\<lambda>_. None)\<rparr>"

definition stage_keys :: "'z feed_scheme \<Rightarrow> BusyKey list" where
  "stage_keys f = List.product (RouteNames f) WorkerStages"

definition load_ok :: "feed \<Rightarrow> nat \<Rightarrow> load_sys \<Rightarrow> bool" where
  "load_ok f n l \<longleftrightarrow> (\<forall>k. busy l k = int (card {i. i < n \<and> inside l i = Some k})) \<and>
     (\<forall>i k. inside l i = Some k \<longrightarrow> i < n \<and> k \<in> set (stage_keys f)) \<and> (\<forall>i. set (todo l i) \<subseteq> set (stage_keys f))"

lemma job_stages_named: "set (job_stages f ns) \<subseteq> set (stage_keys f)"
  using routeName_named [of f] by (auto simp: job_stages_def stage_keys_def WorkerStages_def)

lemma inside_upd:
  assumes "i < n"
  shows "inside l i = None \<Longrightarrow> int (card {j. j < n \<and> ((inside l)(i := Some k)) j = Some q}) =
      int (card {j. j < n \<and> inside l j = Some q}) + (if q = k then 1 else 0)"
    and "inside l i = Some k \<Longrightarrow> int (card {j. j < n \<and> ((inside l)(i := None)) j = Some q}) =
      int (card {j. j < n \<and> inside l j = Some q}) - (if q = k then 1 else 0)"
proof -
  let ?A = "{j. j < n \<and> inside l j = Some q}"
  show "int (card {j. j < n \<and> ((inside l)(i := Some k)) j = Some q}) = int (card ?A) + (if q = k then 1 else 0)"
    if none: "inside l i = None"
  proof (cases "q = k")
    case True
    then have "{j. j < n \<and> ((inside l)(i := Some k)) j = Some q} = insert i ?A" using assms by auto
    then show ?thesis using none True by simp
  next
    case False
    then have "{j. j < n \<and> ((inside l)(i := Some k)) j = Some q} = ?A" using none by auto
    then show ?thesis using False by simp
  qed
  show "int (card {j. j < n \<and> ((inside l)(i := None)) j = Some q}) = int (card ?A) - (if q = k then 1 else 0)"
    if some: "inside l i = Some k"
  proof (cases "q = k")
    case True
    then have "?A = insert i {j. j < n \<and> ((inside l)(i := None)) j = Some q}" using assms some by auto
    then show ?thesis using True by simp
  next
    case False
    then have "{j. j < n \<and> ((inside l)(i := None)) j = Some q} = ?A" using some by auto
    then show ?thesis using False by simp
  qed
qed

interpretation load: transition_system load_start "load_step f n" "load_ok f n" for f n
proof unfold_locales
  show "load_ok f n l" if "load_start l" for l using that by (simp add: load_start_def load_ok_def)
  show "load_ok f n m" if ok: "load_ok f n l" and "load_step f n l e m" for l e m
    using that(2)
  proof cases
    case (ltake i ns)
    then show ?thesis using ok job_stages_named [of f ns] by (simp add: load_ok_def)
  next
    case (lenter i k ks)
    then have "set (k # ks) \<subseteq> set (stage_keys f)" using ok unfolding load_ok_def by metis
    then show ?thesis using ok lenter inside_upd(1) [OF lenter(3) lenter(5)] by (auto simp: load_ok_def busy_enter_def)
  next
    case (lleave i k refused)
    then have "i < n" using ok unfolding load_ok_def by metis
    then show ?thesis using ok lleave inside_upd(2) [of i n l k] by (auto simp: load_ok_def busy_exit_def)
  qed
qed

lemma sum_inside:
  assumes "distinct ks" "\<forall>i k. inside l i = Some k \<longrightarrow> k \<in> set ks"
  shows "(\<Sum>k\<leftarrow>ks. int (card {i. i < n \<and> inside l i = Some k})) = int (card {i. i < n \<and> inside l i \<noteq> None})"
proof -
  have "(\<Sum>k\<leftarrow>ks. int (card {i. i < n \<and> inside l i = Some k})) = (\<Sum>k \<in> set ks. int (card {i. i < n \<and> inside l i = Some k}))"
    using assms(1) by (simp add: sum_list_distinct_conv_sum_set)
  also have "\<dots> = int (card (\<Union>k \<in> set ks. {i. i < n \<and> inside l i = Some k}))"
    by (subst card_UN_disjoint) auto
  also have "(\<Union>k \<in> set ks. {i. i < n \<and> inside l i = Some k}) = {i. i < n \<and> inside l i \<noteq> None}"
    using assms(2) by auto
  finally show ?thesis .
qed

section \<open>Sheds by route\<close>

definition sheds :: "'z feed_scheme \<Rightarrow> u64 \<times> (string \<Rightarrow> u64) \<times> route option list" where
  "sheds f = (c_shed (cnt f), c_shedRoute (cnt f), fRoutes f)"

definition sheds_add_up :: "'z feed_scheme \<Rightarrow> bool" where
  "sheds_add_up f \<longleftrightarrow> (\<Sum>r\<leftarrow>RouteNames f. c_shedRoute (cnt f) r) = c_shed (cnt f)"

lemma sheds_kept: "sheds f' = sheds f \<Longrightarrow> sheds_add_up f' = sheds_add_up f \<and> RouteNames f' = RouteNames f"
  by (simp add: sheds_def sheds_add_up_def RouteNames_def)

lemma sheds_tally:
  assumes "\<forall>c. c_shed (u c) = c_shed c" "\<forall>c. c_shedRoute (u c) = c_shedRoute c"
  shows "sheds (tally u f) = sheds f"
  using assms by (simp add: sheds_def tally_def)

lemma sheds_simps [simp]:
  "sheds (observe oc f) = sheds f" "sheds (book_answer name st n f) = sheds f" "sheds (book_refusal f) = sheds f"
  "sheds (book_failure f) = sheds f" "sheds (compare vd e f) = sheds f" "sheds (f\<lparr>queuedBytes := q\<rparr>) = sheds f"
  "sheds (f\<lparr>fq := js\<rparr>) = sheds f"
  by (simp_all add: sheds_def observe_def book_answer_def book_refusal_def book_failure_def compare_def tally_def
      addSteak_def addMismatch_def Let_def)

lemma sheds_submitOne: "submitOne env name obj marker f s = (e, f', s') \<Longrightarrow> sheds f' = sheds f"
  by (auto simp: submitOne_def Let_def split: prod.splits option.splits submit_end.splits)

lemma sheds_submit_names: "submit_names env cmp ns obj marker first f s = (e, f', s') \<Longrightarrow> sheds f' = sheds f"
proof (induction ns arbitrary: cmp first f s)
  case (Cons n ns)
  obtain e1 f1 s1 where one: "submitOne env n obj marker f s = (e1, f1, s1)" by (metis surj_pair)
  then have "submit_names env None ns obj marker (if first = None then e1 else first)
      (case cmp of None \<Rightarrow> f1 | Some vd \<Rightarrow> compare vd e1 f1) s1 = (e, f', s')"
    using Cons.prems by simp
  from Cons.IH [OF this] show ?case using sheds_submitOne [OF one] by (simp split: option.splits)
qed simp

lemma sheds_process: "feed_process env j f s = (e, f', s') \<Longrightarrow> sheds f' = sheds f"
  by (auto simp: feed_process_def Let_def sheds_tally split: if_splits dest!: sheds_submit_names)

lemma sum_list_upd:
  assumes "distinct xs" "x \<in> set xs"
  shows "(\<Sum>y\<leftarrow>xs. (g(x := g x + d)) y) = (\<Sum>y\<leftarrow>xs. g y) + (d :: u64)"
  using assms
proof (induction xs)
  case (Cons a xs)
  show ?case
  proof (cases "a = x")
    case True
    then have "(\<Sum>y\<leftarrow>xs. (g(x := g x + d)) y) = (\<Sum>y\<leftarrow>xs. g y)" using Cons.prems(1) by (intro arg_cong [of _ _ sum_list]) auto
    then show ?thesis using True by (simp add: algebra_simps)
  next
    case False
    then show ?thesis using Cons by (simp add: algebra_simps)
  qed
qed simp

lemma sheds_shed:
  assumes "distinct (RouteNames f)" "sheds_add_up f"
  shows "sheds_add_up (shed_delivery name f)"
proof -
  have "RouteNames (shed_delivery name f) = RouteNames f" by (simp add: RouteNames_def shed_delivery_def tally_def)
  then show ?thesis
    using assms sum_list_upd [OF assms(1) routeName_named [of f name], of "c_shedRoute (cnt f)" 1]
    by (simp add: sheds_add_up_def shed_delivery_def tally_def addShed_def)
qed

definition shed_ok :: "feed_sys \<Rightarrow> feed_sys \<times> 'g site \<Rightarrow> bool" where
  "shed_ok c fs \<longleftrightarrow> fRoutes (fst fs) = fRoutes c \<and> (distinct (RouteNames c) \<longrightarrow> sheds_add_up (fst fs))"

lemma sheds_enqueue:
  assumes "enqueue name j f = (e, f')" "distinct (RouteNames f) \<longrightarrow> sheds_add_up f"
  shows "fRoutes f' = fRoutes f \<and> (distinct (RouteNames f) \<longrightarrow> sheds_add_up f')"
proof -
  have k: "sheds_add_up (f\<lparr>queuedBytes := q\<rparr>) = sheds_add_up f" "RouteNames (f\<lparr>queuedBytes := q\<rparr>) = RouteNames f"
    "sheds_add_up (f\<lparr>queuedBytes := q, fq := js\<rparr>) = sheds_add_up f" for q js
    by (simp_all add: sheds_add_up_def RouteNames_def)
  show ?thesis
    using assms sheds_shed [of "f\<lparr>queuedBytes := queuedBytes f\<rparr>" name] k
    by (auto simp: enqueue_def Let_def split: if_splits) (simp_all add: shed_delivery_def tally_def)
qed

interpretation shed: transition_system "\<lambda>fs. feed_start c fs \<and> sheds_add_up c" feed_step "shed_ok c" for c
proof unfold_locales
  show "shed_ok c fs" if "feed_start c fs \<and> sheds_add_up c" for fs :: "feed_sys \<times> 'g site"
    using that by (simp add: feed_start_def shed_ok_def sheds_add_up_def RouteNames_def)
  show "shed_ok c gt" if ok: "shed_ok c fs" and "feed_step fs ev gt" for fs gt :: "feed_sys \<times> 'g site" and ev
    using that(2)
  proof cases
    case (handle env raw f s e f' s')
    have "fRoutes f' = fRoutes f \<and> (distinct (RouteNames f) \<longrightarrow> sheds_add_up f')"
    proof (cases "inspect env f raw")
      case (Bad x u)
      then have "sheds f' = sheds f" using handle(4)
        by (auto simp: Feed_Handle_def inspect_def parse_failed_def sheds_tally split: option.splits prod.splits if_splits)
      then show ?thesis using ok handle sheds_kept [of f' f] by (auto simp: shed_ok_def sheds_def RouteNames_def)
    next
      case (Good name j)
      have add: "distinct (RouteNames f) \<longrightarrow> sheds_add_up f" using ok handle by (simp add: shed_ok_def RouteNames_def)
      consider "fSubmit f = None" | "fWorkers f > 0" "\<not> fstarted f" "fSubmit f \<noteq> None"
        | "fWorkers f > 0" "fstarted f" "fSubmit f \<noteq> None" | "\<not> fWorkers f > 0" "fSubmit f \<noteq> None" by blast
      then show ?thesis
      proof cases
        case 1
        then have "sheds f' = sheds f" using handle(4) Good by (auto simp: Feed_Handle_def Let_def sheds_tally)
        then show ?thesis using add sheds_kept [of f' f] by (auto simp: sheds_def)
      next
        case 2
        then have "f' = shed_delivery name f" using handle(4) Good by (auto simp: Feed_Handle_def Let_def)
        then show ?thesis using add sheds_shed [of f name] by (auto simp: shed_delivery_def tally_def)
      next
        case 3
        then have "enqueue name j f = (e, f')" using handle(4) Good by (auto simp: Feed_Handle_def Let_def split: prod.splits)
        then show ?thesis using sheds_enqueue add by blast
      next
        case 4
        then have "feed_process env j f (mark_names env j f s) = (e, f', s')" using handle(4) Good by (auto simp: Feed_Handle_def Let_def)
        from sheds_process [OF this] show ?thesis using add sheds_kept [of f' f] by (auto simp: sheds_def)
      qed
    qed
    then show ?thesis using ok handle by (auto simp: shed_ok_def queued_since_def sheds_add_up_def RouteNames_def)
  next
    case (takes f j rest env s f' s')
    obtain e where "feed_process env j (f\<lparr>fq := rest, queuedBytes := queuedBytes f - int (length (object j))\<rparr>) s = (e, f', s')"
      using takes(6) by (auto simp: take_job_def) (metis prod.collapse)
    from sheds_process [OF this] have "sheds f' = sheds f" by (simp add: sheds_def)
    then show ?thesis using ok takes sheds_kept [of f' f]
      by (auto simp: shed_ok_def sheds_def sheds_add_up_def RouteNames_def)
  qed (use ok in \<open>auto simp: shed_ok_def sheds_add_up_def RouteNames_def\<close>)
qed

section \<open>Properties\<close>



text \<open>
  The sheds add up: over any run of deliveries and workers from a feed whose counters start at zero, with distinct
  route labels, the per-route shed counters of a snapshot sum to its total.
\<close>

theorem sheds_by_route_sum_to_the_total:
  assumes "feed_start c fs0" and "cnt c = zero_counters"
    and "distinct (RouteNames c)" and "run feed_step fs0 es (f, s)"
  shows "(\<Sum>r\<leftarrow>RouteNames f. st_ShedByRoute (feed_snapshot (cnt f)) r) = st_Shed (feed_snapshot (cnt f))"
proof -
  have "sheds_add_up c" using assms(2) by (simp add: sheds_add_up_def zero_counters_def)
  then have "shed_ok c (f, s)" using shed.invar_reach [of c fs0 es "(f, s)"] assms(1,4) by blast
  then show ?thesis using assms(3) by (auto simp: shed_ok_def sheds_add_up_def RouteNames_def feed_snapshot_def)
qed

theorem sheds_by_route_sum_to_the_total_witness:
  "\<exists>f s. run feed_step (sample_feed, sample_site) [FHandle sample_feed_env [97, 1, 2]] (f, s) \<and>
     st_Shed (feed_snapshot (cnt f)) = 1 \<and> st_ShedByRoute (feed_snapshot (cnt f)) ''default'' = 1"
proof -
  have i: "inspect sample_feed_env sample_feed [97, 1, 2] = Good ''a'' sample_delivery"
    using sample_inspect [of 0 False] by (simp add: sample_feed_def)
  obtain e f s where h: "Feed_Handle sample_feed_env [97, 1, 2] sample_feed sample_site = (e, f, s)" by (metis surj_pair)
  then have f: "f = shed_delivery ''a'' sample_feed" using i by (auto simp: Feed_Handle_def Let_def sample_feed_def)
  have r: "run feed_step (sample_feed, sample_site) [FHandle sample_feed_env [97, 1, 2]] (queued_since sample_feed f, s)"
    by (rule run_Cons, rule feed_step.handle [OF h], rule run_Nil)
  have st: "feed_start sample_feed (sample_feed, sample_site)" by (simp add: feed_start_def sample_feed_def)
  have z: "cnt sample_feed = zero_counters" and d: "distinct (RouteNames sample_feed)"
    by (simp_all add: sample_feed_def RouteNames_def map_filter_simps)
  have "RouteNames (queued_since sample_feed f) = [''default'']" "st_Shed (feed_snapshot (cnt (queued_since sample_feed f))) = 1"
    by (simp_all add: f queued_since_def RouteNames_def shed_delivery_def tally_def addShed_def feed_snapshot_def sample_feed_def
        zero_counters_def DefaultRoute_def map_filter_simps)
  then show ?thesis using sheds_by_route_sum_to_the_total [OF st z d r] r
    by (intro exI [of _ "queued_since sample_feed f"] exI [of _ s]) simp
qed

end
