(* ===== verification/Topics_Reconcile.thy ===== *)
theory Topics_Reconcile
  imports Feed_Props "HOL-Library.Char_ord" "HOL-Library.List_Lexorder"
begin

text \<open>
  The startup check of \<^verbatim>\<open>src/topics/reconcile.go\<close> and its caller \<^verbatim>\<open>src/cmd/overlay-bridge/reconcile.go\<close>: the bridge's
  topic names against the identifiers its consumer is subscribed to. SHA-256, the HTTP exchange and the decoding of
  the broker's JSON are parameters.
\<close>

section \<open>Names and identifiers\<close>

definition name_bytes :: "string \<Rightarrow> bytes" where
  "name_bytes n = map (\<lambda>c. word_of_nat (of_char c)) n"

definition topics_ID :: "(bytes \<Rightarrow> bytes) \<Rightarrow> string \<Rightarrow> hash" where
  "topics_ID sha name = sha (name_bytes name)"

definition lower_char :: "char \<Rightarrow> char" where
  "lower_char c = (let n = of_char c :: nat in if 65 \<le> n \<and> n \<le> 90 then char_of (n + 32) else c)"

definition to_lower :: "string \<Rightarrow> string" where
  "to_lower s = map lower_char s"

definition splitList :: "string \<Rightarrow> string list" where
  "splitList s = filter (\<lambda>p. p \<noteq> []) (map trim_space (split_on CHR '','' s))"

section \<open>Comparing\<close>

record Diff =
  Missing :: "string list"
  Extra :: "string list"
  AllTopics :: bool

definition Diff_OK :: "Diff \<Rightarrow> bool" where
  "Diff_OK d \<longleftrightarrow> length (Missing d) = 0 \<and> \<not> AllTopics d"

fun join_comma :: "string list \<Rightarrow> string" where
  "join_comma [] = []"
| "join_comma [x] = x"
| "join_comma (x # y # xs) = x @ '','' @ join_comma (y # xs)"

definition Describe :: "Diff \<Rightarrow> string" where
  "Describe d =
    (if AllTopics d then
       ''consumer is an AGGREGATOR (every topic on the plane); a finite -topics list cannot match it, '' @
       ''so objects outside the list are being discarded''
     else if length (Missing d) > 0 \<and> length (Extra d) > 0 then
       ''subscribed but NOT bridged: '' @ join_comma (Missing d) @
       '' (their objects are being discarded); bridged but not subscribed: '' @ join_comma (Extra d)
     else if length (Missing d) > 0 then
       ''subscribed but NOT bridged: '' @ join_comma (Missing d) @ '' (their objects are being discarded)''
     else if length (Extra d) > 0 then
       ''bridged but not subscribed: '' @ join_comma (Extra d) @ '' (harmless, nothing is delivered for them)''
     else ''elected topics match the consumer's subscription'')"

text \<open>The map from identifier to name, the last name of an identifier winning, and its keys.\<close>

fun by_id :: "(bytes \<Rightarrow> bytes) \<Rightarrow> string list \<Rightarrow> (string \<Rightarrow> string option) \<Rightarrow> (string \<Rightarrow> string option)" where
  "by_id sha [] m = m"
| "by_id sha (n # ns) m = (let t = trim_space n in
     if t = [] then by_id sha ns m
     else by_id sha ns (m(hex_encode (topics_ID sha t) := Some t)))"

definition bridged_ids :: "(bytes \<Rightarrow> bytes) \<Rightarrow> string list \<Rightarrow> string list" where
  "bridged_ids sha ns = remdups (map (\<lambda>t. hex_encode (topics_ID sha t)) (filter (\<lambda>t. t \<noteq> []) (map trim_space ns)))"

text \<open>Both maps are walked in no particular order; sorting makes the order immaterial.\<close>

definition Compare :: "(bytes \<Rightarrow> bytes) \<Rightarrow> string list \<Rightarrow> string list \<Rightarrow> bool \<Rightarrow> Diff" where
  "Compare sha bridged subscribedIDs allTopics =
    (let byID = by_id sha bridged (\<lambda>_. None);
         sub = remdups (map (\<lambda>s. to_lower (trim_space s)) subscribedIDs) in
     \<lparr>Missing = sort (filter (\<lambda>i. byID i = None) sub),
      Extra = sort (List.map_filter byID (filter (\<lambda>i. i \<notin> set sub) (bridged_ids sha bridged))),
      AllTopics = allTopics\<rparr>)"

section \<open>Fetching\<close>

record Subscription =
  TopicIDs :: "string list"
  sub_AllTopics :: bool

record consumer =
  con_ID :: string
  BeefTopics :: "string list"
  AllBeefTopics :: bool

record state_request =
  sr_url :: string
  sr_auth :: "string option"

text \<open>An exchange: refused before it was sent or not answered, an answer whose body breaks off, or status and body.\<close>

datatype state_reply = BadRequest | NoReply | BrokenReply | Replied nat bytes

datatype fetch_err = FetchRequest | FetchTransport | FetchRead | FetchStatus nat | FetchJSON | FetchAbsent string

definition state_request_for :: "string \<Rightarrow> string \<Rightarrow> state_request" where
  "state_request_for base token = \<lparr>sr_url = trim_right_slash base @ ''/v1/state'',
     sr_auth = (if token \<noteq> [] then Some (''Bearer '' @ token) else None)\<rparr>"

definition max_state_bytes :: nat where "max_state_bytes = 32 * 2 ^ 20"

fun find_consumer :: "(bytes \<Rightarrow> bytes) \<Rightarrow> string \<Rightarrow> consumer list \<Rightarrow> fetch_err + Subscription" where
  "find_consumer sha cid [] = Inl (FetchAbsent cid)"
| "find_consumer sha cid (c # cs) =
    (if con_ID c \<noteq> cid then find_consumer sha cid cs
     else Inr \<lparr>TopicIDs = map (\<lambda>n. hex_encode (topics_ID sha n)) (BeefTopics c), sub_AllTopics = AllBeefTopics c\<rparr>)"

definition Fetch :: "(bytes \<Rightarrow> bytes) \<Rightarrow> (state_request \<Rightarrow> state_reply) \<Rightarrow> (bytes \<Rightarrow> consumer list option) \<Rightarrow>
    string \<Rightarrow> string \<Rightarrow> string \<Rightarrow> fetch_err + Subscription" where
  "Fetch sha ask unmarshal base consumerID token =
    (case ask (state_request_for base token) of
       BadRequest \<Rightarrow> Inl FetchRequest
     | NoReply \<Rightarrow> Inl FetchTransport
     | BrokenReply \<Rightarrow> Inl FetchRead
     | Replied code body \<Rightarrow>
         if code \<noteq> 200 then Inl (FetchStatus code)
         else (case unmarshal (take max_state_bytes body) of
             None \<Rightarrow> Inl FetchJSON
           | Some cs \<Rightarrow> find_consumer sha consumerID cs))"

section \<open>At startup\<close>

datatype reconciled = ReconcileOff | BrokerUnread fetch_err | TopicsReconciled Diff | TopicMismatch Diff

definition reconcileTopics :: "(bytes \<Rightarrow> bytes) \<Rightarrow> (state_request \<Rightarrow> state_reply) \<Rightarrow> (bytes \<Rightarrow> consumer list option) \<Rightarrow>
    string \<Rightarrow> string \<Rightarrow> string \<Rightarrow> string \<Rightarrow> string list \<Rightarrow> reconciled" where
  "reconcileTopics sha ask unmarshal subURL subID subToken env_token elected =
    (let token = (if subToken = [] then env_token else subToken) in
     if subURL = [] \<or> subID = [] then ReconcileOff
     else (case Fetch sha ask unmarshal subURL subID token of
         Inl e \<Rightarrow> BrokerUnread e
       | Inr sub \<Rightarrow> (let d = Compare sha elected (TopicIDs sub) (sub_AllTopics sub) in
           if Diff_OK d then TopicsReconciled d else TopicMismatch d)))"

section \<open>Identifiers in hexadecimal\<close>

lemma hex_encode_inj: "hex_encode a = hex_encode b \<longleftrightarrow> a = b"
  by (metis hex_decode_encode option.inject)

lemma lower_hex_digit: "n < 16 \<Longrightarrow> lower_char (hex_digit n) = hex_digit n"
  by (simp add: lower_char_def hex_digit_def of_char_of)

lemma nibbles: "unat b div 16 < 16" "unat b mod 16 < 16" for b :: byte
proof -
  have "unat b < 256" using unsigned_less [of b] by simp
  then show "unat b div 16 < 16" by simp
qed simp

lemma to_lower_hex: "to_lower (hex_encode bs) = hex_encode bs"
  unfolding to_lower_def by (induction bs) (simp_all add: lower_hex_digit nibbles)

lemma trim_hex: "trim_space (hex_encode bs) = hex_encode bs"
proof -
  have ns: "c \<in> set (hex_encode bs) \<Longrightarrow> \<not> is_space c" for c
    by (induction bs) (auto simp: hex_not_space nibbles)
  show ?thesis
    by (rule trim_space_clean) (use ns in \<open>auto simp: clean_def\<close>)
qed

lemma by_id_None:
  "by_id sha ns m i = None \<longleftrightarrow> m i = None \<and> (\<forall>n \<in> set ns. trim_space n \<noteq> [] \<longrightarrow> hex_encode (topics_ID sha (trim_space n)) \<noteq> i)"
  by (induction ns arbitrary: m) (auto simp: Let_def)

lemma splitList_clean: "n \<in> set (splitList s) \<Longrightarrow> clean n"
  using trim_space_result by (auto simp: splitList_def)

lemma NewTopicMap_None: "NewTopicMap env ns m i = None \<longleftrightarrow> m i = None \<and> (\<forall>n \<in> set ns. topic_id env n \<noteq> i)"
  by (induction ns arbitrary: m) auto

text \<open>No subscribed topic is missing exactly when each has a bridged name.\<close>

lemma Compare_OK:
  assumes "\<forall>n \<in> set elected. clean n"
  shows "Diff_OK (Compare sha elected (map (\<lambda>n. hex_encode (topics_ID sha n)) subs) allTopics) \<longleftrightarrow>
    \<not> allTopics \<and> (\<forall>t \<in> set subs. \<exists>n \<in> set elected. topics_ID sha n = topics_ID sha t)"
proof -
  have tr: "trim_space n = n \<and> n \<noteq> []" if "n \<in> set elected" for n
    using assms that trim_space_clean by (auto simp: clean_def)
  have "by_id sha elected (\<lambda>_. None) (hex_encode (topics_ID sha t)) \<noteq> None \<longleftrightarrow>
      (\<exists>n \<in> set elected. topics_ID sha n = topics_ID sha t)" for t
    using tr by (auto simp: by_id_None hex_encode_inj)
  moreover have "Diff_OK (Compare sha elected (map (\<lambda>n. hex_encode (topics_ID sha n)) subs) allTopics) \<longleftrightarrow>
      \<not> allTopics \<and> (\<forall>t \<in> set subs. by_id sha elected (\<lambda>_. None) (hex_encode (topics_ID sha t)) \<noteq> None)"
    by (auto simp: Compare_def Let_def Diff_OK_def filter_empty_conv to_lower_hex trim_hex)
  ultimately show ?thesis by simp
qed

section \<open>Properties\<close>


definition sample_consumer :: consumer where
  "sample_consumer = \<lparr>con_ID = ''c1'', BeefTopics = [''a'', ''b''], AllBeefTopics = False\<rparr>"


end
