(* ===== verification/Spv_Check.thy ===== *)
theory Spv_Check
  imports Spv_Marker
begin

text \<open>
  The verifier of \<^verbatim>\<open>src/pkg/spv\<close>: the walk that proves the mined ancestors of a transaction, the checks of every
  unmined one (\<^verbatim>\<open>check.go\<close>), the tracker wrapper and the classification of a failure (\<^verbatim>\<open>spv.go\<close>). Transactions are
  the SDK's objects, reached through references into a list; parsing, merkle path verification and the script
  interpreter are parameters.
\<close>

section \<open>Transactions\<close>

record tx_output =
  Satoshis :: u64
  LockingScript :: "bytes option"

text \<open>\<open>SourceTxOutput\<close> is the output the input carries when it has no source transaction.\<close>

record tx_input =
  SourceTXID :: "hash option"
  SourceTxOutIndex :: u32
  SequenceNumber :: u32
  SourceTransaction :: "nat option"
  SourceTxOutput :: "tx_output option"

text \<open>A merkle path is known by its number; \<open>BlockHeight\<close> is its height.\<close>

record tx =
  Inputs :: "tx_input list"
  Outputs :: "tx_output list"
  LockTime :: u32
  MerklePath :: "nat option"
  BlockHeight :: u32

section \<open>Surroundings\<close>

text \<open>What the tracker wrapper has seen.\<close>

record watch =
  failed :: bool
  notYet :: bool

type_synonym root_query = "hash \<Rightarrow> u32 \<Rightarrow> watch \<Rightarrow> bool option \<times> watch"

text \<open>
  The inner tracker's answers (\<open>None\<close> is an error), merkle path verification against a tracker (\<open>None\<close> is an error),
  the script interpreter for input \<open>i\<close> of a transaction spending an output whose coin has the given height, the
  shape test for P2SH, and the height of the Genesis activation.
\<close>

record spv_env =
  objs :: "tx list"
  txid_of :: "nat \<Rightarrow> hash"
  valid_root :: "hash \<Rightarrow> u32 \<Rightarrow> bool option"
  current_height :: "u32 option"
  path_verify :: "nat \<Rightarrow> hash \<Rightarrow> root_query \<Rightarrow> watch \<Rightarrow> bool option \<times> watch"
  run_script :: "nat \<Rightarrow> nat \<Rightarrow> tx_output \<Rightarrow> u32 \<Rightarrow> bool"
  is_p2sh :: "bytes \<Rightarrow> bool"
  genesis :: u32

definition FinalityIgnore :: string where "FinalityIgnore = ''ignore''"
definition FinalityRequire :: string where "FinalityRequire = ''require''"

definition ParseFinality :: "string \<Rightarrow> string option" where
  "ParseFinality s = (if s = [] \<or> s = FinalityIgnore then Some FinalityIgnore
     else if s = FinalityRequire then Some FinalityRequire else None)"

definition ParseNetwork :: "string \<Rightarrow> string option" where
  "ParseNetwork s = (if s = [] then Some ''main'' else if s \<in> {''main'', ''test'', ''all''} then Some s else None)"

section \<open>The tracker wrapper\<close>

definition watch_IsValidRoot :: "spv_env \<Rightarrow> root_query" where
  "watch_IsValidRoot env root height w = (case valid_root env root height of
      None \<Rightarrow> (None, w\<lparr>failed := True\<rparr>)
    | Some ok \<Rightarrow>
        (Some ok,
         if \<not> ok then (case current_height env of
             Some tip \<Rightarrow> if height > tip then w\<lparr>notYet := True\<rparr> else w
           | None \<Rightarrow> w)
         else w))"

definition watch_CurrentHeight :: "spv_env \<Rightarrow> watch \<Rightarrow> u32 option \<times> watch" where
  "watch_CurrentHeight env w = (case current_height env of
      None \<Rightarrow> (None, w\<lparr>failed := True\<rparr>)
    | Some h \<Rightarrow> (Some h, w))"

section \<open>The graph of one verification\<close>

record graph =
  finality :: string
  skipScripts :: bool
  mined :: "hash \<Rightarrow> u32 option"
  tip :: "u32 option"
  scripts :: nat
  gw :: watch

definition maxSatoshis :: nat where "maxSatoshis = 21000000 * 100000000"
definition coinbaseMaturity :: int where "coinbaseMaturity = 100"
definition confiscationMaturity :: int where "confiscationMaturity = 1000"
definition lockTimeThreshold :: u32 where "lockTimeThreshold = 500000000"
definition unminedHeight :: u32 where "unminedHeight = - 1"
definition confiscationMarker :: bytes where "confiscationMarker = [0x00, 0x6a, 0x04, 0x63, 0x66, 0x74, 0x78]"

definition chainTip :: "spv_env \<Rightarrow> graph \<Rightarrow> (spv_err + u32) \<times> graph" where
  "chainTip env g = (case tip g of
      Some h \<Rightarrow> (Inr h, g)
    | None \<Rightarrow> (case watch_CurrentHeight env (gw g) of
        (None, w) \<Rightarrow> (Inl TrackerErr, g\<lparr>gw := w\<rparr>)
      | (Some h, w) \<Rightarrow> (Inr h, g\<lparr>gw := w, tip := Some h\<rparr>)))"

definition isNullOutpoint :: "tx_input \<Rightarrow> bool" where
  "isNullOutpoint i \<longleftrightarrow> SourceTXID i = Some zero_hash \<and> SourceTxOutIndex i = 0xffffffff"

definition isCoinbase :: "tx \<Rightarrow> bool" where
  "isCoinbase t \<longleftrightarrow> length (Inputs t) = 1 \<and> isNullOutpoint (hd (Inputs t))"

definition isConfiscationTx :: "tx \<Rightarrow> bool" where
  "isConfiscationTx t = (case Outputs t of
      [] \<Rightarrow> False
    | p # _ \<Rightarrow> (case LockingScript p of None \<Rightarrow> False | Some sc \<Rightarrow> take 7 sc = confiscationMarker))"

definition src_tx :: "spv_env \<Rightarrow> tx_input \<Rightarrow> tx option" where
  "src_tx env i = (case SourceTransaction i of
      None \<Rightarrow> None
    | Some k \<Rightarrow> if k < length (objs env) then Some (objs env ! k) else None)"

definition spentOutput :: "spv_env \<Rightarrow> tx_input \<Rightarrow> tx_output option" where
  "spentOutput env i = (case src_tx env i of
      None \<Rightarrow> SourceTxOutput i
    | Some t \<Rightarrow> if length (Outputs t) \<le> unat (SourceTxOutIndex i) then None
              else Some (Outputs t ! unat (SourceTxOutIndex i)))"

definition addSats :: "u64 \<Rightarrow> u64 \<Rightarrow> u64 option" where
  "addSats tot v = (let m = word_of_nat maxSatoshis in
     if v > m \<or> tot > m - v then None else Some (tot + v))"

fun sumSats :: "u64 \<Rightarrow> u64 list \<Rightarrow> u64 option" where
  "sumSats tot [] = Some tot"
| "sumSats tot (v # vs) = (case addSats tot v of None \<Rightarrow> None | Some t \<Rightarrow> sumSats t vs)"

definition deepEnough :: "spv_env \<Rightarrow> tx_input \<Rightarrow> int \<Rightarrow> graph \<Rightarrow> (spv_err + bool) \<times> graph" where
  "deepEnough env i maturity g = (case (case SourceTXID i of None \<Rightarrow> None | Some h \<Rightarrow> mined g h) of
      None \<Rightarrow> (Inr False, g)
    | Some h \<Rightarrow> (case chainTip env g of
        (Inl e, g1) \<Rightarrow> (Inl e, g1)
      | (Inr t, g1) \<Rightarrow> (Inr (uint t + 1 - uint h \<ge> maturity), g1)))"

definition final :: "spv_env \<Rightarrow> tx \<Rightarrow> graph \<Rightarrow> spv_err option \<times> graph" where
  "final env t g =
    (if LockTime t = 0 then (None, g)
     else if list_all (\<lambda>i. SequenceNumber i = 0xffffffff) (Inputs t) then (None, g)
     else if LockTime t \<ge> lockTimeThreshold then (Some NonFinal, g)
     else (case chainTip env g of
         (Inl e, g1) \<Rightarrow> (Some e, g1)
       | (Inr h, g1) \<Rightarrow> (if LockTime t \<le> h then None else Some NonFinal, g1)))"

definition p2shCoinHeight :: "spv_env \<Rightarrow> tx_input \<Rightarrow> tx_output \<Rightarrow> u32 \<Rightarrow> graph \<Rightarrow> u32" where
  "p2shCoinHeight env i prev coin g =
    (if genesis env = 0 \<or> \<not> (case LockingScript prev of None \<Rightarrow> False | Some sc \<Rightarrow> is_p2sh env sc) then coin
     else if (case src_tx env i of None \<Rightarrow> False | Some t \<Rightarrow> isCoinbase t) \<and>
        (case SourceTXID i of None \<Rightarrow> False | Some h \<Rightarrow> mined g h \<noteq> None) then coin
     else if coin \<ge> genesis env then genesis env - 1 else coin)"

section \<open>Checking one unmined transaction\<close>

fun outpoints_ok :: "(hash \<times> u32) set \<Rightarrow> tx_input list \<Rightarrow> spv_err option" where
  "outpoints_ok spent [] = None"
| "outpoints_ok spent (i # is) = (case SourceTXID i of
     None \<Rightarrow> Some MissingSource
   | Some h \<Rightarrow>
       if isNullOutpoint i then Some NullOutpoint
       else if (h, SourceTxOutIndex i) \<in> spent then Some DuplicateInput
       else outpoints_ok (insert (h, SourceTxOutIndex i) spent) is)"

text \<open>One input's spent output, maturity and amount; the running total goes along.\<close>

definition mature :: "spv_env \<Rightarrow> (tx \<Rightarrow> bool) \<Rightarrow> int \<Rightarrow> spv_err \<Rightarrow> tx_input \<Rightarrow> graph \<Rightarrow> spv_err option \<times> graph" where
  "mature env kind maturity early i g = (case src_tx env i of
      None \<Rightarrow> (None, g)
    | Some t \<Rightarrow>
        if kind t then
          (case deepEnough env i maturity g of
             (Inl e, g1) \<Rightarrow> (Some e, g1)
           | (Inr ok, g1) \<Rightarrow> (if ok then None else Some early, g1))
        else (None, g))"

fun spend_inputs :: "spv_env \<Rightarrow> tx_input list \<Rightarrow> u64 \<Rightarrow> graph \<Rightarrow> (spv_err + u64) \<times> graph" where
  "spend_inputs env [] tot g = (Inr tot, g)"
| "spend_inputs env (i # is) tot g = (case spentOutput env i of
     None \<Rightarrow> (Inl MissingSource, g)
   | Some p \<Rightarrow>
       (case mature env isCoinbase coinbaseMaturity PrematureCoinbase i g of
          (Some e, g1) \<Rightarrow> (Inl e, g1)
        | (None, g1) \<Rightarrow>
            (case mature env isConfiscationTx confiscationMaturity PrematureConfiscation i g1 of
               (Some e, g2) \<Rightarrow> (Inl e, g2)
             | (None, g2) \<Rightarrow>
                 (case addSats tot (Satoshis p) of
                    None \<Rightarrow> (Inl ValueOutOfRange, g2)
                  | Some t \<Rightarrow> spend_inputs env is t g2))))"

definition coin_height :: "tx_input \<Rightarrow> graph \<Rightarrow> u32" where
  "coin_height i g = (case (case SourceTXID i of None \<Rightarrow> None | Some h \<Rightarrow> mined g h) of
     Some h \<Rightarrow> h | None \<Rightarrow> unminedHeight)"

fun run_scripts :: "spv_env \<Rightarrow> nat \<Rightarrow> nat \<Rightarrow> tx_input list \<Rightarrow> graph \<Rightarrow> spv_err option \<times> graph" where
  "run_scripts env k vin [] g = (None, g)"
| "run_scripts env k vin (i # is) g = (case spentOutput env i of
     None \<Rightarrow> (Some MissingSource, g)
   | Some p \<Rightarrow>
       (let g1 = g\<lparr>scripts := scripts g + 1\<rparr> in
        if run_script env k vin p (p2shCoinHeight env i p (coin_height i g) g) then run_scripts env k (vin + 1) is g1
        else (Some ScriptFailed, g1)))"

definition checkTx :: "spv_env \<Rightarrow> nat \<Rightarrow> graph \<Rightarrow> spv_err option \<times> graph" where
  "checkTx env k g =
    (let t = objs env ! k in
     if isCoinbase t then (Some UnminedCoinbase, g)
     else if Inputs t = [] then (Some NoInputs, g)
     else if Outputs t = [] then (Some NoOutputs, g)
     else (case sumSats 0 (map Satoshis (Outputs t)) of
         None \<Rightarrow> (Some ValueOutOfRange, g)
       | Some outTotal \<Rightarrow>
           if list_ex (\<lambda>p. case LockingScript p of None \<Rightarrow> False | Some sc \<Rightarrow> is_p2sh env sc) (Outputs t) then (Some P2SHOutput, g)
           else (case outpoints_ok {} (Inputs t) of
               Some e \<Rightarrow> (Some e, g)
             | None \<Rightarrow>
                 (case (if finality g = FinalityRequire then final env t g else (None, g)) of
                    (Some e, g1) \<Rightarrow> (Some e, g1)
                  | (None, g1) \<Rightarrow>
                      if isConfiscationTx t then (Some ConfiscationTx, g1)
                      else (case spend_inputs env (Inputs t) 0 g1 of
                          (Inl e, g2) \<Rightarrow> (Some e, g2)
                        | (Inr inTotal, g2) \<Rightarrow>
                            if outTotal > inTotal then (Some OutputsExceedInputs, g2)
                            else if skipScripts g2 then (None, g2)
                            else run_scripts env k 0 (Inputs t) g2)))))"

section \<open>Proving the mined ancestors\<close>

text \<open>The sources of a transaction's inputs, each queued the first time it is seen.\<close>

fun scan_sources :: "spv_env \<Rightarrow> tx_input list \<Rightarrow> nat list \<Rightarrow> nat list \<Rightarrow> spv_err + nat list \<times> nat list" where
  "scan_sources env [] seen queue = Inr (seen, queue)"
| "scan_sources env (i # is) seen queue = (case SourceTransaction i of
     None \<Rightarrow> scan_sources env is seen queue
   | Some k \<Rightarrow>
       if \<not> k < length (objs env) then scan_sources env is seen queue
       else if SourceTXID i \<noteq> Some (txid_of env k) then Inl SourceMismatch
       else if k \<in> set seen then scan_sources env is seen queue
       else scan_sources env is (k # seen) (queue @ [k]))"

lemma scan_sources_grows:
  "scan_sources env is seen queue = Inr (seen', queue') \<Longrightarrow>
   \<exists>new. queue' = queue @ new \<and> set seen' = set seen \<union> set new \<and> set new \<inter> set seen = {} \<and> distinct new \<and>
     (\<forall>k \<in> set new. k < length (objs env))"
proof (induction "is" arbitrary: seen queue)
  case (Cons i "is")
  show ?case
  proof (cases "\<exists>k. SourceTransaction i = Some k \<and> k < length (objs env) \<and> k \<notin> set seen \<and> SourceTXID i = Some (txid_of env k)")
    case True
    then obtain k where k: "SourceTransaction i = Some k" "k < length (objs env)" "k \<notin> set seen" "SourceTXID i = Some (txid_of env k)"
      by blast
    then have "scan_sources env is (k # seen) (queue @ [k]) = Inr (seen', queue')" using Cons.prems by simp
    from Cons.IH [OF this] obtain new where "queue' = queue @ [k] @ new" "set seen' = set (k # seen) \<union> set new"
      "set new \<inter> set (k # seen) = {}" "distinct new" "\<forall>k \<in> set new. k < length (objs env)" by auto
    then show ?thesis using k by (intro exI [of _ "k # new"]) auto
  next
    case False
    then have "scan_sources env is seen queue = Inr (seen', queue')"
      using Cons.prems by (auto split: option.splits if_splits)
    then show ?thesis by (rule Cons.IH)
  qed
qed auto

definition prove_path :: "spv_env \<Rightarrow> nat \<Rightarrow> nat \<Rightarrow> graph \<Rightarrow> spv_err option \<times> graph" where
  "prove_path env k mp g =
    (let id = txid_of env k; h = BlockHeight (objs env ! k) in
     case path_verify env mp id (watch_IsValidRoot env) (gw g) of
       (None, w) \<Rightarrow> (Some TrackerErr, g\<lparr>gw := w\<rparr>)
     | (Some ok, w) \<Rightarrow>
         (let g1 = g\<lparr>gw := w\<rparr> in
          if \<not> ok then (Some InvalidMerklePath, g1)
          else if mined g1 id \<noteq> None \<and> mined g1 id \<noteq> Some h then (Some InvalidMerklePath, g1)
          else (None, g1\<lparr>mined := (mined g1)(id := Some h)\<rparr>)))"

function proveMined :: "spv_env \<Rightarrow> nat list \<Rightarrow> nat list \<Rightarrow> graph \<Rightarrow> spv_err option \<times> graph" where
  "proveMined env seen [] g = (None, g)"
| "proveMined env seen (k # queue) g = (case MerklePath (objs env ! k) of
     Some mp \<Rightarrow> (case prove_path env k mp g of
        (Some e, g1) \<Rightarrow> (Some e, g1)
      | (None, g1) \<Rightarrow> proveMined env seen queue g1)
   | None \<Rightarrow> (case scan_sources env (Inputs (objs env ! k)) seen queue of
        Inl e \<Rightarrow> (Some e, g)
      | Inr (seen', queue') \<Rightarrow> proveMined env seen' queue' g))"
  by pat_completeness auto

definition unseen :: "spv_env \<Rightarrow> nat list \<Rightarrow> nat" where
  "unseen env seen = card ({..<length (objs env)} - set seen)"

lemma unseen_step:
  assumes "scan_sources env is seen queue = Inr (seen', queue')"
  shows "unseen env seen' < unseen env seen \<or> unseen env seen' = unseen env seen \<and> queue' = queue"
proof -
  obtain new where n: "queue' = queue @ new" "set seen' = set seen \<union> set new" "set new \<inter> set seen = {}"
    "\<forall>k \<in> set new. k < length (objs env)" using scan_sources_grows [OF assms] by blast
  show ?thesis
  proof (cases new)
    case Nil
    then show ?thesis using n by (simp add: unseen_def)
  next
    case (Cons a as)
    then have "{..<length (objs env)} - set seen' \<subset> {..<length (objs env)} - set seen" using n by auto
    then have "unseen env seen' < unseen env seen" unfolding unseen_def by (intro psubset_card_mono) auto
    then show ?thesis by simp
  qed
qed

termination proveMined
  by (relation "inv_image (less_than <*lex*> less_than) (\<lambda>(env, seen, queue, g). (unseen env seen, length queue))")
    (auto dest: unseen_step)

declare proveMined.simps [simp del]

section \<open>Checking a tip and its unmined ancestors\<close>

definition sources :: "spv_env \<Rightarrow> nat \<Rightarrow> nat list" where
  "sources env k = filter (\<lambda>j. j < length (objs env)) (List.map_filter SourceTransaction (Inputs (objs env ! k)))"

function check_loop :: "spv_env \<Rightarrow> nat list \<Rightarrow> nat list \<Rightarrow> graph \<Rightarrow> spv_err option \<times> graph" where
  "check_loop env visited [] g = (None, g)"
| "check_loop env visited (k # queue) g =
    (if k \<in> set visited \<or> \<not> k < length (objs env) then check_loop env visited queue g
     else if mined g (txid_of env k) \<noteq> None then check_loop env (k # visited) queue g
     else (case checkTx env k g of
         (Some e, g1) \<Rightarrow> (Some e, g1)
       | (None, g1) \<Rightarrow>
           check_loop env (k # visited) (queue @ filter (\<lambda>j. j \<notin> set (k # visited)) (sources env k)) g1))"
  by pat_completeness auto
termination
proof (relation "inv_image (less_than <*lex*> less_than) (\<lambda>(env, visited, queue, g). (unseen env visited, length queue))", goal_cases)
  case (3 env visited k queue g)
  then have "{..<length (objs env)} - set (k # visited) \<subset> {..<length (objs env)} - set visited" by auto
  then have "unseen env (k # visited) < unseen env visited" unfolding unseen_def by (intro psubset_card_mono) auto
  then show ?case by simp
next
  case (4 env visited k queue g)
  then have "{..<length (objs env)} - set (k # visited) \<subset> {..<length (objs env)} - set visited" by auto
  then have "unseen env (k # visited) < unseen env visited" unfolding unseen_def by (intro psubset_card_mono) auto
  then show ?case by simp
qed auto

declare check_loop.simps [simp del]

definition check :: "spv_env \<Rightarrow> nat \<Rightarrow> graph \<Rightarrow> spv_err option \<times> graph" where
  "check env k g = (case proveMined env [k] [k] g of
      (Some e, g1) \<Rightarrow> (Some e, g1)
    | (None, g1) \<Rightarrow> check_loop env [] [k] g1)"

section \<open>Verifying an object\<close>

text \<open>
  A parsed BEEF: its transactions in the order the map is walked, each with the transaction object it holds (\<open>None\<close> for
  an entry without one), and the linked object of each identifier.
\<close>

record beef =
  entries :: "(hash \<times> nat option) list"
  find_linked :: "hash \<Rightarrow> nat option"

record verifier =
  vTracker :: bool
  vFinality :: string
  vSkipScripts :: bool

definition spent_ids :: "spv_env \<Rightarrow> beef \<Rightarrow> hash list" where
  "spent_ids env b = List.map_filter SourceTXID
     (concat (map (\<lambda>e. case snd e of None \<Rightarrow> [] | Some k \<Rightarrow> Inputs (objs env ! k)) (entries b)))"

definition present_ids :: "beef \<Rightarrow> hash list" where
  "present_ids b = map fst (filter (\<lambda>e. snd e \<noteq> None) (entries b))"

definition classify :: "bool \<Rightarrow> watch \<Rightarrow> spv_err \<Rightarrow> spv_result \<times> spv_reason" where
  "classify over w e =
    (if over then (ResultError, ReasonDeadline)
     else if failed w then (ResultError, ReasonTracker)
     else if notYet w then (ResultError, ReasonNotYet)
     else if e = ScriptFailed then (ResultRefused, ReasonScript)
     else if e = InvalidMerklePath then (ResultRefused, ReasonMerkle)
     else (ResultRefused, ReasonStructure))"

text \<open>The tips in order; \<open>over\<close> says whether the deadline has passed when a failure is classified.\<close>

fun verify_tips :: "spv_env \<Rightarrow> bool \<Rightarrow> beef \<Rightarrow> hash list \<Rightarrow> hash list \<Rightarrow> hash \<Rightarrow> nat \<Rightarrow> graph \<Rightarrow> verdict" where
  "verify_tips env over b [] spent prev n g =
     \<lparr>vResult = ResultOK, vReason = ReasonNone, vTxID = prev, vTransactions = n, vScripts = scripts g, vErr = None\<rparr>"
| "verify_tips env over b (x # ids) spent prev n g =
    (if x \<in> set spent then verify_tips env over b ids spent prev n g
     else (case find_linked b x of
         None \<Rightarrow> verify_tips env over b ids spent prev n g
       | Some k \<Rightarrow>
           (case check env k g of
              (Some e, g1) \<Rightarrow>
                (let (res, reason) = classify over (gw g1) e in
                 \<lparr>vResult = res, vReason = reason, vTxID = x, vTransactions = n, vScripts = scripts g1, vErr = Some e\<rparr>)
            | (None, g1) \<Rightarrow> verify_tips env over b ids spent x n g1)))"

definition refused_verdict :: "spv_result \<Rightarrow> spv_reason \<Rightarrow> spv_err \<Rightarrow> verdict" where
  "refused_verdict res reason e = \<lparr>vResult = res, vReason = reason, vTxID = zero_hash, vTransactions = 0, vScripts = 0, vErr = Some e\<rparr>"

definition new_graph :: "verifier \<Rightarrow> graph" where
  "new_graph v = \<lparr>finality = (if vFinality v = [] then FinalityIgnore else vFinality v), skipScripts = vSkipScripts v,
     mined = (\<lambda>_. None), tip = None, scripts = 0, gw = \<lparr>failed = False, notYet = False\<rparr>\<rparr>"

definition Verify :: "spv_env \<Rightarrow> (bytes \<Rightarrow> beef option) \<Rightarrow> bool \<Rightarrow> verifier \<Rightarrow> bytes \<Rightarrow> verdict" where
  "Verify env parse over v raw =
    (if \<not> vTracker v then refused_verdict ResultError ReasonTracker NoTracker
     else (case (if length raw < 4 then None else parse raw) of
         None \<Rightarrow> refused_verdict ResultRefused ReasonParse BadBEEF
       | Some b \<Rightarrow>
           if present_ids b = [] then refused_verdict ResultRefused ReasonParse NoTransaction
           else verify_tips env over b (present_ids b) (spent_ids env b) zero_hash (length (present_ids b)) (new_graph v)))"

end
