(* ===== verification/Task_Group.thy ===== *)
theory Task_Group
  imports Bridge_Prelude
begin

text \<open>
  The process's task group, \<^verbatim>\<open>src/cmd/overlay-bridge/group.go\<close>: long-lived tasks, the first failure of which stops
  the others and is what the process reports.
\<close>

section \<open>State\<close>

text \<open>An error a task returns: the context's own cancellation (wrapped or not) or anything else.\<close>

datatype task_err = CtxCanceled | EarlyReturn | OtherErr string

text \<open>Where a task is: running, about to record a failure, about to cancel the group, or stopped.\<close>

datatype task_pc = TRunning | TFailing task_err | TCancelling | TStopped

text \<open>
  The record carries, beside the group's fields, whether the surrounding context ended, how each task returned and
  whether the group's context had ended by then, and the failures recorded, in order.
\<close>

record group =
  tasks :: "(string \<times> task_pc) list"
  cancelled_own :: bool
  cancelled_parent :: bool
  g_err :: "(string \<times> task_err) option"
  returned :: "(string \<times> task_err option \<times> bool) list"
  failures :: "(string \<times> task_err) list"

definition newGroup :: "bool \<Rightarrow> group" where
  "newGroup parent = \<lparr>tasks = [], cancelled_own = False, cancelled_parent = parent, g_err = None, returned = [], failures = []\<rparr>"

definition ctx_ended :: "group \<Rightarrow> bool" where
  "ctx_ended g \<longleftrightarrow> cancelled_own g \<or> cancelled_parent g"

definition group_go :: "string \<Rightarrow> group \<Rightarrow> group" where
  "group_go name g = g\<lparr>tasks := tasks g @ [(name, TRunning)]\<rparr>"

section \<open>A task's end\<close>

text \<open>The error the wrapper hands to \<open>fail\<close>, which ignores a cancellation.\<close>

definition task_failure :: "task_err option \<Rightarrow> bool \<Rightarrow> task_err option" where
  "task_failure r ended = (case (case r of None \<Rightarrow> if ended then None else Some EarlyReturn | Some e \<Rightarrow> Some e) of
      None \<Rightarrow> None
    | Some e \<Rightarrow> if e = CtxCanceled then None else Some e)"

definition task_returns :: "nat \<Rightarrow> task_err option \<Rightarrow> group \<Rightarrow> group" where
  "task_returns i r g =
    (let name = fst (tasks g ! i);
         pc = (case task_failure r (ctx_ended g) of None \<Rightarrow> TStopped | Some e \<Rightarrow> TFailing e) in
     g\<lparr>tasks := (tasks g)[i := (name, pc)], returned := returned g @ [(name, r, ctx_ended g)]\<rparr>)"

text \<open>The locked section of \<open>fail\<close>, and the cancellation after it.\<close>

definition fail_record :: "nat \<Rightarrow> task_err \<Rightarrow> group \<Rightarrow> group" where
  "fail_record i e g =
    (let name = fst (tasks g ! i) in
     g\<lparr>tasks := (tasks g)[i := (name, TCancelling)],
       g_err := (if g_err g = None then Some (name, e) else g_err g), failures := failures g @ [(name, e)]\<rparr>)"

definition fail_cancel :: "nat \<Rightarrow> group \<Rightarrow> group" where
  "fail_cancel i g = g\<lparr>tasks := (tasks g)[i := (fst (tasks g ! i), TStopped)], cancelled_own := True\<rparr>"

datatype outcome = Canceled | TaskError string task_err

text \<open>\<open>None\<close> while \<^verbatim>\<open>wait\<close> blocks: the context has not ended, or a task still runs.\<close>

definition group_wait :: "group \<Rightarrow> outcome option" where
  "group_wait g =
    (if ctx_ended g \<and> list_all (\<lambda>t. snd t = TStopped) (tasks g)
     then Some (case g_err g of None \<Rightarrow> Canceled | Some (n, e) \<Rightarrow> TaskError n e) else None)"

section \<open>Interleaving\<close>

datatype group_event = GGo string | GReturn nat "task_err option" | GRecord nat | GCancel nat | GParent

inductive group_step :: "group \<Rightarrow> group_event \<Rightarrow> group \<Rightarrow> bool" where
  step_go: "group_step g (GGo name) (group_go name g)"
| step_return: "i < length (tasks g) \<Longrightarrow> snd (tasks g ! i) = TRunning \<Longrightarrow> group_step g (GReturn i r) (task_returns i r g)"
| step_record: "i < length (tasks g) \<Longrightarrow> snd (tasks g ! i) = TFailing e \<Longrightarrow> group_step g (GRecord i) (fail_record i e g)"
| step_cancel: "i < length (tasks g) \<Longrightarrow> snd (tasks g ! i) = TCancelling \<Longrightarrow> group_step g (GCancel i) (fail_cancel i g)"
| step_parent: "group_step g GParent (g\<lparr>cancelled_parent := True\<rparr>)"

inductive_simps group_step_iff:
  "group_step g (GGo name) h" "group_step g (GReturn i r) h" "group_step g (GRecord i) h" "group_step g (GCancel i) h"
  "group_step g GParent h"

definition group_start :: "group \<Rightarrow> bool" where
  "group_start g \<longleftrightarrow> (\<exists>p. g = newGroup p)"

text \<open>What is on its way: failures decided but not yet recorded.\<close>

definition failing :: "group \<Rightarrow> (string \<times> task_err) set" where
  "failing g = {(n, e). (n, TFailing e) \<in> set (tasks g)}"

definition failed_returns :: "group \<Rightarrow> (string \<times> task_err) set" where
  "failed_returns g = {(n, e). \<exists>r c. (n, r, c) \<in> set (returned g) \<and> task_failure r c = Some e}"

definition group_ok :: "group \<Rightarrow> bool" where
  "group_ok g \<longleftrightarrow> g_err g = (case failures g of [] \<Rightarrow> None | f # _ \<Rightarrow> Some f) \<and>
     (failures g \<noteq> [] \<longrightarrow> cancelled_own g \<or> (\<exists>n. (n, TCancelling) \<in> set (tasks g))) \<and>
     (cancelled_own g \<longrightarrow> failures g \<noteq> []) \<and> ((\<exists>n. (n, TCancelling) \<in> set (tasks g)) \<longrightarrow> failures g \<noteq> []) \<and>
     failed_returns g = set (failures g) \<union> failing g"

lemma in_update:
  assumes "i < length xs"
  shows "x \<noteq> xs ! i \<Longrightarrow> x \<in> set (xs[i := y]) \<longleftrightarrow> x = y \<or> x \<in> set xs" and "y \<in> set (xs[i := y])"
    and "x \<in> set (xs[i := y]) \<Longrightarrow> x = y \<or> x \<in> set xs"
proof -
  show y: "y \<in> set (xs[i := y])" using assms by (rule set_update_memI)
  show sub: "x \<in> set (xs[i := y]) \<Longrightarrow> x = y \<or> x \<in> set xs" using set_update_subset_insert [of xs i y] by auto
  show "x \<noteq> xs ! i \<Longrightarrow> x \<in> set (xs[i := y]) \<longleftrightarrow> x = y \<or> x \<in> set xs"
    using y sub by (metis in_set_conv_nth length_list_update nth_list_update_neq)
qed

lemma task_at: "i < length xs \<Longrightarrow> snd (xs ! i) = pc \<Longrightarrow> (fst (xs ! i), pc) = xs ! i \<and> xs ! i \<in> set xs"
  using nth_mem [of i xs] by (cases "xs ! i") auto

lemma failing_update:
  assumes "i < length xs" "snd (xs ! i) = pc"
  shows "{(n, e). (n, TFailing e) \<in> set (xs[i := (fst (xs ! i), pc')])} \<subseteq>
      {(n, e). (n, TFailing e) \<in> set xs} \<union> {(fst (xs ! i), e) |e. pc' = TFailing e}"
    and "{(n, e). (n, TFailing e) \<in> set xs} \<subseteq>
      {(n, e). (n, TFailing e) \<in> set (xs[i := (fst (xs ! i), pc')])} \<union> {(fst (xs ! i), e) |e. pc = TFailing e}"
    and "pc' = TFailing e \<Longrightarrow> (fst (xs ! i), e) \<in> {(n, e). (n, TFailing e) \<in> set (xs[i := (fst (xs ! i), pc')])}"
proof -
  let ?x = "(fst (xs ! i), pc)" and ?y = "(fst (xs ! i), pc')"
  have x: "xs ! i = ?x" using task_at [OF assms] by simp
  note u = in_update [OF assms(1), where y = ?y]
  show "{(n, e). (n, TFailing e) \<in> set (xs[i := ?y])} \<subseteq> {(n, e). (n, TFailing e) \<in> set xs} \<union> {(fst (xs ! i), e) |e. pc' = TFailing e}"
    using u(3) by blast
  show "{(n, e). (n, TFailing e) \<in> set xs} \<subseteq> {(n, e). (n, TFailing e) \<in> set (xs[i := ?y])} \<union> {(fst (xs ! i), e) |e. pc = TFailing e}"
  proof clarify
    fix n e assume "(n, TFailing e) \<in> set xs" "\<not> (\<exists>e'. (n, e) = (fst (xs ! i), e') \<and> pc = TFailing e')"
    then show "(n, TFailing e) \<in> set (xs[i := ?y])" using u(1) [of "(n, TFailing e)"] x by (metis Pair_inject)
  qed
  show "pc' = TFailing e \<Longrightarrow> (fst (xs ! i), e) \<in> {(n, e). (n, TFailing e) \<in> set (xs[i := ?y])}" using u(2) by auto
qed

lemma cancelling_update:
  assumes "i < length xs" "snd (xs ! i) = pc" "pc \<noteq> TCancelling" "pc' \<noteq> TCancelling"
  shows "(\<exists>n. (n, TCancelling) \<in> set (xs[i := (fst (xs ! i), pc')])) \<longleftrightarrow> (\<exists>n. (n, TCancelling) \<in> set xs)"
proof -
  have "(n, TCancelling) \<in> set (xs[i := (fst (xs ! i), pc')]) \<longleftrightarrow> (n, TCancelling) \<in> set xs" for n
    using in_update(1) [OF assms(1), of "(n, TCancelling)" "(fst (xs ! i), pc')"] assms(2-4)
    by (metis prod.inject snd_conv)
  then show ?thesis by simp
qed

lemma group_ok_step:
  assumes "group_step g e h" "group_ok g"
  shows "group_ok h"
  using assms
proof (induction rule: group_step.induct)
  case (step_go g name)
  then show ?case by (simp add: group_ok_def group_go_def failed_returns_def failing_def)
next
  case (step_return i g r)
  let ?n = "fst (tasks g ! i)" and ?f = "task_failure r (ctx_ended g)"
  define pc where "pc = (case ?f of None \<Rightarrow> TStopped | Some e \<Rightarrow> TFailing e)"
  define ts where "ts = (tasks g)[i := (?n, pc)]"
  have h: "task_returns i r g = g\<lparr>tasks := ts, returned := returned g @ [(?n, r, ctx_ended g)]\<rparr>"
    by (simp add: task_returns_def Let_def ts_def pc_def)
  have c: "(\<exists>n. (n, TCancelling) \<in> set ts) \<longleftrightarrow> (\<exists>n. (n, TCancelling) \<in> set (tasks g))"
    unfolding ts_def using step_return(1,2) by (intro cancelling_update) (auto simp: pc_def split: option.splits)
  have fl: "{(n, e). (n, TFailing e) \<in> set ts} = failing g \<union> {(?n, e) |e. ?f = Some e}"
    using failing_update [OF step_return(1,2), of pc] unfolding ts_def failing_def
    by (auto simp: pc_def split: option.splits)
  have "failed_returns (task_returns i r g) = failed_returns g \<union> {(?n, e) |e. ?f = Some e}"
    unfolding h failed_returns_def by auto
  moreover have "failing (task_returns i r g) = failing g \<union> {(?n, e) |e. ?f = Some e}"
    unfolding h failing_def using fl by (simp add: failing_def)
  ultimately show ?case using step_return(3) c unfolding group_ok_def h by auto
next
  case (step_record i g e)
  let ?n = "fst (tasks g ! i)"
  have fields: "failures (fail_record i e g) = failures g @ [(?n, e)]" "failed_returns (fail_record i e g) = failed_returns g"
    "g_err (fail_record i e g) = (if g_err g = None then Some (?n, e) else g_err g)"
    "cancelled_own (fail_record i e g) = cancelled_own g"
    by (simp_all add: fail_record_def Let_def failed_returns_def)
  have "(?n, e) \<in> failing g" using task_at [OF step_record(1,2)] by (simp add: failing_def)
  moreover have "failing g \<subseteq> failing (fail_record i e g) \<union> {(?n, e)}" "failing (fail_record i e g) \<subseteq> failing g"
    using failing_update(1,2) [OF step_record(1,2), of TCancelling] by (auto simp: failing_def fail_record_def Let_def)
  ultimately have "set (failures (fail_record i e g)) \<union> failing (fail_record i e g) = set (failures g) \<union> failing g"
    using fields(1) by auto
  moreover have "(?n, TCancelling) \<in> set (tasks (fail_record i e g))"
    using in_update(2) [OF step_record(1)] by (simp add: fail_record_def Let_def)
  ultimately show ?case using step_record(3)
    unfolding group_ok_def fields by (cases "failures g") auto
next
  case (step_cancel i g)
  have "failing (fail_cancel i g) = failing g"
    using failing_update(1,2) [OF step_cancel(1,2), of TStopped] by (auto simp: failing_def fail_cancel_def)
  moreover have "failures g \<noteq> []" using step_cancel(3) task_at [OF step_cancel(1,2)] by (metis group_ok_def)
  ultimately show ?case using step_cancel(3) by (simp add: group_ok_def fail_cancel_def failed_returns_def)
next
  case (step_parent g)
  then show ?case by (simp add: group_ok_def failed_returns_def failing_def)
qed

interpretation tg: transition_system group_start group_step group_ok
proof unfold_locales
  fix g assume "group_start g"
  then show "group_ok g" by (auto simp: group_start_def newGroup_def group_ok_def failed_returns_def failing_def)
qed (rule group_ok_step)

section \<open>Properties\<close>

text \<open>
  C32. What the process exits with. In every interleaving, once every task has stopped, the group's wait returns exactly
  when the surrounding context ended or some task failed, and then with the failure recorded first, or with the
  cancellation when none failed. A task fails when it returns an error other than a cancellation, or nothing before
  the context ended. A task that returns a cancellation early is neither: with nothing else the wait then blocks.
\<close>

theorem group_reports_the_first_failure:
  assumes "group_start g0" and "run group_step g0 es g" and "list_all (\<lambda>t. snd t = TStopped) (tasks g)"
  shows "group_wait g = (case failures g of
      [] \<Rightarrow> if cancelled_parent g then Some Canceled else None
    | (n, e) # _ \<Rightarrow> Some (TaskError n e)) \<and>
    set (failures g) = {(n, e). \<exists>r c. (n, r, c) \<in> set (returned g) \<and> e \<noteq> CtxCanceled \<and>
      (r = Some e \<or> r = None \<and> \<not> c \<and> e = EarlyReturn)}"
proof -
  have ok: "group_ok g" using tg.invar_reach [OF assms(1,2)] .
  have none: "(n, TCancelling) \<notin> set (tasks g)" "(n, TFailing e) \<notin> set (tasks g)" for n e
    using assms(3) by (auto simp: list_all_iff)
  have f: "set (failures g) = failed_returns g" using ok none by (auto simp: group_ok_def failing_def)
  have r: "task_failure r c = Some e \<longleftrightarrow> e \<noteq> CtxCanceled \<and> (r = Some e \<or> r = None \<and> \<not> c \<and> e = EarlyReturn)" for r c e
    by (cases r) (auto simp: task_failure_def)
  have "ctx_ended g \<longleftrightarrow> cancelled_parent g \<or> failures g \<noteq> []"
    using ok none by (auto simp: group_ok_def ctx_ended_def)
  moreover have "g_err g = (case failures g of [] \<Rightarrow> None | f # _ \<Rightarrow> Some f)" using ok by (simp add: group_ok_def)
  ultimately have "group_wait g = (case failures g of [] \<Rightarrow> if cancelled_parent g then Some Canceled else None
      | (n, e) # _ \<Rightarrow> Some (TaskError n e))"
    using assms(3) unfolding group_wait_def by (cases "failures g") (simp_all split: prod.splits)
  then show ?thesis using f unfolding failed_returns_def r by simp
qed

text \<open>The metrics listener fails; the lane, told to stop by the cancellation, returns nothing.\<close>

theorem group_reports_the_first_failure_witness:
  "\<exists>g. run group_step (newGroup False)
      [GGo ''lane'', GGo ''metrics'', GReturn 1 (Some (OtherErr ''bind'')), GRecord 1, GCancel 1, GReturn 0 None] g \<and>
     group_wait g = Some (TaskError ''metrics'' (OtherErr ''bind''))"
proof -
  let ?g = "\<lparr>tasks = [(''lane'', TStopped), (''metrics'', TStopped)], cancelled_own = True, cancelled_parent = False,
    g_err = Some (''metrics'', OtherErr ''bind''), returned = [(''metrics'', Some (OtherErr ''bind''), False), (''lane'', None, True)],
    failures = [(''metrics'', OtherErr ''bind'')]\<rparr>"
  have r: "run group_step (newGroup False)
      [GGo ''lane'', GGo ''metrics'', GReturn 1 (Some (OtherErr ''bind'')), GRecord 1, GCancel 1, GReturn 0 None] ?g"
    by (simp add: run_Cons_iff group_step_iff newGroup_def group_go_def task_returns_def task_failure_def ctx_ended_def
        fail_record_def fail_cancel_def Let_def)
  have "group_start (newGroup False)" by (auto simp: group_start_def)
  from group_reports_the_first_failure [OF this r] r show ?thesis by (intro exI [of _ ?g]) simp
qed

end
