(* ===== verification/Bridge_Config.thy ===== *)
theory Bridge_Config
  imports Facade_Props Topics_Reconcile Spv_Check Task_Group
begin

text \<open>
  The process's configuration, \<^verbatim>\<open>src/cmd/overlay-bridge/main.go\<close>: the checks on the flags, and how \<^verbatim>\<open>run\<close> builds the
  feed, its routes and the facade from them. Engines, shadows and other targets are known by number; which
  client stands for which origin is a parameter, and so are splitting a listen address and parsing an IP address.
\<close>

section \<open>The flags\<close>

record config =
  cfg_mode :: string
  cfg_beefLane :: string
  cfg_headerLane :: string
  cfg_topics :: string
  cfg_subURL :: string
  cfg_subID :: string
  cfg_subToken :: string
  cfg_engine :: string
  cfg_shadowEngine :: string
  cfg_shadowWorkers :: int
  cfg_shadowQueue :: int
  cfg_alsoWorkers :: int
  cfg_alsoQueue :: int
  cfg_alsoBytes :: int
  cfg_shadowFacade :: bool
  cfg_engineRoutes :: "string list"
  cfg_trusted :: "string list"
  cfg_engineTimeout :: int
  cfg_engineWorkers :: int
  cfg_engineQueue :: int
  cfg_stopDrain :: int
  cfg_engineQBytes :: int
  cfg_submitRetries :: int
  cfg_maxObject :: int
  cfg_facadeListen :: string
  cfg_headersListen :: string
  cfg_headerAnchor :: string
  cfg_headerAnchorTimeout :: int
  cfg_headerMinBits :: nat
  cfg_headerWindow :: nat
  cfg_headerWarm :: nat
  cfg_headerWarmWorkers :: int
  cfg_headerWarmTimeout :: int
  cfg_edgeIngress :: string
  cfg_edgeBeefPort :: int
  cfg_publishSource :: string
  cfg_publishQueue :: int
  cfg_publishQBytes :: int
  cfg_publishWait :: int
  cfg_publishPreferAfter :: int
  cfg_guardTTL :: int
  cfg_guardEntries :: int
  cfg_metricsAddr :: string
  cfg_statsEvery :: int
  cfg_pprofListen :: string
  cfg_verifyMode :: string
  cfg_verifyNetwork :: string
  cfg_verifyFinality :: string
  cfg_verifyMarkerKey :: string
  cfg_verifyTimeout :: int
  cfg_sigVerifier :: string

definition seconds :: "int \<Rightarrow> int" where
  "seconds n = n * 1000000000"

definition DefaultStopDrain :: int where "DefaultStopDrain = seconds 30"

definition DefaultWarmDepth :: nat where "DefaultWarmDepth = 2016"

text \<open>The values the flags have when they are not given.\<close>

definition default_flags :: config where
  "default_flags = \<lparr>cfg_mode = ''all'', cfg_beefLane = ''[::]:9171'', cfg_headerLane = ''[::]:9172'', cfg_topics = [],
    cfg_subURL = [], cfg_subID = [], cfg_subToken = [], cfg_engine = [], cfg_shadowEngine = [],
    cfg_shadowWorkers = 2, cfg_shadowQueue = 1024, cfg_alsoWorkers = 2, cfg_alsoQueue = 1024,
    cfg_alsoBytes = 256 * 2 ^ 20, cfg_shadowFacade = False, cfg_engineRoutes = [], cfg_trusted = [],
    cfg_engineTimeout = seconds 30, cfg_engineWorkers = 4, cfg_engineQueue = 256, cfg_stopDrain = DefaultStopDrain,
    cfg_engineQBytes = 0, cfg_submitRetries = 4, cfg_maxObject = 0, cfg_facadeListen = ''[::]:9175'',
    cfg_headersListen = ''[::]:9178'', cfg_headerAnchor = [], cfg_headerAnchorTimeout = seconds 5,
    cfg_headerMinBits = 0x207fffff, cfg_headerWindow = 0, cfg_headerWarm = DefaultWarmDepth,
    cfg_headerWarmWorkers = 8, cfg_headerWarmTimeout = seconds 60, cfg_edgeIngress = [], cfg_edgeBeefPort = 8725,
    cfg_publishSource = [], cfg_publishQueue = 1024, cfg_publishQBytes = 256 * 2 ^ 20, cfg_publishWait = seconds 2,
    cfg_publishPreferAfter = seconds 300, cfg_guardTTL = seconds 1800, cfg_guardEntries = 2 ^ 20,
    cfg_metricsAddr = ''[::]:9179'', cfg_statsEvery = seconds 60, cfg_pprofListen = [], cfg_verifyMode = ''off'',
    cfg_verifyNetwork = ''main'', cfg_verifyFinality = ''ignore'', cfg_verifyMarkerKey = [],
    cfg_verifyTimeout = seconds 5, cfg_sigVerifier = ''decred''\<rparr>"

datatype config_err =
    BadMode | NoEngine | EnginePrefixed | NoAnchor | NoTopicsFlag | ShadowPrefixed | ShadowIsEngine | RouteErr route_err
  | SinkShadow | SinkRoutes | TrustErr trust_err | TrustNeedsFacade | ShadowFacadeNoShadow | NegativeEngineBytes
  | NegativeAlso | NegativePublish | BadVerifyMode | BadNetwork | BadFinality | BadSigVerifier | EnforceNeedsKey
  | BadPprof | FacadeNeedsIngress

definition config_verifier :: "config \<Rightarrow> string" where
  "config_verifier c = (if cfg_sigVerifier c = [] then ''decred'' else cfg_sigVerifier c)"

definition anyShadow :: "string list \<Rightarrow> bool" where
  "anyShadow rs = list_ex (\<lambda>s. case ParseRoute s of Inl _ \<Rightarrow> False | Inr (_, _, shadow) \<Rightarrow> shadow \<noteq> []) rs"

definition firstAddr :: "string \<Rightarrow> string" where
  "firstAddr s = (case splitList s of [] \<Rightarrow> s | x # _ \<Rightarrow> x)"

section \<open>A loopback listener\<close>

text \<open>\<^verbatim>\<open>strconv.Atoi\<close> within 1 and 65535: an optional sign, then digits.\<close>

definition port_value :: "string \<Rightarrow> nat option" where
  "port_value s = (let ds = (case s of c # cs \<Rightarrow> if c = CHR ''+'' then cs else s | [] \<Rightarrow> []) in
     if ds \<noteq> [] \<and> list_all is_digit ds then Some (foldl (\<lambda>a c. 10 * a + (of_char c - 48)) 0 ds) else None)"

definition port_ok :: "string \<Rightarrow> bool" where
  "port_ok s = (case port_value s of None \<Rightarrow> False | Some n \<Rightarrow> 0 < n \<and> n \<le> 65535)"

definition loopbackAddr :: "(string \<Rightarrow> (string \<times> string) option) \<Rightarrow> (string \<Rightarrow> bool) \<Rightarrow> string \<Rightarrow> bool" where
  "loopbackAddr split_host_port loopback_ip raw = (case split_host_port raw of
      None \<Rightarrow> False
    | Some (host, port) \<Rightarrow> port_ok port \<and> (host = ''localhost'' \<or> loopback_ip host))"

section \<open>Validation\<close>

fun first_route_err :: "string list \<Rightarrow> route_err option" where
  "first_route_err [] = None"
| "first_route_err (s # ss) = (case ParseRoute s of Inl e \<Rightarrow> Some e | Inr _ \<Rightarrow> first_route_err ss)"

fun first_trust_err :: "(string \<Rightarrow> ip_prefix option) \<Rightarrow> string list \<Rightarrow> trust_err option" where
  "first_trust_err pp [] = None"
| "first_trust_err pp (s # ss) = (case ParseTrust pp s of Inl e \<Rightarrow> Some e | Inr _ \<Rightarrow> first_trust_err pp ss)"

definition validate_engine :: "config \<Rightarrow> config_err option" where
  "validate_engine c =
    (if cfg_mode c \<noteq> ''sink'' then
       (if cfg_engine c = [] then Some NoEngine
        else if contains (cfg_engine c) api_prefix_text then Some EnginePrefixed
        else if cfg_headerAnchor c = [] then Some NoAnchor
        else if trim_space (cfg_topics c) = [] then Some NoTopicsFlag
        else if contains (cfg_shadowEngine c) api_prefix_text then Some ShadowPrefixed
        else if cfg_shadowEngine c \<noteq> [] \<and> trim_right_slash (cfg_shadowEngine c) = trim_right_slash (cfg_engine c) then Some ShadowIsEngine
        else map_option RouteErr (first_route_err (cfg_engineRoutes c)))
     else if cfg_shadowEngine c \<noteq> [] then Some SinkShadow
     else if cfg_engineRoutes c \<noteq> [] then Some SinkRoutes
     else None)"

definition validate_rest :: "(string \<Rightarrow> bool) \<Rightarrow> config \<Rightarrow> config_err option" where
  "validate_rest loopback c =
    (if cfg_trusted c \<noteq> [] \<and> (cfg_mode c \<noteq> ''all'' \<or> cfg_facadeListen c = []) then Some TrustNeedsFacade
     else if cfg_shadowFacade c \<and> cfg_shadowEngine c = [] \<and> \<not> anyShadow (cfg_engineRoutes c) then Some ShadowFacadeNoShadow
     else if cfg_engineQBytes c < 0 then Some NegativeEngineBytes
     else if cfg_alsoWorkers c < 0 \<or> cfg_alsoQueue c < 0 \<or> cfg_alsoBytes c < 0 then Some NegativeAlso
     else if cfg_publishQBytes c < 0 \<or> cfg_publishWait c < 0 then Some NegativePublish
     else if ParseVerifyMode (cfg_verifyMode c) = None then Some BadVerifyMode
     else if ParseNetwork (cfg_verifyNetwork c) = None then Some BadNetwork
     else if ParseFinality (cfg_verifyFinality c) = None then Some BadFinality
     else if config_verifier c \<notin> {''decred'', ''sdk''} then Some BadSigVerifier
     else if cfg_verifyMode c = VerifyEnforce \<and> cfg_verifyMarkerKey c = [] then Some EnforceNeedsKey
     else if cfg_pprofListen c \<noteq> [] \<and> \<not> loopback (cfg_pprofListen c) then Some BadPprof
     else if cfg_mode c = ''all'' \<and> cfg_facadeListen c \<noteq> [] \<and> cfg_edgeIngress c = [] then Some FacadeNeedsIngress
     else None)"

definition validate :: "(string \<Rightarrow> ip_prefix option) \<Rightarrow> (string \<Rightarrow> bool) \<Rightarrow> config \<Rightarrow> config_err option" where
  "validate pp loopback c =
    (if cfg_mode c \<notin> {''sink'', ''feed'', ''all''} then Some BadMode
     else (case validate_engine c of
         Some e \<Rightarrow> Some e
       | None \<Rightarrow> (case first_trust_err pp (cfg_trusted c) of
           Some e \<Rightarrow> Some (TrustErr e)
         | None \<Rightarrow> validate_rest loopback c)))"

section \<open>Building the feed and the facade\<close>

text \<open>Which client stands for a submit origin, a shadow of an origin under a label, and an other target of a route.\<close>

record wiring =
  engine_of :: "string \<Rightarrow> nat"
  shadow_of :: "string \<Rightarrow> string \<Rightarrow> nat"
  also_of :: "string \<Rightarrow> string \<Rightarrow> nat"

definition spec_of :: "string \<Rightarrow> RouteSpec" where
  "spec_of s = (case ParseRouteSpec s of
      Inl _ \<Rightarrow> \<lparr>specPattern = [], specPrimary = [], specShadow = [], specAlso = []\<rparr>
    | Inr rs \<Rightarrow> rs)"

definition build_route :: "wiring \<Rightarrow> string \<Rightarrow> route" where
  "build_route w s = (let rs = spec_of s in
     \<lparr>Pattern = specPattern rs, rSubmit = Some (engine_of w (specPrimary rs)),
      rShadow = (if specShadow rs \<noteq> [] then Some (shadow_of w (specShadow rs) (specPattern rs)) else None),
      rAlso = map (\<lambda>a. Some (also_of w (specPattern rs) a)) (specAlso rs)\<rparr>)"

text \<open>The marker key is loaded only when verification is on and a key file is named.\<close>

definition build_key :: "(string \<Rightarrow> key_err + bytes) \<Rightarrow> config \<Rightarrow> string \<Rightarrow> key_err + bytes" where
  "build_key load c vmode =
    (if vmode \<noteq> VerifyOff \<and> cfg_verifyMarkerKey c \<noteq> [] then load (cfg_verifyMarkerKey c) else Inr [])"

definition build_feed :: "'g feed_env \<Rightarrow> wiring \<Rightarrow> (string \<Rightarrow> key_err + bytes) \<Rightarrow> config \<Rightarrow> key_err + feed" where
  "build_feed env w load c =
    (let vmode = (case ParseVerifyMode (cfg_verifyMode c) of None \<Rightarrow> [] | Some m \<Rightarrow> m);
         submit = (if cfg_mode c \<noteq> ''sink'' then Some (engine_of w (cfg_engine c)) else None) in
     bind_res (build_key load c vmode) (\<lambda>key. Inr
       \<lparr>Topics = NewTopicMap env (splitList (cfg_topics c)) (\<lambda>_. None), fSubmit = submit, fGuard = True,
        MaxObject = cfg_maxObject c, fWorkers = cfg_engineWorkers c, SubmitRetries = cfg_submitRetries c, SubmitBackoff = 0,
        fQueueDepth = cfg_engineQueue c, fQueueBytes = cfg_engineQBytes c, fVerify = (vmode \<noteq> VerifyOff), VerifyMode = vmode,
        MarkerKey = key,
        fShadow = (if cfg_shadowEngine c \<noteq> [] \<and> submit \<noteq> None then Some (shadow_of w (cfg_shadowEngine c) DefaultRoute) else None),
        fRoutes = (if submit \<noteq> None then map (\<lambda>s. Some (build_route w s)) (cfg_engineRoutes c) else []),
        cnt = zero_counters, observed = [], fq = [], queuedBytes = 0, fstarted = False\<rparr>))"

definition build_facade :: "(string \<Rightarrow> ip_prefix option) \<Rightarrow> wiring \<Rightarrow> config \<Rightarrow> feed \<Rightarrow> facade option" where
  "build_facade pp w c f =
    (if cfg_mode c = ''all'' \<and> cfg_facadeListen c \<noteq> [] then Some
       \<lparr>fac_Engine = engine_of w (cfg_engine c), fac_Publish = (cfg_mode c = ''all'' \<and> cfg_edgeIngress c \<noteq> []), fac_Guard = True,
        fac_Topics = set (splitList (cfg_topics c)), fac_MaxObject = cfg_maxObject c, fac_Routes = fRoutes f,
        fac_Shadow = fShadow f, ShadowFacade = cfg_shadowFacade c,
        Trusted = map (\<lambda>v. case ParseTrust pp v of Inl _ \<Rightarrow> \<lparr>tPattern = [], tNets = []\<rparr> | Inr r \<Rightarrow> r) (cfg_trusted c),
        n_ok = 0, n_malformed = 0, n_unknownTopic = 0, n_loopDropped = 0, n_engineError = 0, n_publishFailed = 0,
        n_trusted = 0, taken = [], offered = 0\<rparr>
     else None)"

section \<open>What validation buys\<close>

lemma first_route_err_None: "first_route_err ss = None \<longleftrightarrow> (\<forall>s \<in> set ss. \<exists>rs. ParseRouteSpec s = Inr rs)"
proof (induction ss)
  case (Cons s ss)
  then show ?case by (cases "ParseRouteSpec s") (simp_all add: ParseRoute_def)
qed simp

lemma first_trust_err_None: "first_trust_err pp ss = None \<longleftrightarrow> (\<forall>s \<in> set ss. \<exists>r. ParseTrust pp s = Inr r)"
proof (induction ss)
  case (Cons s ss)
  then show ?case by (cases "ParseTrust pp s") simp_all
qed simp

lemma validate_None:
  assumes "validate pp loopback c = None"
  shows "validate_engine c = None" "first_trust_err pp (cfg_trusted c) = None" "validate_rest loopback c = None"
  using assms by (auto simp: validate_def split: if_splits option.splits)

lemma validate_routes:
  assumes "validate_engine c = None" "s \<in> set (cfg_engineRoutes c)"
  shows "\<exists>rs. ParseRouteSpec s = Inr rs"
proof (cases "cfg_mode c = ''sink''")
  case True
  then have "cfg_engineRoutes c = []" using assms(1) by (auto simp: validate_engine_def split: if_splits)
  then show ?thesis using assms(2) by simp
next
  case False
  then have "first_route_err (cfg_engineRoutes c) = None" using assms(1) by (auto simp: validate_engine_def split: if_splits)
  then show ?thesis using assms(2) by (simp add: first_route_err_None)
qed

lemma NewTopicMap_same:
  "inj_on (topic_id env) (set ns) \<Longrightarrow> \<forall>n' \<in> set ns. m (topic_id env n') = Some n' \<or> m (topic_id env n') = None \<Longrightarrow>
   n \<in> set ns \<Longrightarrow> NewTopicMap env ns m (topic_id env n) = Some n"
proof (induction ns arbitrary: m)
  case (Cons x ns)
  have inj: "inj_on (topic_id env) (set ns)" using Cons.prems(1) by (rule inj_on_subset) auto
  have eq: "topic_id env n' = topic_id env x \<longleftrightarrow> n' = x" if "n' \<in> set (x # ns)" for n'
    using inj_onD [OF Cons.prems(1), of n' x] that by auto
  have ok: "\<forall>n' \<in> set ns. (m(topic_id env x := Some x)) (topic_id env n') = Some n' \<or>
      (m(topic_id env x := Some x)) (topic_id env n') = None"
    using Cons.prems(2) eq by auto
  show ?case
  proof (cases "n \<in> set ns")
    case True
    then show ?thesis using Cons.IH [OF inj ok] by (simp add: fun_upd_def)
  next
    case False
    have keep: "NewTopicMap env ns m' (topic_id env n) = m' (topic_id env n)" if "n \<notin> set ns" "n \<in> set (x # ns)" for m'
      using that Cons.prems(1) by (induction ns arbitrary: m') (auto simp: inj_on_def)
    have "n = x" using False Cons.prems(3) by simp
    then show ?thesis using keep [OF False Cons.prems(3)] by simp
  qed
qed simp

lemma NewTopicMap_range: "NewTopicMap env ns m i = Some n \<Longrightarrow> m i = Some n \<or> n \<in> set ns"
  by (induction ns arbitrary: m) (force split: if_splits)+

text \<open>The feed's choice of engine and shadow is the facade's.\<close>

lemma facade_routes_as_feed:
  assumes "fac_Routes fac = fRoutes f" "fac_Shadow fac = fShadow f" "fSubmit f = Some (fac_Engine fac)"
  shows "enginesFor f t = (Some (fst (fac_enginesFor fac t)), snd (fac_enginesFor fac t))"
  using assms by (auto simp: enginesFor_def route_engines_def fac_enginesFor_def split: option.splits)

lemma LoadKey_long: "LoadKey m b = Inr key \<Longrightarrow> MinKeyBytes \<le> length key"
  by (auto simp: LoadKey_def Let_def split: option.splits if_splits)

section \<open>Properties\<close>

text \<open>
  C33. A configuration that passes validation gives two sides that agree. Whenever the facade is built it has a
  publisher; it sends every topic to the engine and the shadow the feed sends it to, which always exists; the topics it
  accepts are exactly those the feed recognises (with identifiers that do not collide on the elected names); every
  trust rule and every route it runs with is one the operator wrote and the parser accepted; and in enforce mode the
  feed holds a marker key of at least 32 bytes.
\<close>

theorem validated_bridge_sides_agree:
  assumes "validate pp loopback c = None" and "build_feed env w (\<lambda>p. LoadKey (perm p) (contents p)) c = Inr f"
    and "build_facade pp w c f = Some fac" and "inj_on (topic_id env) (set (splitList (cfg_topics c)))"
  shows "fac_Publish fac \<and>
    (\<forall>t. enginesFor f t = (Some (fst (fac_enginesFor fac t)), snd (fac_enginesFor fac t))) \<and>
    (\<forall>n. n \<in> fac_Topics fac \<longleftrightarrow> Topics f (topic_id env n) = Some n) \<and>
    map Inr (Trusted fac) = map (ParseTrust pp) (cfg_trusted c) \<and>
    map Inr (map spec_of (cfg_engineRoutes c)) = map ParseRouteSpec (cfg_engineRoutes c) \<and>
    (VerifyMode f = VerifyEnforce \<longrightarrow> 32 \<le> length (MarkerKey f))"
proof (intro conjI allI)
  note v = validate_None [OF assms(1)]
  have fac: "cfg_mode c = ''all''" "cfg_facadeListen c \<noteq> []" "fac_Publish fac \<longleftrightarrow> cfg_edgeIngress c \<noteq> []"
    "fac_Routes fac = fRoutes f" "fac_Shadow fac = fShadow f" "fac_Engine fac = engine_of w (cfg_engine c)"
    "fac_Topics fac = set (splitList (cfg_topics c))"
    "Trusted fac = map (\<lambda>v. case ParseTrust pp v of Inl _ \<Rightarrow> \<lparr>tPattern = [], tNets = []\<rparr> | Inr r \<Rightarrow> r) (cfg_trusted c)"
    using assms(3) by (auto simp: build_facade_def split: if_splits)
  obtain vmode key where vm: "ParseVerifyMode (cfg_verifyMode c) = Some vmode"
    and key: "build_key (\<lambda>p. LoadKey (perm p) (contents p)) c vmode = Inr key"
    and f: "fSubmit f = Some (engine_of w (cfg_engine c))" "Topics f = NewTopicMap env (splitList (cfg_topics c)) (\<lambda>_. None)"
      "VerifyMode f = vmode" "MarkerKey f = key"
    using assms(2) v(3) fac(1)
    by (auto simp: build_feed_def Let_def bind_res_Inr_iff validate_rest_def split: if_splits option.splits)
  show "fac_Publish fac" using v(3) fac by (auto simp: validate_rest_def split: if_splits)
  show "enginesFor f t = (Some (fst (fac_enginesFor fac t)), snd (fac_enginesFor fac t))" for t
    using facade_routes_as_feed [of fac f t] fac f by simp
  show "n \<in> fac_Topics fac \<longleftrightarrow> Topics f (topic_id env n) = Some n" for n
    using NewTopicMap_same [OF assms(4), of "\<lambda>_. None" n] NewTopicMap_range [of env "splitList (cfg_topics c)" "\<lambda>_. None" "topic_id env n" n]
    by (auto simp: fac(7) f(2))
  show "map Inr (Trusted fac) = map (ParseTrust pp) (cfg_trusted c)"
    using v(2) by (auto simp: fac(8) first_trust_err_None split: sum.splits)
  show "map Inr (map spec_of (cfg_engineRoutes c)) = map ParseRouteSpec (cfg_engineRoutes c)"
    using validate_routes [OF v(1)] by (fastforce simp: spec_of_def split: sum.splits)
  show "VerifyMode f = VerifyEnforce \<longrightarrow> 32 \<le> length (MarkerKey f)"
  proof
    assume "VerifyMode f = VerifyEnforce"
    then have "cfg_verifyMode c = VerifyEnforce"
      using vm f(3) by (auto simp: ParseVerifyMode_def VerifyOff_def VerifyEnforce_def VerifyShadow_def split: if_splits)
    then have "cfg_verifyMarkerKey c \<noteq> []" using v(3) by (auto simp: validate_rest_def split: if_splits)
    then have "LoadKey (perm (cfg_verifyMarkerKey c)) (contents (cfg_verifyMarkerKey c)) = Inr key"
      using key \<open>VerifyMode f = VerifyEnforce\<close> f(3) by (simp add: build_key_def VerifyEnforce_def VerifyOff_def)
    then show "32 \<le> length (MarkerKey f)" using LoadKey_long f(4) by (simp add: MinKeyBytes_def)
  qed
qed

definition sample_config :: config where
  "sample_config = default_flags\<lparr>cfg_topics := ''a,b'', cfg_engine := ''http://e'', cfg_alsoBytes := 0,
     cfg_headerAnchor := ''http://h'', cfg_edgeIngress := ''edge'', cfg_publishQBytes := 0,
     cfg_publishWait := 0, cfg_verifyMode := ''enforce'', cfg_verifyMarkerKey := ''/key'', cfg_sigVerifier := []\<rparr>"

definition sample_wiring :: wiring where
  "sample_wiring = \<lparr>engine_of = (\<lambda>_. 0), shadow_of = (\<lambda>_ _. 0), also_of = (\<lambda>_ _. 0)\<rparr>"

theorem validated_bridge_sides_agree_witness:
  "\<exists>f fac. build_feed sample_feed_env sample_wiring (\<lambda>p. LoadKey (Some 384) (Some (replicate 32 65))) sample_config = Inr f \<and>
     build_facade (\<lambda>_. None) sample_wiring sample_config f = Some fac \<and> fac_Publish fac \<and> ''b'' \<in> fac_Topics fac \<and>
     Topics f (topic_id sample_feed_env ''b'') = Some ''b''"
proof -
  have v: "validate (\<lambda>_. None) (\<lambda>_. True) sample_config = None"
    by (simp add: validate_def validate_engine_def validate_rest_def sample_config_def default_flags_def api_prefix_text_def trim_space_def is_space_def
        ParseVerifyMode_def ParseNetwork_def ParseFinality_def FinalityIgnore_def config_verifier_def VerifyEnforce_def VerifyOff_def)
  have "\<not> is_space (char_of (65 :: nat))" by code_simp
  then have k: "trim_bytes (replicate 32 65) = replicate 32 65" by (simp add: trim_bytes_def Let_def)
  have "\<exists>f. build_feed sample_feed_env sample_wiring (\<lambda>p. LoadKey (Some 384) (Some (replicate 32 65))) sample_config = Inr f"
    by (simp add: build_feed_def build_key_def LoadKey_def Let_def k MinKeyBytes_def sample_config_def default_flags_def)
  then obtain f where f: "build_feed sample_feed_env sample_wiring (\<lambda>p. LoadKey (Some 384) (Some (replicate 32 65))) sample_config = Inr f" by blast
  obtain fac where fac: "build_facade (\<lambda>_. None) sample_wiring sample_config f = Some fac"
    by (simp add: build_facade_def sample_config_def default_flags_def)
  have s: "splitList (cfg_topics sample_config) = [''a'', ''b'']" by (simp add: splitList_def sample_config_def default_flags_def trim_space_def is_space_def)
  have inj: "inj_on (topic_id sample_feed_env) (set (splitList (cfg_topics sample_config)))"
    unfolding s by (simp add: sample_feed_env_def sample_tid_def)
  have "''b'' \<in> fac_Topics fac" using fac s by (auto simp: build_facade_def sample_config_def default_flags_def)
  with validated_bridge_sides_agree [OF v f fac inj] f fac show ?thesis by blast
qed

end
