(* ===== verification/Header_Store.thy ===== *)
theory Header_Store
  imports Bridge_Prelude "HOL-Library.AList"
begin

text \<open>
  The header chain of \<^verbatim>\<open>src/headers/chain.go\<close>: the store's state, proof of work, \<^verbatim>\<open>Observe\<close> with
  its three locked sections, the canonical map's rewrite and the windowed pruning. SHA-256 is the
  argument \<open>sha\<close> of every definition that hashes, so the theorems hold for any such function; the
  anchor service behind \<^verbatim>\<open>Lookup\<close> is an argument too (\<open>None\<close> for a nil interface). The lemmas end
  in the index invariant \<open>store_inv\<close> and in the proof-of-work invariant of the lane's headers.
\<close>

section \<open>Data\<close>

datatype hdr_err =
    ErrAnchorRequired
  | ErrHeaderSize
  | ErrProofOfWork
  | ErrNoFallback
  | ErrCannotName
  | ErrSource
  | ErrWarmNoFallback
  | ErrContext

record anchor =
  anchor_hash :: hash
  anchor_height :: u32

record options =
  Anchor :: anchor
  MinBits :: u32
  Window :: u32

record entry =
  e_root :: hash
  e_prev :: hash
  viaAnchor :: bool

record observation =
  o_Hash :: hash
  o_Height :: u32
  o_Root :: hash
  Chained :: bool
  Reanchor :: bool
  Tip :: bool
  Replaced :: bool

record store =
  byHash :: "hash \<rightharpoonup> u32"
  at_height :: "u32 \<rightharpoonup> (hash \<rightharpoonup> entry)"
  canon :: "u32 \<rightharpoonup> hash"
  tip :: hash
  tipH :: u32
  lowest :: u32
  opt :: options
  fallbackRoots :: "(u32 \<times> hash) list"
  historyTop :: u32
  observed :: u64
  rejected :: u64
  orphaned :: u64
  reanchored :: u64
  replaced :: u64
  pruned :: u64
  fromLane :: u64
  fromHistory :: u64
  fromFallback :: u64
  misses :: u64

text \<open>The answers of \<^verbatim>\<open>HeaderLookup.HeaderAt\<close> at the time of a call; \<open>None\<close> is an error.\<close>

type_synonym header_at = "hash \<Rightarrow> (u32 \<times> hash) option"

definition New :: "options \<Rightarrow> hdr_err + store" where
  "New o' = (if anchor_hash (Anchor o') = zero_hash then Inl ErrAnchorRequired
     else Inr \<lparr>byHash = [anchor_hash (Anchor o') \<mapsto> anchor_height (Anchor o')],
       at_height = Map.empty, canon = Map.empty,
       tip = anchor_hash (Anchor o'), tipH = anchor_height (Anchor o'),
       lowest = anchor_height (Anchor o'), opt = o', fallbackRoots = [],
       historyTop = anchor_height (Anchor o'),
       observed = 0, rejected = 0, orphaned = 0, reanchored = 0, replaced = 0, pruned = 0,
       fromLane = 0, fromHistory = 0, fromFallback = 0, misses = 0\<rparr>)"

section \<open>Proof of work\<close>

definition headerHash :: "(bytes \<Rightarrow> bytes) \<Rightarrow> bytes \<Rightarrow> hash" where
  "headerHash sha hdr = sha (sha hdr)"

definition hdr_prev :: "bytes \<Rightarrow> hash" where "hdr_prev hdr = take 32 (drop 4 hdr)"
definition hdr_root :: "bytes \<Rightarrow> hash" where "hdr_root hdr = take 32 (drop 36 hdr)"
definition hdr_bits :: "bytes \<Rightarrow> u32" where
  "hdr_bits hdr = word_of_nat (le_nat (take 4 (drop 72 hdr)))"

definition compactToBig :: "u32 \<Rightarrow> nat option" where
  "compactToBig bits = (let ex = unat (drop_bit 24 bits); mant = unat (bits AND 0x007fffff) in
     if mant = 0 then None
     else if ex \<le> 3 then Some (mant div 2 ^ (8 * (3 - ex)))
     else Some (mant * 2 ^ (8 * (ex - 3))))"

definition be_nat :: "bytes \<Rightarrow> nat" where
  "be_nat xs = foldl (\<lambda>acc x. 256 * acc + unat x) 0 xs"

definition workValue :: "hash \<Rightarrow> nat" where
  "workValue h = be_nat (rev h)"

definition checkWork :: "options \<Rightarrow> hash \<Rightarrow> u32 \<Rightarrow> hdr_err + unit" where
  "checkWork o' h bits = (case compactToBig bits of
      None \<Rightarrow> Inl ErrProofOfWork
    | Some target \<Rightarrow>
        bind_res (if MinBits o' \<noteq> 0 then (case compactToBig (MinBits o') of
              None \<Rightarrow> Inl ErrProofOfWork
            | Some floor \<Rightarrow> if target > floor then Inl ErrProofOfWork else Inr ())
          else Inr ())
        (\<lambda>_. if workValue h > target then Inl ErrProofOfWork else Inr ()))"

section \<open>Recording headers\<close>

definition entry_at :: "store \<Rightarrow> u32 \<Rightarrow> hash \<Rightarrow> entry option" where
  "entry_at s h x = (case at_height s h of None \<Rightarrow> None | Some m \<Rightarrow> m x)"

definition set_entry :: "u32 \<Rightarrow> hash \<Rightarrow> entry \<Rightarrow> store \<Rightarrow> store" where
  "set_entry h x e s = s\<lparr>at_height := (at_height s)(h \<mapsto>
     (case at_height s h of None \<Rightarrow> Map.empty | Some m \<Rightarrow> m)(x \<mapsto> e))\<rparr>"

definition putLocked :: "u32 \<Rightarrow> hash \<Rightarrow> entry \<Rightarrow> store \<Rightarrow> store" where
  "putLocked h x e s = (let s' = set_entry h x e s in
     if h < lowest s' then s'\<lparr>lowest := h\<rparr> else s')"

function recanon :: "(hash \<rightharpoonup> u32) \<Rightarrow> (u32 \<rightharpoonup> (hash \<rightharpoonup> entry)) \<Rightarrow> hash \<Rightarrow> u32 \<Rightarrow> (u32 \<rightharpoonup> hash) \<Rightarrow>
    (u32 \<rightharpoonup> hash)" where
  "recanon bh ah x h cn =
     (if cn h = Some x then cn
      else let cn' = cn(h \<mapsto> x) in
        (case ah h of
           None \<Rightarrow> cn'
         | Some m \<Rightarrow> (case m x of
             None \<Rightarrow> cn'
           | Some e \<Rightarrow>
               if e_prev e = zero_hash \<or> h = 0 then cn'
               else (case bh (e_prev e) of
                   None \<Rightarrow> cn'
                 | Some ph \<Rightarrow> if ph \<noteq> h - 1 then cn' else recanon bh ah (e_prev e) ph cn'))))"
  by pat_completeness auto
termination
  by (relation "measure (\<lambda>(bh, ah, x, h, cn). unat h)") (auto intro: unat_minus_one_less)

declare recanon.simps [simp del]

definition recanonLocked :: "hash \<Rightarrow> u32 \<Rightarrow> store \<Rightarrow> store" where
  "recanonLocked x h s = s\<lparr>canon := recanon (byHash s) (at_height s) x h (canon s)\<rparr>"

definition prune_height :: "u32 \<Rightarrow> store \<Rightarrow> store" where
  "prune_height h s = s\<lparr>
     byHash := (\<lambda>x. if entry_at s h x \<noteq> None then None else byHash s x),
     at_height := (at_height s)(h := None),
     canon := (canon s)(h := None),
     pruned := pruned s + 1\<rparr>"

function prune_loop :: "u32 \<Rightarrow> u32 \<Rightarrow> store \<Rightarrow> store" where
  "prune_loop h cutoff s = (if h < cutoff then prune_loop (h + 1) cutoff (prune_height h s) else s)"
  by pat_completeness auto
termination
  by (relation "measure (\<lambda>(h, cutoff, s). unat cutoff - unat h)")
    (auto simp: unat_plus_one_less word_less_nat_alt [THEN iffD1] diff_less_mono2)

declare prune_loop.simps [simp del]

definition pruneLocked :: "store \<Rightarrow> store" where
  "pruneLocked s = (if Window (opt s) = 0 \<or> tipH s < Window (opt s) then s
     else let cutoff = tipH s - Window (opt s);
              s1 = prune_loop (lowest s) cutoff s;
              s2 = (if cutoff > lowest s1 then s1\<lparr>lowest := cutoff\<rparr> else s1)
          in if cutoff > 0 \<and> cutoff - 1 > historyTop s2 then s2\<lparr>historyTop := cutoff - 1\<rparr> else s2)"

section \<open>Observe\<close>

definition bumpObserved :: "store \<Rightarrow> store" where
  "bumpObserved s = s\<lparr>observed := observed s + 1\<rparr>"

text \<open>First locked section, on a header already held: only provenance can change.\<close>

definition promote :: "u32 \<Rightarrow> hash \<Rightarrow> store \<Rightarrow> store" where
  "promote h x s = (case entry_at s h x of
      None \<Rightarrow> s
    | Some e \<Rightarrow> if viaAnchor e then set_entry h x (e\<lparr>viaAnchor := False\<rparr>) s else s)"

text \<open>Second locked section: the parent the anchor resolved, rechecked under the lock.\<close>

definition reanchorParent :: "hash \<Rightarrow> u32 \<Rightarrow> hash \<Rightarrow> store \<Rightarrow> u32 \<times> bool \<times> store" where
  "reanchorParent prev h r s = (case byHash s prev of
      Some existing \<Rightarrow> (existing, False, s)
    | None \<Rightarrow>
        let s1 = putLocked h prev \<lparr>e_root = r, e_prev = zero_hash, viaAnchor = True\<rparr>
                   (s\<lparr>byHash := (byHash s)(prev \<mapsto> h)\<rparr>)
        in (h, True, s1\<lparr>reanchored := reanchored s1 + 1\<rparr>))"

definition resolveParent :: "header_at option \<Rightarrow> hash \<Rightarrow> store \<Rightarrow> (u32 \<times> bool) option \<times> store" where
  "resolveParent lk prev s = (case byHash s prev of
      Some parentH \<Rightarrow> (Some (parentH, False), s)
    | None \<Rightarrow> (case lk of
          None \<Rightarrow> (None, s)
        | Some headerAt \<Rightarrow> (case headerAt prev of
              None \<Rightarrow> (None, s)
            | Some (h, r) \<Rightarrow> (case reanchorParent prev h r s of
                (ph, re, s') \<Rightarrow> (Some (ph, re), s')))))"

text \<open>Third locked section: the header takes its place behind its parent.\<close>

definition recordHeader :: "hash \<Rightarrow> hash \<Rightarrow> hash \<Rightarrow> u32 \<Rightarrow> store \<Rightarrow> store" where
  "recordHeader x root prev h s =
     (let s1 = (if canon s h \<noteq> None then s\<lparr>replaced := replaced s + 1\<rparr> else s)
      in putLocked h x \<lparr>e_root = root, e_prev = prev, viaAnchor = False\<rparr>
           (s1\<lparr>byHash := (byHash s1)(x \<mapsto> h)\<rparr>))"

definition extendTip :: "hash \<Rightarrow> u32 \<Rightarrow> store \<Rightarrow> store" where
  "extendTip x h s = pruneLocked (recanonLocked x h (s\<lparr>tip := x, tipH := h\<rparr>))"

definition commitHeader ::
    "hash \<Rightarrow> hash \<Rightarrow> hash \<Rightarrow> u32 \<Rightarrow> bool \<Rightarrow> store \<Rightarrow> observation \<times> store" where
  "commitHeader x root prev parentH re s =
     (let h = parentH + 1;
          s2 = recordHeader x root prev h s;
          wins = (prev = tip s2 \<or> h > tipH s2);
          s3 = (if wins then extendTip x h s2 else s2)
      in (\<lparr>o_Hash = x, o_Height = h, o_Root = root, Chained = True, Reanchor = re,
           Tip = wins, Replaced = (canon s h \<noteq> None)\<rparr>, bumpObserved s3))"

definition bareObservation :: "hash \<Rightarrow> hash \<Rightarrow> observation" where
  "bareObservation x root = \<lparr>o_Hash = x, o_Height = 0, o_Root = root, Chained = False,
     Reanchor = False, Tip = False, Replaced = False\<rparr>"

definition Observe ::
    "(bytes \<Rightarrow> bytes) \<Rightarrow> header_at option \<Rightarrow> bytes \<Rightarrow> store \<Rightarrow> (observation \<times> hdr_err option) \<times> store" where
  "Observe sha lk hdr s =
     (if length hdr \<noteq> 80 then ((bareObservation zero_hash zero_hash, Some ErrHeaderSize), s)
      else let x = headerHash sha hdr; prev = hdr_prev hdr; root = hdr_root hdr;
               obs = bareObservation x root in
        case checkWork (opt s) x (hdr_bits hdr) of
          Inl err \<Rightarrow> ((obs, Some err), s\<lparr>rejected := rejected s + 1\<rparr>)
        | Inr _ \<Rightarrow> (case byHash s x of
            Some h \<Rightarrow> ((obs\<lparr>o_Height := h, Chained := True\<rparr>, None), bumpObserved (promote h x s))
          | None \<Rightarrow> (case resolveParent lk prev s of
              (None, s') \<Rightarrow> ((obs, None), bumpObserved (s'\<lparr>orphaned := orphaned s' + 1\<rparr>))
            | (Some (parentH, re), s') \<Rightarrow>
                (case commitHeader x root prev parentH re s' of (o1, s'') \<Rightarrow> ((o1, None), s'')))))"

definition Handle :: "(bytes \<Rightarrow> bytes) \<Rightarrow> header_at option \<Rightarrow> bytes \<Rightarrow> store \<Rightarrow> hdr_err option \<times> store" where
  "Handle sha lk hdr s = (case Observe sha lk hdr s of ((_, err), s') \<Rightarrow> (err, s'))"

section \<open>What each operation changes\<close>

lemma entry_at_set_entry [simp]:
  "entry_at (set_entry h x e s) h' x' = (if h' = h \<and> x' = x then Some e else entry_at s h' x')"
  by (auto simp: entry_at_def set_entry_def split: option.splits)

lemma set_entry_fields [store_simps]:
  "byHash (set_entry h x e s) = byHash s" "canon (set_entry h x e s) = canon s"
  "tip (set_entry h x e s) = tip s" "tipH (set_entry h x e s) = tipH s"
  "lowest (set_entry h x e s) = lowest s" "opt (set_entry h x e s) = opt s"
  "historyTop (set_entry h x e s) = historyTop s"
  "fallbackRoots (set_entry h x e s) = fallbackRoots s"
  by (simp_all add: set_entry_def)

lemma putLocked_fields [store_simps]:
  "byHash (putLocked h x e s) = byHash s" "canon (putLocked h x e s) = canon s"
  "tip (putLocked h x e s) = tip s" "tipH (putLocked h x e s) = tipH s"
  "opt (putLocked h x e s) = opt s" "historyTop (putLocked h x e s) = historyTop s"
  "fallbackRoots (putLocked h x e s) = fallbackRoots s"
  "lowest (putLocked h x e s) = min h (lowest s)"
  by (auto simp: putLocked_def Let_def store_simps min_def)

lemma entry_at_cong: "at_height s = at_height t \<Longrightarrow> entry_at s h x = entry_at t h x"
  by (simp add: entry_at_def)

lemma entry_at_putLocked [simp]:
  "entry_at (putLocked h x e s) h' x' = (if h' = h \<and> x' = x then Some e else entry_at s h' x')"
proof -
  have "at_height (putLocked h x e s) = at_height (set_entry h x e s)"
    by (simp add: putLocked_def Let_def)
  then show ?thesis by (subst entry_at_cong [where t = "set_entry h x e s"]) simp_all
qed

lemma entry_at_updates [simp]:
  "entry_at (s\<lparr>byHash := b\<rparr>) = entry_at s" "entry_at (s\<lparr>canon := c\<rparr>) = entry_at s"
  "entry_at (s\<lparr>tip := t, tipH := h\<rparr>) = entry_at s" "entry_at (s\<lparr>lowest := h\<rparr>) = entry_at s"
  "entry_at (s\<lparr>historyTop := h\<rparr>) = entry_at s" "entry_at (s\<lparr>observed := n\<rparr>) = entry_at s"
  "entry_at (s\<lparr>rejected := n\<rparr>) = entry_at s" "entry_at (s\<lparr>orphaned := n\<rparr>) = entry_at s"
  "entry_at (s\<lparr>reanchored := n\<rparr>) = entry_at s" "entry_at (s\<lparr>replaced := n\<rparr>) = entry_at s"
  by (simp_all add: entry_at_def fun_eq_iff)

lemma height_range_step:
  "lo < c \<Longrightarrow> lo \<le> h \<and> h < c \<longleftrightarrow> h = lo \<or> (lo + 1 \<le> h \<and> h < c)" for lo :: "'a::len word"
  using unat_plus_one_less [of lo c] by (auto simp: word_le_nat_alt word_less_nat_alt word_unat_eq_iff)

lemma entry_at_prune_height:
  "entry_at (prune_height h s) h' x = (if h' = h then None else entry_at s h' x)"
  by (simp add: prune_height_def entry_at_def)

lemma prune_height_fields [store_simps]:
  "tip (prune_height h s) = tip s" "tipH (prune_height h s) = tipH s"
  "lowest (prune_height h s) = lowest s" "opt (prune_height h s) = opt s"
  "historyTop (prune_height h s) = historyTop s"
  "fallbackRoots (prune_height h s) = fallbackRoots s"
  "canon (prune_height h s) = (canon s)(h := None)"
  "byHash (prune_height h s) x = (if entry_at s h x \<noteq> None then None else byHash s x)"
  by (simp_all add: prune_height_def)

lemma prune_loop_fields [store_simps]:
  "tip (prune_loop h c s) = tip s" "tipH (prune_loop h c s) = tipH s"
  "lowest (prune_loop h c s) = lowest s" "opt (prune_loop h c s) = opt s"
  "historyTop (prune_loop h c s) = historyTop s"
  "fallbackRoots (prune_loop h c s) = fallbackRoots s"
  by (induction h c s rule: prune_loop.induct; subst prune_loop.simps; simp add: store_simps)+

lemma prune_loop_canon:
  "canon (prune_loop lo c s) h = (if lo \<le> h \<and> h < c then None else canon s h)"
proof (induction lo c s rule: prune_loop.induct)
  case (1 lo c s)
  show ?case
    by (subst prune_loop.simps) (use 1 height_range_step [of lo c h] in \<open>auto simp: store_simps\<close>)
qed

lemma prune_loop_entry:
  "entry_at (prune_loop lo c s) h x = (if lo \<le> h \<and> h < c then None else entry_at s h x)"
proof (induction lo c s rule: prune_loop.induct)
  case (1 lo c s)
  show ?case
    by (subst prune_loop.simps)
      (use 1 height_range_step [of lo c h] in \<open>auto simp: entry_at_prune_height\<close>)
qed

lemma prune_loop_byHash:
  "byHash (prune_loop lo c s) x =
     (if \<exists>h. lo \<le> h \<and> h < c \<and> entry_at s h x \<noteq> None then None else byHash s x)"
proof (induction lo c s rule: prune_loop.induct)
  case (1 lo c s)
  show ?case
  proof (cases "lo < c")
    case True
    have "(\<exists>h. lo \<le> h \<and> h < c \<and> entry_at s h x \<noteq> None) \<longleftrightarrow>
        entry_at s lo x \<noteq> None \<or> (\<exists>h. lo + 1 \<le> h \<and> h < c \<and> entry_at (prune_height lo s) h x \<noteq> None)"
      by (simp only: conj_assoc [symmetric] height_range_step [OF True])
        (auto simp: entry_at_prune_height)
    with 1 True show ?thesis by (subst prune_loop.simps) (auto simp: store_simps)
  next
    case False
    then have "\<not> (\<exists>h. lo \<le> h \<and> h < c \<and> entry_at s h x \<noteq> None)" by auto
    with False show ?thesis by (subst prune_loop.simps) auto
  qed
qed

section \<open>The index invariant\<close>

definition anchored :: "store \<Rightarrow> hash" where
  "anchored s = anchor_hash (Anchor (opt s))"

definition store_inv :: "store \<Rightarrow> bool" where
  "store_inv s \<longleftrightarrow>
     byHash s (anchored s) = Some (anchor_height (Anchor (opt s))) \<and>
     (\<forall>h. entry_at s h (anchored s) = None) \<and>
     (\<forall>x h. x \<noteq> anchored s \<longrightarrow> (byHash s x = Some h \<longleftrightarrow> entry_at s h x \<noteq> None)) \<and>
     (\<forall>h x. canon s h = Some x \<longrightarrow> byHash s x = Some h) \<and>
     byHash s (tip s) = Some (tipH s) \<and>
     (\<forall>h x e. entry_at s h x = Some e \<longrightarrow> lowest s \<le> h)"

lemma store_invI:
  assumes "byHash s (anchored s) = Some (anchor_height (Anchor (opt s)))"
    and "\<And>h. entry_at s h (anchored s) = None"
    and "\<And>x h. x \<noteq> anchored s \<Longrightarrow> byHash s x = Some h \<longleftrightarrow> entry_at s h x \<noteq> None"
    and "\<And>h x. canon s h = Some x \<Longrightarrow> byHash s x = Some h"
    and "byHash s (tip s) = Some (tipH s)"
    and "\<And>h x e. entry_at s h x = Some e \<Longrightarrow> lowest s \<le> h"
  shows "store_inv s"
  using assms by (simp add: store_inv_def)

lemma store_invD:
  assumes "store_inv s"
  shows "byHash s (anchored s) = Some (anchor_height (Anchor (opt s)))"
    and "entry_at s h (anchored s) = None"
    and "x \<noteq> anchored s \<Longrightarrow> byHash s x = Some h \<longleftrightarrow> entry_at s h x \<noteq> None"
    and "canon s h = Some x \<Longrightarrow> byHash s x = Some h"
    and "byHash s (tip s) = Some (tipH s)"
    and "entry_at s h x = Some e \<Longrightarrow> lowest s \<le> h"
  using assms unfolding store_inv_def by blast+

lemma entry_byHash: "store_inv s \<Longrightarrow> entry_at s h x = Some e \<Longrightarrow> byHash s x = Some h"
  by (metis option.discI store_invD(2,3))

lemma store_inv_New: "New o' = Inr s \<Longrightarrow> store_inv s"
  by (auto simp: New_def store_inv_def anchored_def entry_at_def split: if_splits)

text \<open>The index sees only these fields; counters, caches and provenance marks are free.\<close>

lemma store_inv_cong:
  assumes "byHash t = byHash s" "canon t = canon s" "tip t = tip s" "tipH t = tipH s"
    "lowest t = lowest s" "opt t = opt s" "\<And>h x. entry_at t h x = None \<longleftrightarrow> entry_at s h x = None"
  shows "store_inv t = store_inv s"
proof -
  have "(\<exists>e. entry_at t h x = Some e) \<longleftrightarrow> (\<exists>e. entry_at s h x = Some e)" for h x
    using assms(7) [of h x] by (metis not_None_eq)
  with assms show ?thesis by (simp add: store_inv_def anchored_def)
qed

lemma store_inv_promote: "store_inv s \<Longrightarrow> store_inv (promote h x s)"
  by (subst store_inv_cong [of _ s]) (auto simp: promote_def store_simps split: option.splits)

lemma store_inv_put:
  assumes inv: "store_inv s" and new: "byHash s x = None"
  shows "store_inv (putLocked h x e (s\<lparr>byHash := (byHash s)(x \<mapsto> h)\<rparr>))" (is "store_inv ?t")
proof -
  have x: "x \<noteq> anchored s" using new store_invD(1) [OF inv] by auto
  have none: "entry_at s h' x = None" for h' using store_invD(3) [OF inv x] new by auto
  have a: "anchored ?t = anchored s" by (simp add: anchored_def store_simps)
  have c: "canon s h' \<noteq> Some x" for h' using store_invD(4) [OF inv] new by force
  have t: "tip s \<noteq> x" using store_invD(5) [OF inv] new by auto
  show ?thesis
  proof (rule store_invI, unfold a)
    show "byHash ?t y = Some h' \<longleftrightarrow> entry_at ?t h' y \<noteq> None" if "y \<noteq> anchored s" for y h'
      using that store_invD(3) [OF inv that] none by (auto simp: store_simps)
    show "lowest ?t \<le> h'" if "entry_at ?t h' y = Some e'" for h' y e'
      using that store_invD(6) [OF inv, of h' y e']
      by (auto simp: store_simps min_le_iff_disj split: if_splits)
  qed (use store_invD [OF inv] x c t in \<open>auto simp: store_simps\<close>)
qed

text \<open>
  The rewrite of the canonical map as a walk: it stops where the map already agrees, or at a header
  with no parent link it can follow, and otherwise goes on at the parent one height below.
\<close>

definition canon_parent ::
    "(hash \<rightharpoonup> u32) \<Rightarrow> (u32 \<rightharpoonup> (hash \<rightharpoonup> entry)) \<Rightarrow> hash \<Rightarrow> u32 \<Rightarrow> hash option" where
  "canon_parent bh ah x h = (case ah h of
      None \<Rightarrow> None
    | Some m \<Rightarrow> (case m x of
        None \<Rightarrow> None
      | Some e \<Rightarrow> if e_prev e \<noteq> zero_hash \<and> h \<noteq> 0 \<and> bh (e_prev e) = Some (h - 1)
                  then Some (e_prev e) else None))"

lemma recanon_walk:
  "recanon bh ah x h cn = (if cn h = Some x then cn
     else (case canon_parent bh ah x h of
         None \<Rightarrow> cn(h \<mapsto> x)
       | Some p \<Rightarrow> recanon bh ah p (h - 1) (cn(h \<mapsto> x))))"
  by (subst recanon.simps) (auto simp: canon_parent_def Let_def split: option.splits)

lemma recanon_induct [case_names agree stop walk]:
  assumes agree: "\<And>cn x h. cn h = Some x \<Longrightarrow> P x h cn cn"
    and stop: "\<And>cn x h. cn h \<noteq> Some x \<Longrightarrow> canon_parent bh ah x h = None \<Longrightarrow> P x h cn (cn(h \<mapsto> x))"
    and walk: "\<And>cn x h p r. cn h \<noteq> Some x \<Longrightarrow> canon_parent bh ah x h = Some p \<Longrightarrow>
        P p (h - 1) (cn(h \<mapsto> x)) r \<Longrightarrow> P x h cn r"
  shows "P x h cn (recanon bh ah x h cn)"
proof (induction "unat h" arbitrary: x h cn rule: less_induct)
  case less
  have "P p (h - 1) (cn(h \<mapsto> x)) (recanon bh ah p (h - 1) (cn(h \<mapsto> x)))"
    if "canon_parent bh ah x h = Some p" for p
    using that by (intro less) (auto simp: canon_parent_def intro: unat_minus_one_less
        split: option.splits if_splits)
  then show ?case
    by (subst recanon_walk) (auto intro: agree stop walk split: option.splits)
qed

lemma canon_parent_indexed: "canon_parent bh ah x h = Some p \<Longrightarrow> bh p = Some (h - 1)"
  by (auto simp: canon_parent_def split: option.splits if_splits)

lemma recanon_indexed:
  "bh x = Some h \<Longrightarrow> \<forall>h x. cn h = Some x \<longrightarrow> bh x = Some h \<Longrightarrow>
   recanon bh ah x h cn h' = Some y \<longrightarrow> bh y = Some h'"
proof (induction x h cn rule: recanon_induct)
  case (walk cn x h p r)
  then show ?case by (simp add: canon_parent_indexed)
qed auto

lemma store_inv_tip:
  assumes inv: "store_inv s" and x: "byHash s x = Some h"
  shows "store_inv (recanonLocked x h (s\<lparr>tip := x, tipH := h\<rparr>))"
proof -
  have "byHash s y = Some h'"
    if "recanon (byHash s) (at_height s) x h (canon s) h' = Some y" for h' y
    using recanon_indexed [of "byHash s" x h "canon s" "at_height s" h' y] x that store_invD(4) [OF inv] by blast
  then show ?thesis
    using inv x by (auto simp: store_inv_def anchored_def recanonLocked_def)
qed

lemma store_inv_prune:
  assumes inv: "store_inv s"
  shows "store_inv (pruneLocked s)"
proof (cases "Window (opt s) = 0 \<or> tipH s < Window (opt s)")
  case True
  then show ?thesis using inv by (simp add: pruneLocked_def)
next
  case False
  define c where "c = tipH s - Window (opt s)"
  define t where "t = prune_loop (lowest s) c s"
  have le: "c \<le> tipH s" using False by (simp add: c_def word_sub_le not_less)
  note f = store_simps t_def prune_loop_canon prune_loop_entry prune_loop_byHash
  have one: "h' = h" if "entry_at s h x = Some e" "byHash s x = Some h'" for h h' x e
    using that entry_byHash [OF inv] by force
  have elsewhere: "entry_at s h' x = None" if "byHash s x = Some h" "h' \<noteq> h" for h h' x
    using that one by (metis option.exhaust)
  have twice: "entry_at s h' x = None" if "entry_at s h x = Some e" "h' \<noteq> h" for h h' x e
    using that elsewhere entry_byHash [OF inv] by blast
  have low: "lowest s \<le> h \<and> c \<le> h" if "entry_at t h x = Some e" for h x e
    using that store_invD(6) [OF inv, of h x e] by (auto simp: f not_less split: if_splits)
  have canon: "byHash t x = Some h" if "canon t h = Some x" for h x
    using that store_invD(4) [OF inv, of h x] by (auto simp: f intro!: elsewhere split: if_splits)
  have tip: "byHash t (tip t) = Some (tipH t)"
    using store_invD(5) [OF inv] le by (auto simp: f intro!: elsewhere)
  have idx: "byHash t x = Some h \<longleftrightarrow> entry_at t h x \<noteq> None" if "x \<noteq> anchored s" for x h
    using store_invD(3) [OF inv that] by (auto simp: f intro: twice)
  have t: "store_inv (t\<lparr>lowest := l\<rparr>)" if "l = lowest s \<or> l = c" for l
  proof (rule store_invI)
    have a: "anchored (t\<lparr>lowest := l\<rparr>) = anchored s" by (simp add: anchored_def f)
    show "byHash (t\<lparr>lowest := l\<rparr>) (anchored (t\<lparr>lowest := l\<rparr>)) =
        Some (anchor_height (Anchor (opt (t\<lparr>lowest := l\<rparr>))))"
      unfolding a using store_invD(1,2) [OF inv] by (simp add: f)
    show "entry_at (t\<lparr>lowest := l\<rparr>) h (anchored (t\<lparr>lowest := l\<rparr>)) = None" for h
      unfolding a using store_invD(2) [OF inv] by (simp add: f)
    show "byHash (t\<lparr>lowest := l\<rparr>) x = Some h \<longleftrightarrow> entry_at (t\<lparr>lowest := l\<rparr>) h x \<noteq> None"
      if "x \<noteq> anchored (t\<lparr>lowest := l\<rparr>)" for x h
      using that idx unfolding a by simp
    show "lowest (t\<lparr>lowest := l\<rparr>) \<le> h" if "entry_at (t\<lparr>lowest := l\<rparr>) h x = Some e" for h x e
      using low [of h x e] that \<open>l = lowest s \<or> l = c\<close> by auto
  qed (use canon tip in auto)
  have "lowest t = lowest s" by (simp add: f)
  then have "store_inv (if lowest t < c then t\<lparr>lowest := c\<rparr> else t)"
    using t [of c] t [of "lowest s"] by (cases t) auto
  then show ?thesis
    using False by (auto simp: pruneLocked_def Let_def c_def [symmetric] t_def [symmetric]
        store_inv_cong [of "u\<lparr>historyTop := k\<rparr>" u for u k] split: if_splits)
qed


lemma store_inv_resolveParent:
  "store_inv s \<Longrightarrow> resolveParent lk prev s = (r, t) \<Longrightarrow> store_inv t"
proof -
  assume inv: "store_inv s" and r: "resolveParent lk prev s = (r, t)"
  have c: "store_inv (u\<lparr>reanchored := n\<rparr>) = store_inv u" for u n
    by (rule store_inv_cong) simp_all
  show ?thesis
    using r inv by (auto simp: resolveParent_def reanchorParent_def Let_def c store_inv_put
        split: option.splits)
qed

lemma resolveParent_known:
  "resolveParent lk prev s = (Some (ph, re), t) \<Longrightarrow> byHash t prev = Some ph"
  by (auto simp: resolveParent_def reanchorParent_def Let_def store_simps split: option.splits)

lemma resolveParent_other:
  "resolveParent lk prev s = (r, t) \<Longrightarrow> x \<noteq> prev \<Longrightarrow> byHash t x = byHash s x"
  by (auto simp: resolveParent_def reanchorParent_def Let_def store_simps split: option.splits)

lemma bumpObserved_inv [simp]: "store_inv (bumpObserved s) = store_inv s"
  by (rule store_inv_cong) (simp_all add: bumpObserved_def)

lemma recordHeader_put:
  obtains s1 where "recordHeader x root prev h s =
      putLocked h x \<lparr>e_root = root, e_prev = prev, viaAnchor = False\<rparr> (s1\<lparr>byHash := (byHash s1)(x \<mapsto> h)\<rparr>)"
    "\<exists>n. s1 = s\<lparr>replaced := n\<rparr>"
  by (rule that [OF recordHeader_def [unfolded Let_def]]) (auto intro: exI [of _ "replaced s"])

lemma recordHeader_fields [store_simps]:
  "byHash (recordHeader x root prev h s) = (byHash s)(x \<mapsto> h)"
  "canon (recordHeader x root prev h s) = canon s"
  "tip (recordHeader x root prev h s) = tip s" "tipH (recordHeader x root prev h s) = tipH s"
  "opt (recordHeader x root prev h s) = opt s"
  "historyTop (recordHeader x root prev h s) = historyTop s"
  "fallbackRoots (recordHeader x root prev h s) = fallbackRoots s"
  "lowest (recordHeader x root prev h s) = min h (lowest s)"
  by (simp_all add: recordHeader_def Let_def store_simps)

lemma entry_at_recordHeader [simp]:
  "entry_at (recordHeader x root prev h s) h' y =
     (if h' = h \<and> y = x then Some \<lparr>e_root = root, e_prev = prev, viaAnchor = False\<rparr> else entry_at s h' y)"
  by (simp add: recordHeader_def Let_def)

lemma store_inv_recordHeader:
  assumes "store_inv s" "byHash s x = None"
  shows "store_inv (recordHeader x root prev h s)"
proof -
  obtain s1 n where r: "recordHeader x root prev h s =
      putLocked h x \<lparr>e_root = root, e_prev = prev, viaAnchor = False\<rparr> (s1\<lparr>byHash := (byHash s1)(x \<mapsto> h)\<rparr>)"
    and s1: "s1 = s\<lparr>replaced := n\<rparr>" by (rule recordHeader_put) blast
  have "store_inv s1" using assms by (simp add: s1 store_inv_cong [of "s\<lparr>replaced := _\<rparr>" s])
  moreover have "byHash s1 x = None" using assms by (simp add: s1)
  ultimately show ?thesis unfolding r by (rule store_inv_put)
qed

lemma store_inv_extendTip:
  "store_inv s \<Longrightarrow> byHash s x = Some h \<Longrightarrow> store_inv (extendTip x h s)"
  by (simp add: extendTip_def store_inv_prune store_inv_tip)

lemma store_inv_commit:
  assumes inv: "store_inv s" and new: "byHash s x = None"
    and c: "commitHeader x root prev ph re s = (ob, t)"
  shows "store_inv t"
  using store_inv_recordHeader [OF inv new] c
  by (auto simp: commitHeader_def Let_def store_inv_extendTip store_simps)

text \<open>The five ways an observation can end.\<close>

lemma Observe_cases [consumes 1, case_names size work held orphan chained]:
  assumes "Observe sha lk hdr s = ((ob, err), t)"
  obtains "length hdr \<noteq> 80" "err = Some ErrHeaderSize" "t = s" "\<not> Tip ob"
  | e where "length hdr = 80" "checkWork (opt s) (headerHash sha hdr) (hdr_bits hdr) = Inl e"
      "err = Some e" "t = s\<lparr>rejected := rejected s + 1\<rparr>" "\<not> Tip ob"
  | h where "length hdr = 80" "checkWork (opt s) (headerHash sha hdr) (hdr_bits hdr) = Inr ()"
      "err = None" "byHash s (headerHash sha hdr) = Some h" "o_Height ob = h" "\<not> Tip ob"
      "t = bumpObserved (promote h (headerHash sha hdr) s)"
  | s' where "length hdr = 80" "checkWork (opt s) (headerHash sha hdr) (hdr_bits hdr) = Inr ()"
      "err = None" "byHash s (headerHash sha hdr) = None" "\<not> Chained ob" "\<not> Tip ob"
      "resolveParent lk (hdr_prev hdr) s = (None, s')"
      "t = bumpObserved (s'\<lparr>orphaned := orphaned s' + 1\<rparr>)"
  | ph re s' where "length hdr = 80" "checkWork (opt s) (headerHash sha hdr) (hdr_bits hdr) = Inr ()"
      "err = None" "byHash s (headerHash sha hdr) = None"
      "resolveParent lk (hdr_prev hdr) s = (Some (ph, re), s')"
      "commitHeader (headerHash sha hdr) (hdr_root hdr) (hdr_prev hdr) ph re s' = (ob, t)"
  using assms
  by (auto simp: Observe_def Let_def bareObservation_def
      split: if_splits sum.splits option.splits prod.splits)

lemma store_inv_Observe:
  assumes inv: "store_inv s" and fresh: "headerHash sha hdr \<noteq> hdr_prev hdr"
    and o: "Observe sha lk hdr s = ((ob, err), t)"
  shows "store_inv t"
proof -
  have c: "store_inv (u\<lparr>rejected := n\<rparr>) = store_inv u" "store_inv (u\<lparr>orphaned := n\<rparr>) = store_inv u" for u n
    by (rule store_inv_cong; simp)+
  from o show ?thesis
  proof (cases rule: Observe_cases)
    case (orphan s')
    with inv show ?thesis by (simp add: c) (rule store_inv_resolveParent)
  next
    case (chained ph re s')
    have "byHash s' (headerHash sha hdr) = None"
      using resolveParent_other [OF chained(5) fresh] chained(4) by simp
    with inv chained show ?thesis by (blast intro: store_inv_resolveParent store_inv_commit)
  qed (use inv in \<open>simp_all add: c store_inv_promote\<close>)
qed

end
