(* ===== verification/Header_Reads.thy ===== *)
theory Header_Reads
  imports Header_Store
begin

text \<open>
  The read side of \<^verbatim>\<open>src/headers\<close>: \<^verbatim>\<open>RootAt\<close>, \<^verbatim>\<open>HeaderForHeight\<close>, \<^verbatim>\<open>Known\<close>, \<^verbatim>\<open>HeaderByHash\<close>,
  the provenance counters they book, the bounded cache of fallback roots and its startup warm-up
  (\<^verbatim>\<open>warm.go\<close>). The anchor service behind \<^verbatim>\<open>Fallback\<close> is an argument of each call: its answers at
  that time, \<open>None\<close> for a nil interface. The store's step relation over all its operations is here,
  with the invariants every reachable store keeps.
\<close>

section \<open>Reads\<close>

text \<open>\<^verbatim>\<open>RootSource.RootAt\<close> answers a root, a nil root, or an error.\<close>

type_synonym root_source = "u32 \<Rightarrow> hdr_err + hash option"

text \<open>\<^verbatim>\<open>HeaderSource.HeaderForHeight\<close> answers a block's hash and root, or an error.\<close>

type_synonym header_source = "u32 \<Rightarrow> hdr_err + hash \<times> hash"

definition fallbackCap :: nat where "fallbackCap = 65536"

definition TipOf :: "store \<Rightarrow> hash \<times> u32" where
  "TipOf s = (tip s, tipH s)"

definition bookAnchoredLocked :: "u32 \<Rightarrow> store \<Rightarrow> store" where
  "bookAnchoredLocked h s = (if h \<le> historyTop s then s\<lparr>fromHistory := fromHistory s + 1\<rparr>
     else s\<lparr>fromFallback := fromFallback s + 1\<rparr>)"

definition canonical_entry :: "store \<Rightarrow> u32 \<Rightarrow> (hash \<times> entry) option" where
  "canonical_entry s h = (case canon s h of
      None \<Rightarrow> None
    | Some x \<Rightarrow> (case entry_at s h x of None \<Rightarrow> None | Some e \<Rightarrow> Some (x, e)))"

definition bookCanonical :: "u32 \<Rightarrow> entry \<Rightarrow> store \<Rightarrow> store" where
  "bookCanonical h e s = (if viaAnchor e then bookAnchoredLocked h s
     else s\<lparr>fromLane := fromLane s + 1\<rparr>)"

definition bumpMisses :: "store \<Rightarrow> store" where
  "bumpMisses s = s\<lparr>misses := misses s + 1\<rparr>"

definition cacheRoot :: "u32 \<Rightarrow> hash \<Rightarrow> store \<Rightarrow> store" where
  "cacheRoot h r s = (let cleared = (if fallbackCap \<le> length (fallbackRoots s) then [] else fallbackRoots s)
     in s\<lparr>fallbackRoots := AList.update h r cleared\<rparr>)"

definition RootAt :: "root_source option \<Rightarrow> u32 \<Rightarrow> store \<Rightarrow> (hdr_err + hash option) \<times> store" where
  "RootAt fb h s = (case canonical_entry s h of
      Some (_, e) \<Rightarrow> (Inr (Some (e_root e)), bookCanonical h e s)
    | None \<Rightarrow> (case map_of (fallbackRoots s) h of
        Some r \<Rightarrow> (Inr (Some r), bookAnchoredLocked h s)
      | None \<Rightarrow> (case fb of
          None \<Rightarrow> (Inl ErrNoFallback, bumpMisses s)
        | Some rootAt \<Rightarrow> (case rootAt h of
            Inl err \<Rightarrow> (Inl err, bumpMisses s)
          | Inr None \<Rightarrow> (Inr None, bumpMisses s)
          | Inr (Some r) \<Rightarrow> (Inr (Some r), bookAnchoredLocked h (cacheRoot h r s))))))"

definition HeaderForHeight ::
    "header_source option \<Rightarrow> u32 \<Rightarrow> store \<Rightarrow> (hdr_err + hash \<times> hash \<times> bool) \<times> store" where
  "HeaderForHeight hs h s = (case canonical_entry s h of
      Some (x, e) \<Rightarrow> (Inr (x, e_root e, \<not> viaAnchor e), bookCanonical h e s)
    | None \<Rightarrow> (case hs of
        None \<Rightarrow> (Inl ErrCannotName, bumpMisses s)
      | Some headerFor \<Rightarrow> (case headerFor h of
          Inl err \<Rightarrow> (Inl err, bumpMisses s)
        | Inr (x, r) \<Rightarrow> (Inr (x, r, False), bookAnchoredLocked h s))))"

definition Known :: "u32 \<Rightarrow> store \<Rightarrow> bool" where
  "Known h s = (case canon s h of
      None \<Rightarrow> False
    | Some x \<Rightarrow> (case entry_at s h x of None \<Rightarrow> False | Some e \<Rightarrow> \<not> viaAnchor e))"

definition HeaderByHash :: "hash \<Rightarrow> store \<Rightarrow> (u32 \<times> hash \<times> bool) option" where
  "HeaderByHash x s = (case byHash s x of
      None \<Rightarrow> None
    | Some h \<Rightarrow> (case entry_at s h x of
        None \<Rightarrow> None
      | Some e \<Rightarrow> Some (h, e_root e, \<not> viaAnchor e)))"

section \<open>Warm-up\<close>

record warm_stats =
  Target :: u64
  Loaded :: u64
  Failed :: u64
  Done :: bool

definition warm_low :: "u32 \<Rightarrow> u32 \<Rightarrow> u32" where
  "warm_low topH depth = (if topH + 1 > depth then topH + 1 - depth else 0)"

text \<open>The heights fed to the workers, newest first; the loop ends once \<open>low\<close> has been sent.\<close>

function warm_heights :: "u32 \<Rightarrow> u32 \<Rightarrow> u32 list" where
  "warm_heights h low = (if h \<le> low then [h] else h # warm_heights (h - 1) low)"
  by pat_completeness auto
termination
proof (relation "measure (\<lambda>(h, low). unat h)", goal_cases)
  case (2 h low)
  then have "h \<noteq> 0" by auto
  then show ?case by (simp add: unat_minus_one_less)
qed simp

declare warm_heights.simps [simp del]

text \<open>
  One worker step. \<open>live\<close> is whether the warm-up's context was still live when the worker took
  the height.
\<close>

definition warmOne :: "root_source \<Rightarrow> bool \<Rightarrow> u32 \<Rightarrow> store \<times> warm_stats \<Rightarrow> store \<times> warm_stats" where
  "warmOne fb live h sw = (case sw of (s, w) \<Rightarrow>
     if \<not> live then (s, w\<lparr>Failed := Failed w + 1\<rparr>)
     else (case fb h of
         Inl _ \<Rightarrow> (s, w\<lparr>Failed := Failed w + 1\<rparr>)
       | Inr None \<Rightarrow> (s, w\<lparr>Failed := Failed w + 1\<rparr>)
       | Inr (Some r) \<Rightarrow>
           (if length (fallbackRoots s) < fallbackCap
            then s\<lparr>fallbackRoots := AList.update h r (fallbackRoots s)\<rparr> else s,
            w\<lparr>Loaded := Loaded w + 1\<rparr>)))"

fun warm_run :: "root_source \<Rightarrow> (u32 \<times> bool) list \<Rightarrow> store \<times> warm_stats \<Rightarrow> store \<times> warm_stats" where
  "warm_run fb [] sw = sw"
| "warm_run fb ((h, live) # hs) sw = warm_run fb hs (warmOne fb live h sw)"

text \<open>
  \<open>sent\<close> is how many heights the feeding loop hands over before the context ends (all of them
  when it does not), \<open>live\<close> tells for each whether the context was live when its worker took it,
  and \<open>ended\<close> whether it had ended by the time the workers were done.
\<close>

definition Warm ::
    "root_source option \<Rightarrow> u32 \<Rightarrow> nat \<Rightarrow> (u32 \<Rightarrow> bool) \<Rightarrow> bool \<Rightarrow> store \<Rightarrow>
     hdr_err option \<times> store \<times> warm_stats" where
  "Warm fb depth sent live ended s = (let w0 = \<lparr>Target = 0, Loaded = 0, Failed = 0, Done = False\<rparr> in
     case fb of
       None \<Rightarrow> (Some ErrWarmNoFallback, s, w0\<lparr>Done := True\<rparr>)
     | Some rootAt \<Rightarrow>
         if depth = 0 then (None, s, w0\<lparr>Done := True\<rparr>)
         else let depth' = (if unat depth > fallbackCap div 2 then word_of_nat (fallbackCap div 2) else depth);
                  topH = anchor_height (Anchor (opt s));
                  low = warm_low topH depth';
                  hs = take sent (warm_heights topH low)
              in (case warm_run rootAt (map (\<lambda>h. (h, live h)) hs)
                       (s, w0\<lparr>Target := ucast (topH - low) + 1\<rparr>) of
                  (s', w) \<Rightarrow> (if ended then Some ErrContext else None, s', w\<lparr>Done := True\<rparr>)))"

section \<open>Reads leave the chain alone\<close>

text \<open>Two stores that differ only in caches and counters.\<close>

definition same_chain :: "store \<Rightarrow> store \<Rightarrow> bool" where
  "same_chain s t \<longleftrightarrow> byHash t = byHash s \<and> at_height t = at_height s \<and> canon t = canon s \<and>
     tip t = tip s \<and> tipH t = tipH s \<and> lowest t = lowest s \<and> opt t = opt s \<and>
     historyTop t = historyTop s"

lemma same_chain_refl [simp]: "same_chain s s"
  by (simp add: same_chain_def)

lemma same_chain_trans: "same_chain s t \<Longrightarrow> same_chain t u \<Longrightarrow> same_chain s u"
  by (simp add: same_chain_def)

lemma same_chain_entry: "same_chain s t \<Longrightarrow> entry_at t = entry_at s"
  by (simp add: same_chain_def entry_at_def fun_eq_iff)

lemma same_chain_inv: "same_chain s t \<Longrightarrow> store_inv t = store_inv s"
  by (rule store_inv_cong) (simp_all add: same_chain_entry, simp_all add: same_chain_def)

lemma same_chain_updates [simp]:
  "same_chain s (bookAnchoredLocked h s)" "same_chain s (bookCanonical h e s)"
  "same_chain s (bumpMisses s)" "same_chain s (cacheRoot h r s)"
  by (simp_all add: same_chain_def bookAnchoredLocked_def bookCanonical_def bumpMisses_def
      cacheRoot_def Let_def)

lemma same_chain_RootAt: "same_chain s (snd (RootAt fb h s))"
proof -
  have "same_chain s (bookAnchoredLocked h (cacheRoot h r s))" for r
    by (rule same_chain_trans [of s "cacheRoot h r s"]) simp_all
  then show ?thesis by (auto simp: RootAt_def split: option.splits sum.splits)
qed

lemma same_chain_HeaderForHeight: "same_chain s (snd (HeaderForHeight hs h s))"
  by (auto simp: HeaderForHeight_def split: option.splits sum.splits)

lemma same_chain_warmOne: "same_chain s (fst (warmOne fb live h (s, w)))"
  by (auto simp: warmOne_def same_chain_def split: sum.splits option.splits)

lemma same_chain_warm_run: "same_chain s (fst (warm_run fb hs (s, w)))"
proof (induction hs arbitrary: s w)
  case (Cons x hs)
  obtain h live where x: "x = (h, live)" by force
  obtain t v where t: "warmOne fb live h (s, w) = (t, v)" by force
  have "same_chain s t" using same_chain_warmOne [of s fb live h w] by (simp add: t)
  with Cons.IH [of t v] show ?case by (auto simp: x t intro: same_chain_trans)
qed simp

lemma same_chain_Warm: "same_chain s (fst (snd (Warm fb depth sent live ended s)))"
proof (cases fb)
  case (Some rootAt)
  show ?thesis
    by (simp add: Warm_def Some Let_def case_prod_beta same_chain_warm_run)
qed (simp add: Warm_def Let_def)

section \<open>The store as a transition system\<close>

datatype store_event =
    ObserveEv "header_at option" bytes
  | RootEv "root_source option" u32
  | HeaderEv "header_source option" u32
  | WarmEv "root_source option" u32 nat "u32 \<Rightarrow> bool" bool

inductive store_step :: "(bytes \<Rightarrow> bytes) \<Rightarrow> store \<Rightarrow> store_event \<Rightarrow> store \<Rightarrow> bool"
  for sha :: "bytes \<Rightarrow> bytes" where
  observe: "store_step sha s (ObserveEv lk hdr) (snd (Observe sha lk hdr s))"
| root: "store_step sha s (RootEv fb h) (snd (RootAt fb h s))"
| header: "store_step sha s (HeaderEv hs h) (snd (HeaderForHeight hs h s))"
| warm: "store_step sha s (WarmEv fb depth sent live ended)
    (fst (snd (Warm fb depth sent live ended s)))"

inductive_simps store_step_iff [simp]:
  "store_step sha s (ObserveEv lk hdr) t" "store_step sha s (RootEv fb h) t"
  "store_step sha s (HeaderEv hs h) t" "store_step sha s (WarmEv fb depth sent live ended) t"

lemma store_step_cases [consumes 1, case_names observe read]:
  assumes "store_step sha s ev t"
  obtains lk hdr ob err where "ev = ObserveEv lk hdr" "Observe sha lk hdr s = ((ob, err), t)"
  | "same_chain s t"
  using assms
proof (cases rule: store_step.cases)
  case (observe lk hdr)
  then show ?thesis
    using that(1) by (cases "Observe sha lk hdr s"; cases "fst (Observe sha lk hdr s)") auto
qed (auto intro: that(2) same_chain_RootAt same_chain_HeaderForHeight same_chain_Warm)

text \<open>
  What the chain needs of the hash: no header is its own parent. For SHA-256 applied twice this is
  the absence of a fixed point across the 32 parent bytes, which no one can exhibit.
\<close>

definition no_self_parent :: "(bytes \<Rightarrow> bytes) \<Rightarrow> bool" where
  "no_self_parent sha \<longleftrightarrow> (\<forall>hdr. length hdr = 80 \<longrightarrow> headerHash sha hdr \<noteq> hdr_prev hdr)"

lemma store_inv_Observe':
  assumes "no_self_parent sha" "store_inv s" "Observe sha lk hdr s = ((ob, err), t)"
  shows "store_inv t"
proof (cases "length hdr = 80")
  case True
  then show ?thesis using assms by (auto simp: no_self_parent_def intro: store_inv_Observe)
next
  case False
  then show ?thesis using assms by (auto simp: Observe_def)
qed

lemma store_inv_step:
  "no_self_parent sha \<Longrightarrow> store_inv s \<Longrightarrow> store_step sha s ev t \<Longrightarrow> store_inv t"
  by (erule store_step_cases) (auto simp: same_chain_inv intro: store_inv_Observe')

section \<open>Proof of work of the received headers\<close>

definition meets_work :: "options \<Rightarrow> hash \<Rightarrow> u32 \<Rightarrow> bool" where
  "meets_work o' x bits \<longleftrightarrow> (\<exists>target. compactToBig bits = Some target \<and> workValue x \<le> target \<and>
     (MinBits o' \<noteq> 0 \<longrightarrow> (\<exists>floor. compactToBig (MinBits o') = Some floor \<and> target \<le> floor)))"

lemma checkWork_meets: "checkWork o' x bits = Inr () \<longleftrightarrow> meets_work o' x bits"
  by (auto simp: checkWork_def meets_work_def bind_res_Inr_iff not_less split: option.splits)

lemma workValue_le_nat: "workValue x = le_nat x"
proof -
  have "foldl (\<lambda>acc x. 256 * acc + unat x) 0 (rev xs) = le_nat xs" for xs :: bytes
    by (induction xs) (auto simp: foldl_append)
  then show ?thesis by (simp add: workValue_def be_nat_def)
qed

text \<open>
  The headers booked as the lane's own were delivered in one of the events \<open>E\<close> and met the work
  their own bits declare.
\<close>

definition received_by_work :: "(bytes \<Rightarrow> bytes) \<Rightarrow> store_event set \<Rightarrow> store \<Rightarrow> bool" where
  "received_by_work sha E s \<longleftrightarrow> (\<forall>h x e. entry_at s h x = Some e \<and> \<not> viaAnchor e \<longrightarrow>
     (\<exists>lk hdr. ObserveEv lk hdr \<in> E \<and> length hdr = 80 \<and> headerHash sha hdr = x \<and>
        meets_work (opt s) x (hdr_bits hdr)))"

lemma opt_resolveParent [store_simps]: "resolveParent lk p s = (r, t) \<Longrightarrow> opt t = opt s"
  by (auto simp: resolveParent_def reanchorParent_def Let_def store_simps split: option.splits)

lemma opt_pruneLocked [store_simps]: "opt (pruneLocked s) = opt s"
  by (simp add: pruneLocked_def Let_def store_simps)

lemma opt_recanonLocked [store_simps]: "opt (recanonLocked x h s) = opt s"
  by (simp add: recanonLocked_def)

lemma opt_commitHeader: "commitHeader x root p ph re s = (ob, t) \<Longrightarrow> opt t = opt s"
  by (auto simp: commitHeader_def Let_def bumpObserved_def extendTip_def store_simps)

lemma opt_promote [store_simps]: "opt (promote h x s) = opt s"
  by (simp add: promote_def store_simps split: option.splits)

lemma opt_Observe: "Observe sha lk hdr s = ((ob, err), t) \<Longrightarrow> opt t = opt s"
  by (erule Observe_cases) (simp_all add: bumpObserved_def store_simps opt_commitHeader)

text \<open>Where an entry can come from in one observation.\<close>

lemma entry_pruneLocked: "entry_at (pruneLocked s) h x = Some e \<Longrightarrow> entry_at s h x = Some e"
  by (auto simp: pruneLocked_def Let_def prune_loop_entry split: if_splits)

lemma entry_recanonLocked [simp]: "entry_at (recanonLocked x h s) = entry_at s"
  by (simp add: recanonLocked_def)

lemma entry_bumpObserved [simp]: "entry_at (bumpObserved s) = entry_at s"
  by (simp add: bumpObserved_def)

lemma entry_promote:
  "entry_at (promote h x s) h' y = Some e \<Longrightarrow>
   entry_at s h' y = Some e \<or> (h' = h \<and> y = x \<and> \<not> viaAnchor e \<and>
     (\<exists>e0. entry_at s h x = Some e0 \<and> viaAnchor e0 \<and> e = e0\<lparr>viaAnchor := False\<rparr>))"
  by (auto simp: promote_def split: option.splits if_splits)

lemma entry_resolveParent:
  "resolveParent lk p s = (r, t) \<Longrightarrow> entry_at t h x = Some e \<Longrightarrow>
   entry_at s h x = Some e \<or> (x = p \<and> byHash s p = None \<and> viaAnchor e \<and> e_prev e = zero_hash \<and>
     (\<exists>headerAt. lk = Some headerAt \<and> headerAt p = Some (h, e_root e)))"
  by (auto simp: resolveParent_def reanchorParent_def Let_def split: option.splits if_splits)

lemma entry_commitHeader:
  "commitHeader x root p ph re s = (ob, t) \<Longrightarrow> entry_at t h y = Some e \<Longrightarrow>
   entry_at s h y = Some e \<or>
   (y = x \<and> h = ph + 1 \<and> e = \<lparr>e_root = root, e_prev = p, viaAnchor = False\<rparr>)"
  by (auto simp: commitHeader_def Let_def extendTip_def dest!: entry_pruneLocked split: if_splits)

lemma received_by_work_Observe:
  assumes inv: "received_by_work sha E s" and o: "Observe sha lk hdr s = ((ob, err), t)"
    and E: "ObserveEv lk hdr \<in> E"
  shows "received_by_work sha E t"
  unfolding received_by_work_def
proof (intro allI impI)
  fix h x e
  assume e: "entry_at t h x = Some e \<and> \<not> viaAnchor e"
  have opt: "opt t = opt s" using o by (rule opt_Observe)
  from o have "(entry_at s h x = Some e) \<or>
      (x = headerHash sha hdr \<and> length hdr = 80 \<and> checkWork (opt s) x (hdr_bits hdr) = Inr ())"
  proof (cases rule: Observe_cases)
    case (held h')
    then show ?thesis using e entry_promote by fastforce
  next
    case (orphan s')
    then show ?thesis using e entry_resolveParent [OF orphan(7)] by fastforce
  next
    case (chained ph re s')
    then show ?thesis
      using e entry_commitHeader [OF chained(6)] entry_resolveParent [OF chained(5)] by blast
  qed (use e in auto)
  then show "\<exists>lk hdr. ObserveEv lk hdr \<in> E \<and> length hdr = 80 \<and> headerHash sha hdr = x \<and>
      meets_work (opt t) x (hdr_bits hdr)"
    using inv e opt E unfolding received_by_work_def checkWork_meets by metis
qed


lemma same_chain_received: "same_chain s t \<Longrightarrow> received_by_work sha E t = received_by_work sha E s"
  by (simp add: received_by_work_def same_chain_entry) (simp add: same_chain_def)

section \<open>The bounded cache of fallback roots\<close>

definition cache_inv :: "store \<Rightarrow> bool" where
  "cache_inv s \<longleftrightarrow> length (fallbackRoots s) \<le> fallbackCap \<and> distinct (map fst (fallbackRoots s))"

lemma length_update: "length (AList.update k v xs) \<le> Suc (length xs)"
  by (induction xs) auto

lemma cache_inv_cong: "fallbackRoots t = fallbackRoots s \<Longrightarrow> cache_inv t = cache_inv s"
  by (simp add: cache_inv_def)

lemma cache_inv_insert:
  "cache_inv s \<Longrightarrow> length xs < fallbackCap \<Longrightarrow> xs = fallbackRoots s \<or> xs = [] \<Longrightarrow>
   cache_inv (s\<lparr>fallbackRoots := AList.update h r xs\<rparr>)"
  using length_update [of h r xs] by (auto simp: cache_inv_def distinct_update)

lemma cache_inv_cacheRoot: "cache_inv s \<Longrightarrow> cache_inv (cacheRoot h r s)"
  by (auto simp: cacheRoot_def Let_def intro: cache_inv_insert) (simp add: cache_inv_def fallbackCap_def)

lemma cache_fields:
  "fallbackRoots (bookAnchoredLocked h s) = fallbackRoots s"
  "fallbackRoots (bookCanonical h e s) = fallbackRoots s"
  "fallbackRoots (bumpMisses s) = fallbackRoots s"
  by (simp_all add: bookAnchoredLocked_def bookCanonical_def bumpMisses_def)

lemma cache_inv_RootAt: "cache_inv s \<Longrightarrow> cache_inv (snd (RootAt fb h s))"
  by (auto simp: RootAt_def cache_inv_cong [OF cache_fields(1)] cache_inv_cong [OF cache_fields(2)]
      cache_inv_cong [OF cache_fields(3)] cache_inv_cacheRoot split: option.splits sum.splits)

lemma cache_inv_warm_run: "cache_inv s \<Longrightarrow> cache_inv (fst (warm_run fb hs (s, w)))"
proof (induction hs arbitrary: s w)
  case (Cons x hs)
  obtain h live where x: "x = (h, live)" by force
  obtain t v where t: "warmOne fb live h (s, w) = (t, v)" by force
  have "cache_inv t"
    using t Cons.prems by (auto simp: warmOne_def intro: cache_inv_insert
        split: if_splits sum.splits option.splits)
  then show ?case using Cons.IH by (simp add: x t)
qed simp

lemma cache_inv_Warm: "cache_inv s \<Longrightarrow> cache_inv (fst (snd (Warm fb depth sent live ended s)))"
  by (cases fb) (simp_all add: Warm_def Let_def case_prod_beta cache_inv_warm_run)

lemma cache_pruneLocked [store_simps]: "fallbackRoots (pruneLocked s) = fallbackRoots s"
  by (simp add: pruneLocked_def Let_def store_simps)

lemma cache_promote [store_simps]: "fallbackRoots (promote h x s) = fallbackRoots s"
  by (simp add: promote_def store_simps split: option.splits)

lemma cache_resolveParent [store_simps]:
  "resolveParent lk p s = (r, t) \<Longrightarrow> fallbackRoots t = fallbackRoots s"
  by (auto simp: resolveParent_def reanchorParent_def Let_def store_simps split: option.splits)

lemma cache_commitHeader: "commitHeader x root p ph re s = (ob, t) \<Longrightarrow> fallbackRoots t = fallbackRoots s"
  by (auto simp: commitHeader_def Let_def bumpObserved_def extendTip_def recanonLocked_def store_simps)

lemma cache_Observe: "Observe sha lk hdr s = ((ob, err), t) \<Longrightarrow> fallbackRoots t = fallbackRoots s"
  by (erule Observe_cases) (simp_all add: bumpObserved_def store_simps cache_commitHeader)

lemma cache_inv_HeaderForHeight: "cache_inv s \<Longrightarrow> cache_inv (snd (HeaderForHeight hs h s))"
  by (auto simp: HeaderForHeight_def cache_fields cache_inv_def split: option.splits sum.splits)

lemma cache_inv_step:
  assumes "store_step sha s ev t" "cache_inv s"
  shows "cache_inv t"
  using assms(1)
proof (cases rule: store_step.cases)
  case (observe lk hdr)
  obtain ob err where "Observe sha lk hdr s = ((ob, err), t)"
    using observe by (metis prod.collapse)
  then show ?thesis using assms(2) cache_inv_cong [OF cache_Observe] by blast
qed (use assms(2) in \<open>auto intro: cache_inv_RootAt cache_inv_HeaderForHeight cache_inv_Warm\<close>)

section \<open>Every reachable store\<close>

definition started :: "options \<Rightarrow> store \<Rightarrow> bool" where
  "started o' s \<longleftrightarrow> New o' = Inr s"

interpretation index: transition_system "started o'" "store_step sha"
  "\<lambda>s. no_self_parent sha \<longrightarrow> store_inv s" for o' sha
  by unfold_locales (auto simp: started_def intro: store_inv_New store_inv_step)

interpretation work: transition_system "started o'" "\<lambda>s e t. store_step sha s e t \<and> e \<in> E"
  "received_by_work sha E" for o' sha E
proof unfold_locales
  show "received_by_work sha E s" if "started o' s" for s
    using that by (auto simp: started_def New_def received_by_work_def entry_at_def split: if_splits)
  show "received_by_work sha E t" if r: "received_by_work sha E s" and "store_step sha s ev t \<and> ev \<in> E" for s ev t
  proof -
    have "store_step sha s ev t" "ev \<in> E" using that by auto
    then show ?thesis
      using r by (cases rule: store_step_cases) (auto intro: received_by_work_Observe simp: same_chain_received)
  qed
qed

interpretation cache: transition_system "started o'" "store_step sha" cache_inv for o' sha
proof unfold_locales
  show "cache_inv s" if "started o' s" for s
    using that by (auto simp: started_def New_def cache_inv_def split: if_splits)
qed (rule cache_inv_step)

interpretation options: transition_system "started o'" "store_step sha" "\<lambda>s. opt s = o'" for o' sha
proof unfold_locales
  show "opt t = o'" if "opt s = o'" "store_step sha s ev t" for s ev t
    using that(2,1) by (cases rule: store_step_cases) (auto simp: opt_Observe same_chain_def)
qed (auto simp: started_def New_def split: if_splits)

end
