(* ===== verification/Header_Chain.thy ===== *)
theory Header_Chain
  imports Header_Reads
begin

text \<open>
  The chain the store builds: heights never exceed the tip, the tip only rises, the canonical map
  is linked by parent hashes when nothing is pruned, the retention window bounds what is held, and
  the roots served as the lane's own are the roots of headers that met the proof-of-work floor.
\<close>

section \<open>No height is above the tip\<close>

text \<open>
  Heights are 32-bit. The facts below leave out the last one: neither the tip nor an answer of the
  anchor is \<open>2^32 - 1\<close>, so a child's height never wraps to zero.
\<close>

fun below_max :: "store \<Rightarrow> store_event \<Rightarrow> bool" where
  "below_max s (ObserveEv lk hdr) \<longleftrightarrow> tipH s \<noteq> - 1 \<and>
     (\<forall>headerAt p h r. lk = Some headerAt \<and> headerAt p = Some (h, r) \<longrightarrow> h \<noteq> - 1)"
| "below_max s _ \<longleftrightarrow> True"

definition chain_step :: "(bytes \<Rightarrow> bytes) \<Rightarrow> store \<Rightarrow> store_event \<Rightarrow> store \<Rightarrow> bool" where
  "chain_step sha s ev t \<longleftrightarrow> store_step sha s ev t \<and> below_max s ev"

definition tip_top :: "store \<Rightarrow> bool" where
  "tip_top s \<longleftrightarrow> (\<forall>x h. byHash s x = Some h \<longrightarrow> h \<le> tipH s)"

lemma less_plus_one: "h \<noteq> - 1 \<Longrightarrow> h < h + 1" for h :: "'a::len word"
  by (simp add: word_less_nat_alt unat_plus_one)

lemma less_plus_one_le: "h < k \<Longrightarrow> h + 1 \<le> k" for h :: "'a::len word"
  by (simp add: word_less_nat_alt word_le_nat_alt unat_plus_one_less)

text \<open>The height a header is chained at, and whether it moves the tip.\<close>

lemma resolveParent_fields [store_simps]:
  "resolveParent lk p s = (r, t) \<Longrightarrow> tip t = tip s" "resolveParent lk p s = (r, t) \<Longrightarrow> tipH t = tipH s"
  "resolveParent lk p s = (r, t) \<Longrightarrow> canon t = canon s"
  "resolveParent lk p s = (r, t) \<Longrightarrow> historyTop t = historyTop s"
  by (auto simp: resolveParent_def reanchorParent_def Let_def store_simps split: option.splits)

lemma resolveParent_byHash:
  assumes "resolveParent lk p s = (Some (ph, re), t)"
  shows "byHash t = (byHash s)(p \<mapsto> ph)"
    and "byHash s p = Some ph \<or> (byHash s p = None \<and> (\<exists>f r. lk = Some f \<and> f p = Some (ph, r)))"
  using assms
  by (auto simp: resolveParent_def reanchorParent_def Let_def store_simps fun_upd_idem
      split: option.splits)

lemma resolveParent_orphan: "resolveParent lk p s = (None, t) \<Longrightarrow> t = s"
  by (auto simp: resolveParent_def reanchorParent_def Let_def split: option.splits prod.splits)

lemma pruneLocked_fields [store_simps]:
  "tip (pruneLocked s) = tip s" "tipH (pruneLocked s) = tipH s"
  by (simp_all add: pruneLocked_def Let_def store_simps)

lemma pruneLocked_byHash: "byHash (pruneLocked s) x = Some h \<Longrightarrow> byHash s x = Some h"
  by (auto simp: pruneLocked_def Let_def prune_loop_byHash split: if_splits)

lemma commitHeader_tip:
  assumes "commitHeader x root p ph re s = (ob, t)"
  shows "Tip ob \<longleftrightarrow> p = tip s \<or> ph + 1 > tipH s"
    and "Tip ob \<Longrightarrow> tip t = x \<and> tipH t = ph + 1"
    and "\<not> Tip ob \<Longrightarrow> tip t = tip s \<and> tipH t = tipH s"
    and "o_Height ob = ph + 1" and "Chained ob"
    and "byHash t y = Some h \<Longrightarrow> ((byHash s)(x \<mapsto> ph + 1)) y = Some h"
  using assms
  by (auto simp: commitHeader_def Let_def bumpObserved_def extendTip_def recanonLocked_def store_simps
      dest!: pruneLocked_byHash split: if_splits)

text \<open>A chained header in full: its parent's height is real, and it moves the tip iff it is higher.\<close>

lemma chained_height:
  assumes inv: "store_inv s" and top: "tip_top s" and low: "below_max s (ObserveEv lk hdr)"
    and r: "resolveParent lk p s = (Some (ph, re), s')" and c: "commitHeader x root p ph re s' = (ob, t)"
  shows "ph \<noteq> - 1" and "Tip ob \<longleftrightarrow> tipH s < ph + 1" and "tipH t = max (tipH s) (ph + 1)"
proof -
  have known: "ph \<le> tipH s" if "byHash s p = Some ph" using that top by (auto simp: tip_top_def)
  then show ph: "ph \<noteq> - 1"
    using resolveParent_byHash(2) [OF r] low by (auto dest: word_order.extremum_uniqueI)
  have s': "tip s' = tip s" "tipH s' = tipH s" using r by (simp_all add: store_simps)
  have "ph = tipH s" if "p = tip s"
    using that resolveParent_byHash(2) [OF r] store_invD(5) [OF inv] by auto
  then show tip: "Tip ob \<longleftrightarrow> tipH s < ph + 1"
    using commitHeader_tip(1) [OF c] s' less_plus_one [OF ph] by auto
  show "tipH t = max (tipH s) (ph + 1)"
    using commitHeader_tip(2,3) [OF c] tip s' by (cases "Tip ob") (auto simp: max_def)
qed

lemma Observe_tip:
  assumes inv: "store_inv s" and top: "tip_top s" and low: "below_max s (ObserveEv lk hdr)"
    and o: "Observe sha lk hdr s = ((ob, err), t)"
  shows "tip_top t" and "tipH s \<le> tipH t" and "Tip ob \<Longrightarrow> tipH s < tipH t \<and> o_Height ob = tipH t"
    and "\<not> Tip ob \<Longrightarrow> tipH t = tipH s \<and> tip t = tip s"
proof -
  have "tip_top t \<and> tipH s \<le> tipH t \<and> (Tip ob \<longrightarrow> tipH s < tipH t \<and> o_Height ob = tipH t) \<and>
      (\<not> Tip ob \<longrightarrow> tipH t = tipH s \<and> tip t = tip s)"
    using o
  proof (cases rule: Observe_cases)
    case (chained ph re s')
    note h = chained_height [OF inv top low chained(5,6)]
    have "tip_top t"
      unfolding tip_top_def
    proof (intro allI impI)
      fix y k assume k: "byHash t y = Some k"
      have "k = ph + 1 \<or> k = ph \<or> byHash s y = Some k"
        using commitHeader_tip(6) [OF chained(6) k] resolveParent_byHash(1) [OF chained(5)]
        by (auto split: if_splits)
      moreover have "ph \<le> ph + 1" using less_plus_one [OF h(1)] by simp
      ultimately show "k \<le> tipH t" using h(3) top by (auto simp: tip_top_def le_max_iff_disj)
    qed
    then show ?thesis
      using h commitHeader_tip(3,4) [OF chained(6)] chained(5) by (auto simp: store_simps)
  qed (use top in \<open>auto simp: tip_top_def bumpObserved_def promote_def store_simps
        dest!: resolveParent_orphan split: option.splits\<close>)
  then show "tip_top t" "tipH s \<le> tipH t" "Tip ob \<Longrightarrow> tipH s < tipH t \<and> o_Height ob = tipH t"
    "\<not> Tip ob \<Longrightarrow> tipH t = tipH s \<and> tip t = tip s" by auto
qed


section \<open>The canonical map is a hash-linked chain\<close>

definition link_at :: "store \<Rightarrow> (u32 \<rightharpoonup> hash) \<Rightarrow> u32 \<Rightarrow> bool" where
  "link_at s cn h \<longleftrightarrow> (\<forall>x e. cn h = Some x \<and> entry_at s h x = Some e \<and> e_prev e \<noteq> zero_hash \<longrightarrow>
     cn (h - 1) = Some (e_prev e))"

text \<open>Every header with a parent link sits one height above a header the index still knows.\<close>

definition parents_known :: "store \<Rightarrow> bool" where
  "parents_known s \<longleftrightarrow> (\<forall>h x e. entry_at s h x = Some e \<and> e_prev e \<noteq> zero_hash \<longrightarrow>
     h \<noteq> 0 \<and> byHash s (e_prev e) = Some (h - 1))"

lemma canon_parent_entry:
  "canon_parent (byHash s) (at_height s) x h = (case entry_at s h x of
      None \<Rightarrow> None
    | Some e \<Rightarrow> if e_prev e \<noteq> zero_hash \<and> h \<noteq> 0 \<and> byHash s (e_prev e) = Some (h - 1)
                then Some (e_prev e) else None)"
  by (simp add: canon_parent_def entry_at_def split: option.splits)

lemma minus_one_less: "h \<noteq> 0 \<Longrightarrow> h - 1 < h" for h :: "'a::len word"
  by (simp add: word_less_nat_alt unat_minus_one_less)

lemma le_minus_one: "h \<noteq> 0 \<Longrightarrow> k \<le> h - 1 \<longleftrightarrow> k < h" for h :: "'a::len word"
proof -
  assume "h \<noteq> 0"
  then have "unat (h - 1) = unat h - 1" "0 < unat h" by (simp_all add: unat_minus_one unat_gt_0)
  then show ?thesis by (auto simp: word_le_nat_alt word_less_nat_alt)
qed

lemma link_at_update:
  assumes "parents_known s" "link_at s cn k" "k < h"
  shows "link_at s (cn(h \<mapsto> x)) k"
proof -
  have "k - 1 \<noteq> h" if "entry_at s k y = Some e" "e_prev e \<noteq> zero_hash" for y e
    using that assms(1,3) minus_one_less [of k] by (auto simp: parents_known_def dest: order.strict_trans)
  with assms show ?thesis by (auto simp: link_at_def)
qed

definition linked_from :: "store \<Rightarrow> hash \<Rightarrow> u32 \<Rightarrow> (u32 \<rightharpoonup> hash) \<Rightarrow> (u32 \<rightharpoonup> hash) \<Rightarrow> bool" where
  "linked_from s x h cn r \<longleftrightarrow>
     (\<forall>k. k \<le> h \<longrightarrow> link_at s r k) \<and> r h = Some x \<and> (\<forall>k. h < k \<longrightarrow> r k = cn k)"

lemma recanon_linked:
  assumes "parents_known s"
  shows "(\<forall>k. k < h \<longrightarrow> link_at s cn k) \<Longrightarrow> (cn h = Some x \<longrightarrow> link_at s cn h) \<Longrightarrow>
    linked_from s x h cn (recanon (byHash s) (at_height s) x h cn)"
proof (induction x h cn rule: recanon_induct [where bh = "byHash s" and ah = "at_height s"])
  case (agree cn x h)
  then show ?case by (auto simp: linked_from_def le_less)
next
  case (stop cn x h)
  have "link_at s (cn(h \<mapsto> x)) h"
    using stop(2) assms by (auto simp: link_at_def parents_known_def canon_parent_entry split: option.splits)
  moreover have "link_at s (cn(h \<mapsto> x)) k" if "k < h" for k
    using that stop(3) assms by (blast intro: link_at_update)
  ultimately have "\<forall>k. k \<le> h \<longrightarrow> link_at s (cn(h \<mapsto> x)) k" by (metis le_less)
  then show ?case unfolding linked_from_def by simp
next
  case (walk cn x h p r)
  have p: "h \<noteq> 0" "\<And>e. entry_at s h x = Some e \<Longrightarrow> e_prev e = p"
    using walk(2) by (auto simp: canon_parent_entry split: option.splits if_splits)
  note less = minus_one_less [OF p(1)]
  have below: "link_at s (cn(h \<mapsto> x)) k" if "k < h" for k
    using that walk(4) assms by (blast intro: link_at_update)
  have "linked_from s p (h - 1) (cn(h \<mapsto> x)) r"
    using walk(3) below less by (blast intro: order.strict_trans)
  then have r: "\<forall>k. k < h \<longrightarrow> link_at s r k" "r (h - 1) = Some p"
    "\<forall>k. h - 1 < k \<longrightarrow> r k = (cn(h \<mapsto> x)) k"
    by (simp_all add: linked_from_def le_minus_one [OF p(1)])
  then have "r h = Some x" using less by simp
  moreover have "link_at s r h" using r(2) p(2) \<open>r h = Some x\<close> by (auto simp: link_at_def)
  moreover have "r k = cn k" if "h < k" for k using r(3) that less by auto
  ultimately show ?case using r(1) unfolding linked_from_def by (metis le_less)
qed

definition linked :: "store \<Rightarrow> bool" where
  "linked s \<longleftrightarrow> parents_known s \<and> (\<forall>h. link_at s (canon s) h)"

lemma linked_cong:
  assumes "byHash t = byHash s" "canon t = canon s"
    "\<And>h x e. entry_at t h x = Some e \<Longrightarrow> \<exists>e'. entry_at s h x = Some e' \<and> e_prev e' = e_prev e"
  shows "linked s \<Longrightarrow> linked t"
  unfolding linked_def parents_known_def link_at_def using assms by (metis (no_types))

text \<open>A header the index did not know cannot disturb a link.\<close>

lemma linked_fresh:
  assumes l: "linked s" and inv: "store_inv s" and x: "byHash s x = None"
    and t: "byHash t = (byHash s)(x \<mapsto> h)" "canon t = canon s"
      "\<And>k y e'. entry_at t k y = Some e' \<Longrightarrow> entry_at s k y = Some e' \<or> (k = h \<and> y = x \<and> e' = e)"
    and e: "e_prev e = zero_hash \<or> (h \<noteq> 0 \<and> byHash s (e_prev e) = Some (h - 1))"
  shows "linked t"
proof -
  have "canon s k \<noteq> Some x" for k using store_invD(4) [OF inv] x by force
  then have links: "link_at t (canon t) k" for k
    using l t(3) by (fastforce simp: linked_def link_at_def t(2))
  have "k \<noteq> 0 \<and> byHash t (e_prev e') = Some (k - 1)"
    if e': "entry_at t k y = Some e'" "e_prev e' \<noteq> zero_hash" for k y e'
  proof -
    have "k \<noteq> 0 \<and> byHash s (e_prev e') = Some (k - 1)"
      using t(3) [OF e'(1)] e'(2) l e by (auto simp: linked_def parents_known_def)
    with x show ?thesis by (auto simp: t(1))
  qed
  with links show ?thesis by (auto simp: linked_def parents_known_def)
qed

lemma linked_extendTip:
  assumes l: "linked s" and inv: "store_inv s" and w: "Window (opt s) = 0"
    and top: "\<And>y k. byHash s y = Some k \<Longrightarrow> y \<noteq> x \<Longrightarrow> k < h" and x: "byHash s x = Some h"
    and new: "\<And>k. canon s k \<noteq> Some x"
  shows "linked (extendTip x h s)"
proof -
  let ?r = "recanon (byHash s) (at_height s) x h (canon s)"
  have f: "linked_from s x h (canon s) ?r"
    using l new by (intro recanon_linked) (auto simp: linked_def)
  have none: "canon s k = None" if "h \<le> k" for k
    using that new top store_invD(4) [OF inv, of k] by (metis leD option.exhaust)
  have r: "link_at s ?r k" for k
  proof (cases "k \<le> h")
    case True
    then show ?thesis using f by (simp add: linked_from_def)
  next
    case False
    then have "?r k = None" using f none [of k] by (simp add: linked_from_def)
    then show ?thesis by (simp add: link_at_def)
  qed
  have e: "extendTip x h s = s\<lparr>tip := x, tipH := h, canon := ?r\<rparr>"
    using w by (simp add: extendTip_def pruneLocked_def recanonLocked_def)
  let ?t = "s\<lparr>tip := x, tipH := h, canon := ?r\<rparr>"
  have ent: "entry_at ?t = entry_at s" by (simp add: entry_at_def fun_eq_iff)
  have "parents_known ?t" using l by (auto simp: linked_def parents_known_def ent)
  moreover have "link_at ?t cn k \<longleftrightarrow> link_at s cn k" for cn k by (simp add: link_at_def ent)
  ultimately show ?thesis using r unfolding e linked_def by (auto intro: r)
qed


lemma linked_resolveParent:
  assumes l: "linked s" and inv: "store_inv s" and r: "resolveParent lk p s = (q, t)"
  shows "linked t"
proof (cases "t = s")
  case False
  then obtain ph re where q: "q = Some (ph, re)" using resolveParent_orphan r by (cases q) auto
  have p: "byHash s p = None"
    using r False by (auto simp: resolveParent_def split: option.splits)
  obtain root n where t: "t = putLocked ph p \<lparr>e_root = root, e_prev = zero_hash, viaAnchor = True\<rparr>
        (s\<lparr>byHash := (byHash s)(p \<mapsto> ph)\<rparr>) \<lparr>reanchored := n\<rparr>"
  proof -
    obtain f root where f: "lk = Some f" "f p = Some (ph, root)"
      using r q p by (auto simp: resolveParent_def reanchorParent_def Let_def split: option.splits)
    show thesis
      by (rule that) (use r p f in \<open>auto simp: resolveParent_def reanchorParent_def Let_def\<close>)
  qed
  have e: "entry_at s k y = Some e' \<or> (k = ph \<and> y = p \<and>
      e' = \<lparr>e_root = root, e_prev = zero_hash, viaAnchor = True\<rparr>)" if "entry_at t k y = Some e'" for k y e'
    using that unfolding t by (auto split: if_splits)
  show ?thesis
    using resolveParent_byHash(1) [OF r [unfolded q]] resolveParent_fields(3) [OF r] e
    by (intro linked_fresh [OF l inv p]) (auto split: if_splits)
qed (use l in simp)

lemma linked_Observe:
  assumes l: "linked s" and inv: "store_inv s" and top: "tip_top s" and w: "Window (opt s) = 0"
    and fresh: "no_self_parent sha" and low: "below_max s (ObserveEv lk hdr)"
    and o: "Observe sha lk hdr s = ((ob, err), t)"
  shows "linked t"
  using o
proof (cases rule: Observe_cases)
  case (held h)
  show ?thesis
    using l unfolding held by (rule linked_cong [rotated 3])
      (auto simp: bumpObserved_def promote_def store_simps split: option.splits if_splits)
next
  case (orphan s')
  then have "t = bumpObserved (s\<lparr>orphaned := orphaned s + 1\<rparr>)" by (auto dest: resolveParent_orphan)
  then show ?thesis
    using l by (intro linked_cong [of t s]) (simp_all add: bumpObserved_def entry_at_def)
next
  case (chained ph re s')
  let ?x = "headerHash sha hdr" and ?p = "hdr_prev hdr"
  let ?s2 = "recordHeader ?x (hdr_root hdr) ?p (ph + 1) s'"
  have px: "?x \<noteq> ?p" using fresh chained(1) by (simp add: no_self_parent_def)
  note h = chained_height [OF inv top low chained(5,6)]
  have s': "linked s'" "store_inv s'" "byHash s' ?x = None" "byHash s' ?p = Some ph" "opt s' = opt s"
    using linked_resolveParent [OF l inv chained(5)] store_inv_resolveParent [OF inv chained(5)]
      resolveParent_other [OF chained(5) px] chained(4) resolveParent_known [OF chained(5)]
      opt_resolveParent [OF chained(5)] by simp_all
  have nz: "ph + 1 \<noteq> 0" using h(1) by (metis add_diff_cancel_right' diff_0)
  have l2: "linked ?s2"
    using s'(4) nz by (intro linked_fresh [OF s'(1-3)]) (auto simp: store_simps split: if_splits)
  have inv2: "store_inv ?s2" using s'(2,3) by (rule store_inv_recordHeader)
  have "linked (extendTip ?x (ph + 1) ?s2)" if wins: "tipH s < ph + 1"
  proof (rule linked_extendTip [OF l2 inv2])
    show "Window (opt ?s2) = 0" using w s'(5) by (simp add: store_simps)
    show "k < ph + 1" if "byHash ?s2 y = Some k" "y \<noteq> ?x" for y k
      using that wins top less_plus_one [OF h(1)] resolveParent_byHash(1) [OF chained(5)]
      by (auto simp: store_simps tip_top_def split: if_splits dest!: spec [of _ y])
    show "canon ?s2 k \<noteq> Some ?x" for k
      using store_invD(4) [OF s'(2), of k ?x] s'(3) by (auto simp: store_simps)
  qed (simp add: store_simps)
  moreover have "t = bumpObserved (if tipH s < ph + 1 then extendTip ?x (ph + 1) ?s2 else ?s2)"
    using chained(6) h(2) by (auto simp: commitHeader_def Let_def split: if_splits)
  moreover define u where "u = (if tipH s < ph + 1 then extendTip ?x (ph + 1) ?s2 else ?s2)"
  ultimately have "linked u" "t = bumpObserved u" using l2 by simp_all
  then show ?thesis by (intro linked_cong [of t u]) (simp_all add: bumpObserved_def entry_at_def)
qed (use l in \<open>auto simp: linked_def parents_known_def link_at_def entry_at_def\<close>)

end
