(* ===== verification/Header_Props.thy ===== *)
theory Header_Props
  imports Header_Chain
begin

text \<open>
  What the header store promises its readers, over every run of its operations, with the concrete
  run the witnesses use: an anchor at height 100 and headers whose 32-byte parent and root are
  chosen, under a hash function that is easy to evaluate.
\<close>

section \<open>The roots of a run\<close>

text \<open>
  In the events of a run, two headers with one hash have one root, and whatever the anchor answers
  for a hash the lane also delivers is that header's own root.
\<close>

definition honest_events :: "(bytes \<Rightarrow> bytes) \<Rightarrow> store_event set \<Rightarrow> bool" where
  "honest_events sha E \<longleftrightarrow> (\<forall>lk hdr. ObserveEv lk hdr \<in> E \<and> length hdr = 80 \<longrightarrow>
     (\<forall>lk' hdr'. ObserveEv lk' hdr' \<in> E \<longrightarrow>
        (length hdr' = 80 \<and> headerHash sha hdr' = headerHash sha hdr \<longrightarrow> hdr_root hdr' = hdr_root hdr) \<and>
        (\<forall>f h r. lk' = Some f \<and> f (headerHash sha hdr) = Some (h, r) \<longrightarrow> r = hdr_root hdr)))"

definition true_roots :: "(bytes \<Rightarrow> bytes) \<Rightarrow> store_event set \<Rightarrow> store \<Rightarrow> bool" where
  "true_roots sha E s \<longleftrightarrow> (\<forall>h x e. entry_at s h x = Some e \<longrightarrow>
     (if viaAnchor e then \<exists>f hdr k. ObserveEv (Some f) hdr \<in> E \<and> f x = Some (k, e_root e)
      else \<exists>lk hdr. ObserveEv lk hdr \<in> E \<and> length hdr = 80 \<and> headerHash sha hdr = x \<and>
        e_root e = hdr_root hdr))"

lemma true_rootsD:
  assumes "true_roots sha E s" "entry_at s h x = Some e"
  shows "viaAnchor e \<Longrightarrow> \<exists>f hdr k. ObserveEv (Some f) hdr \<in> E \<and> f x = Some (k, e_root e)"
    and "\<not> viaAnchor e \<Longrightarrow> \<exists>lk hdr. ObserveEv lk hdr \<in> E \<and> length hdr = 80 \<and>
      headerHash sha hdr = x \<and> e_root e = hdr_root hdr"
  using assms unfolding true_roots_def by (metis (no_types, lifting))+

lemma true_roots_Observe:
  assumes inv: "true_roots sha E s" and o: "Observe sha lk hdr s = ((ob, err), t)"
    and E: "ObserveEv lk hdr \<in> E" and honest: "honest_events sha E"
  shows "true_roots sha E t"
  unfolding true_roots_def
proof (intro allI impI)
  fix h x e assume e: "entry_at t h x = Some e"
  let ?lane = "\<exists>lk hdr. ObserveEv lk hdr \<in> E \<and> length hdr = 80 \<and> headerHash sha hdr = x \<and>
      e_root e = hdr_root hdr"
  have anchor_right: "e_root e0 = hdr_root hdr"
    if "length hdr = 80" "entry_at s k (headerHash sha hdr) = Some e0" "viaAnchor e0" for e0 k
    using true_rootsD(1) [OF inv that(2,3)] honest E that(1) unfolding honest_events_def by blast
  have "entry_at s h x = Some e \<or> (viaAnchor e \<and> (\<exists>f k. lk = Some f \<and> f x = Some (k, e_root e))) \<or>
      (\<not> viaAnchor e \<and> length hdr = 80 \<and> headerHash sha hdr = x \<and> e_root e = hdr_root hdr)"
    using o
  proof (cases rule: Observe_cases)
    case (held k)
    then have "entry_at (promote k (headerHash sha hdr) s) h x = Some e" using e by simp
    from entry_promote [OF this] show ?thesis using held(1) anchor_right by fastforce
  next
    case (orphan s')
    then show ?thesis using e by (auto dest: resolveParent_orphan)
  next
    case (chained ph re s')
    then show ?thesis
      using entry_commitHeader [OF chained(6) e] entry_resolveParent [OF chained(5), of h x e] by auto
  qed (use e in simp_all)
  then show "if viaAnchor e then \<exists>f hdr k. ObserveEv (Some f) hdr \<in> E \<and> f x = Some (k, e_root e) else ?lane"
    using E true_rootsD [OF inv, of h x e] by (cases "viaAnchor e") (simp; blast)+
qed

interpretation roots: transition_system "started o'" "\<lambda>s e t. store_step sha s e t \<and> e \<in> E"
  "\<lambda>s. honest_events sha E \<longrightarrow> true_roots sha E s" for o' sha E
proof unfold_locales
  show "honest_events sha E \<longrightarrow> true_roots sha E s" if "started o' s" for s
    using that by (auto simp: started_def New_def true_roots_def entry_at_def split: if_splits)
  show "honest_events sha E \<longrightarrow> true_roots sha E t"
    if r: "honest_events sha E \<longrightarrow> true_roots sha E s" and "store_step sha s ev t \<and> ev \<in> E" for s ev t
  proof -
    have "store_step sha s ev t" "ev \<in> E" using that by auto
    then show ?thesis
    proof (cases rule: store_step_cases)
      case (observe lk hdr ob err)
      then show ?thesis using r \<open>ev \<in> E\<close> true_roots_Observe by blast
    next
      case read
      then show ?thesis using r by (simp add: true_roots_def same_chain_entry)
    qed
  qed
qed

section \<open>Chains of a run\<close>

definition chain_ok :: "store \<Rightarrow> bool" where
  "chain_ok s \<longleftrightarrow> store_inv s \<and> tip_top s \<and> (Window (opt s) = 0 \<longrightarrow> linked s)"

lemma chain_ok_New: "New o' = Inr s \<Longrightarrow> chain_ok s"
  by (auto simp: chain_ok_def store_inv_New New_def tip_top_def linked_def parents_known_def
      link_at_def entry_at_def split: if_splits)

lemma same_chain_ok: "same_chain s t \<Longrightarrow> chain_ok t = chain_ok s"
  by (simp add: chain_ok_def same_chain_inv linked_def parents_known_def link_at_def tip_top_def
      same_chain_entry) (simp add: same_chain_def)

lemma chain_ok_Observe:
  assumes "no_self_parent sha" "chain_ok s" "below_max s (ObserveEv lk hdr)"
    "Observe sha lk hdr s = ((ob, err), t)"
  shows "chain_ok t"
  using assms opt_Observe [OF assms(4)]
  by (auto simp: chain_ok_def intro: store_inv_Observe' Observe_tip(1) linked_Observe)

interpretation chain: transition_system "started o'" "chain_step sha"
  "\<lambda>s. no_self_parent sha \<longrightarrow> chain_ok s" for o' sha
proof unfold_locales
  show "no_self_parent sha \<longrightarrow> chain_ok t"
    if "no_self_parent sha \<longrightarrow> chain_ok s" "chain_step sha s ev t" for s ev t
  proof -
    have "store_step sha s ev t" "below_max s ev" using that(2) by (auto simp: chain_step_def)
    then show ?thesis
      using that(1) by (cases rule: store_step_cases) (auto intro: chain_ok_Observe simp: same_chain_ok)
  qed
qed (auto simp: started_def intro: chain_ok_New)

lemma chain_step_tip:
  "no_self_parent sha \<Longrightarrow> chain_ok s \<Longrightarrow> chain_step sha s ev t \<Longrightarrow> tipH s \<le> tipH t"
  unfolding chain_step_def
  by (elim conjE store_step_cases) (auto simp: chain_ok_def same_chain_def dest: Observe_tip(2))

lemma chain_run_tip:
  "run (chain_step sha) s es t \<Longrightarrow> no_self_parent sha \<Longrightarrow> chain_ok s \<Longrightarrow> tipH s \<le> tipH t"
proof (induction rule: run.induct)
  case (run_Cons s e t es u)
  then show ?case using chain_step_tip chain.invar_step by (meson order_trans)
qed simp

section \<open>What pruning keeps\<close>

lemma recanon_top:
  "recanon bh ah x h cn h = Some x \<and> (\<forall>k. h < k \<longrightarrow> recanon bh ah x h cn k = cn k)"
proof (induction x h cn rule: recanon_induct [where bh = bh and ah = ah])
  case (walk cn x h p r)
  then have "h \<noteq> 0" by (auto simp: canon_parent_def split: option.splits if_splits)
  then have "h - 1 < h" by (rule minus_one_less)
  with walk(3) show ?case by auto
qed auto

definition cutoff :: "store \<Rightarrow> u32" where
  "cutoff s = tipH s - Window (opt s)"

definition pruning :: "store \<Rightarrow> bool" where
  "pruning s \<longleftrightarrow> Window (opt s) \<noteq> 0 \<and> Window (opt s) \<le> tipH s"

lemma pruneLocked_entry:
  "entry_at (pruneLocked s) h x = (if pruning s \<and> lowest s \<le> h \<and> h < cutoff s then None else entry_at s h x)"
  by (auto simp: pruneLocked_def pruning_def cutoff_def Let_def prune_loop_entry not_le)

lemma pruneLocked_canon:
  "canon (pruneLocked s) h = (if pruning s \<and> lowest s \<le> h \<and> h < cutoff s then None else canon s h)"
  by (auto simp: pruneLocked_def pruning_def cutoff_def Let_def prune_loop_canon not_le)

lemma pruneLocked_historyTop:
  assumes "pruning s" "cutoff s \<noteq> 0"
  shows "historyTop (pruneLocked s) = max (historyTop s) (cutoff s - 1)"
proof -
  have g: "\<not> (Window (opt s) = 0 \<or> tipH s < Window (opt s))" using assms(1) by (auto simp: pruning_def)
  have c: "0 < cutoff s" using assms(2) by (simp add: word_gt_0)
  show ?thesis
    using c unfolding pruneLocked_def if_not_P [OF g] Let_def cutoff_def [symmetric] max_def
    by (auto simp: prune_loop_fields not_less)
qed

lemma cutoff_le_tip: "pruning s \<Longrightarrow> cutoff s \<le> tipH s"
  by (auto simp: pruning_def cutoff_def intro: word_sub_le)

lemma extendTip_reads:
  assumes "pruning s' \<Longrightarrow> cutoff s' \<le> k" "tipH s' = h" "opt s' = opt s"
  shows "entry_at (extendTip x h s) k y = entry_at s k y"
proof -
  let ?u = "recanonLocked x h (s\<lparr>tip := x, tipH := h\<rparr>)"
  have "pruning ?u = pruning s'" "cutoff ?u = cutoff s'"
    using assms(2,3) by (simp_all add: pruning_def cutoff_def recanonLocked_def)
  then show ?thesis
    using assms(1) by (auto simp: extendTip_def pruneLocked_entry recanonLocked_def not_le
        dest: order.strict_trans1)
qed

lemma extendTip_fields [store_simps]:
  "tip (extendTip x h s) = x" "tipH (extendTip x h s) = h" "opt (extendTip x h s) = opt s"
  by (simp_all add: extendTip_def store_simps recanonLocked_def)

lemma extendTip_canon: "canon (extendTip x h s) h = Some x"
proof -
  let ?u = "recanonLocked x h (s\<lparr>tip := x, tipH := h\<rparr>)"
  have "\<not> (pruning ?u \<and> h < cutoff ?u)" using cutoff_le_tip [of ?u] by (auto simp: recanonLocked_def)
  moreover have "canon ?u h = Some x" using recanon_top by (simp add: recanonLocked_def)
  ultimately show ?thesis by (auto simp: extendTip_def pruneLocked_canon)
qed

text \<open>A tip move in full: the header's own place, what stays and what goes.\<close>

lemma Observe_tip_move:
  assumes o: "Observe sha lk hdr s = ((ob, err), t)" and T: "Tip ob"
  obtains s' where "length hdr = 80" "err = None"
    "t = bumpObserved (extendTip (headerHash sha hdr) (o_Height ob) s')"
    "entry_at s' (o_Height ob) (headerHash sha hdr) =
       Some \<lparr>e_root = hdr_root hdr, e_prev = hdr_prev hdr, viaAnchor = False\<rparr>"
    "opt s' = opt s" "o_Hash ob = headerHash sha hdr" "historyTop s' = historyTop s"
    "\<And>h x e. entry_at s h x = Some e \<Longrightarrow> entry_at s' h x \<noteq> None"
    "store_inv s \<Longrightarrow> headerHash sha hdr \<noteq> hdr_prev hdr \<Longrightarrow> store_inv s'"
  using o
proof (cases rule: Observe_cases)
  case (chained ph re r)
  let ?s' = "recordHeader (headerHash sha hdr) (hdr_root hdr) (hdr_prev hdr) (ph + 1) r"
  have c: "o_Height ob = ph + 1" "o_Hash ob = headerHash sha hdr"
    "t = bumpObserved (extendTip (headerHash sha hdr) (ph + 1) ?s')"
    using chained(6) T by (auto simp: commitHeader_def Let_def split: if_splits)
  have keep: "entry_at ?s' h x \<noteq> None" if "entry_at s h x = Some e" for h x e
    using that chained(5) by (auto simp: resolveParent_def reanchorParent_def Let_def store_simps
        split: option.splits)
  have inv: "store_inv ?s'" if "store_inv s" "headerHash sha hdr \<noteq> hdr_prev hdr"
    using that chained(4) resolveParent_other [OF chained(5) that(2)]
    by (intro store_inv_recordHeader store_inv_resolveParent [OF that(1) chained(5)]) simp
  show ?thesis
    by (rule that [of ?s'])
      (use c chained(1,3,5) keep inv in \<open>simp_all add: store_simps\<close>)
qed (use T in auto)

lemma Observe_tip_served:
  assumes "Observe sha lk hdr s = ((ob, err), t)" "Tip ob"
  shows "canonical_entry t (o_Height ob) =
      Some (headerHash sha hdr, \<lparr>e_root = hdr_root hdr, e_prev = hdr_prev hdr, viaAnchor = False\<rparr>)"
    and "TipOf t = (headerHash sha hdr, o_Height ob)" and "err = None"
    and "fst (RootAt fb (o_Height ob) t) = Inr (Some (hdr_root hdr))"
proof -
  let ?x = "headerHash sha hdr" and ?h = "o_Height ob"
  obtain s' where t: "t = bumpObserved (extendTip ?x ?h s')" "err = None"
    and e: "entry_at s' ?h ?x = Some \<lparr>e_root = hdr_root hdr, e_prev = hdr_prev hdr, viaAnchor = False\<rparr>"
    by (rule Observe_tip_move [OF assms]) blast
  have "entry_at (extendTip ?x ?h s') ?h ?x = entry_at s' ?h ?x"
    by (rule extendTip_reads [of "s'\<lparr>tipH := ?h\<rparr>"]) (use cutoff_le_tip [of "s'\<lparr>tipH := ?h\<rparr>"] in simp_all)
  then show c: "canonical_entry t ?h =
      Some (?x, \<lparr>e_root = hdr_root hdr, e_prev = hdr_prev hdr, viaAnchor = False\<rparr>)"
    using e by (simp add: t canonical_entry_def extendTip_canon bumpObserved_def)
  show "TipOf t = (?x, ?h)" by (simp add: t TipOf_def bumpObserved_def extendTip_fields)
  show "err = None" by (rule t(2))
  show "fst (RootAt fb ?h t) = Inr (Some (hdr_root hdr))" by (simp add: RootAt_def c)
qed

section \<open>Warm-up fills the cache\<close>

lemma warm_heights_set: "low \<le> h \<Longrightarrow> set (warm_heights h low) = {low..h}"
proof (induction h low rule: warm_heights.induct)
  case (1 h low)
  show ?case
  proof (cases "h \<le> low")
    case False
    then have "h \<noteq> 0" by auto
    from False le_minus_one [OF this, of low] 1 have "set (warm_heights (h - 1) low) = {low..h - 1}"
      by (auto simp: not_le)
    moreover have "{low..h} = insert h {low..h - 1}"
      using False by (auto simp: le_minus_one [OF \<open>h \<noteq> 0\<close>])
    ultimately show ?thesis using False by (subst warm_heights.simps) simp
  qed (use 1 in \<open>subst warm_heights.simps; auto\<close>)
qed

lemma warm_heights_length: "low \<le> h \<Longrightarrow> length (warm_heights h low) = unat h - unat low + 1"
proof (induction h low rule: warm_heights.induct)
  case (1 h low)
  show ?case
  proof (cases "h \<le> low")
    case False
    then have h: "h \<noteq> 0" "low < h" by auto
    then have "unat (h - 1) = unat h - 1" "unat low < unat h"
      by (simp_all add: unat_minus_one word_less_nat_alt)
    with 1 False le_minus_one [OF h(1), of low] h(2) show ?thesis by (subst warm_heights.simps) simp
  qed (use 1 in \<open>subst warm_heights.simps; auto\<close>)
qed

lemma warm_run_all:
  assumes "warm_run fb (map (\<lambda>h. (h, True)) hs) (s, w) = (t, v)"
    and "\<forall>h\<in>set hs. fb h = Inr (Some (rt h))"
    and "length (fallbackRoots s) + length hs \<le> fallbackCap"
  shows "map_of (fallbackRoots t) = (\<lambda>k. if k \<in> set hs then Some (rt k) else map_of (fallbackRoots s) k) \<and>
    Loaded v = Loaded w + of_nat (length hs) \<and> Failed v = Failed w \<and> Target v = Target w"
  using assms
proof (induction hs arbitrary: s w)
  case (Cons h hs)
  let ?s = "s\<lparr>fallbackRoots := AList.update h (rt h) (fallbackRoots s)\<rparr>"
  let ?w = "w\<lparr>Loaded := Loaded w + 1\<rparr>"
  have "warmOne fb True h (s, w) = (?s, ?w)" using Cons.prems by (simp add: warmOne_def)
  moreover have "length (fallbackRoots ?s) + length hs \<le> fallbackCap"
    using Cons.prems(3) length_update [of h "rt h" "fallbackRoots s"] by simp
  ultimately show ?case
    using Cons.IH [of ?s ?w] Cons.prems by (auto simp: update_conv' fun_eq_iff)
qed auto

lemma warm_low_bounds:
  assumes "topH \<noteq> - 1" "depth \<noteq> 0"
  shows "warm_low topH depth \<le> topH"
    and "unat topH - unat (warm_low topH depth) + 1 = min (unat depth) (unat topH + 1)"
proof -
  have t: "unat (topH + 1) = unat topH + 1" using assms(1) by (rule unat_plus_one)
  have d: "unat (topH + 1 - depth) = unat topH + 1 - unat depth" if "depth < topH + 1"
    using that by (simp add: unat_sub t less_imp_le)
  have p: "0 < unat depth" using assms(2) by (simp add: unat_gt_0)
  show "warm_low topH depth \<le> topH"
    using d p by (auto simp: warm_low_def word_le_nat_alt)
  show "unat topH - unat (warm_low topH depth) + 1 = min (unat depth) (unat topH + 1)"
    using d p t by (auto simp: warm_low_def word_less_nat_alt min_def)
qed

section \<open>A concrete run\<close>

text \<open>
  A stand-in for SHA-256 that keeps what the examples need: a header hashes to its parent's first
  byte plus one, followed by the first 31 bytes of its root. The work field declares \<open>2^256\<close>.
\<close>

definition example_sha :: "bytes \<Rightarrow> bytes" where
  "example_sha b = (if length b = 80 then (b ! 4 + 1) # take 31 (drop 36 b) else b)"

definition example_header :: "hash \<Rightarrow> hash \<Rightarrow> bytes" where
  "example_header p r = [1, 0, 0, 0] @ p @ r @ [0, 0, 0, 0] @ [0, 0, 1, 0x21] @ [0, 0, 0, 0]"

definition example_options :: "u32 \<Rightarrow> options" where
  "example_options w = \<lparr>Anchor = \<lparr>anchor_hash = replicate 32 1, anchor_height = 100\<rparr>,
     MinBits = 0x21010000, Window = w\<rparr>"

lemma example_no_self_parent: "no_self_parent example_sha"
  unfolding no_self_parent_def
proof (intro allI impI)
  fix hdr :: bytes assume l: "length hdr = 80"
  have "take 32 (drop 4 hdr) ! 0 = hdr ! 4" using l by simp
  moreover have "headerHash example_sha hdr ! 0 = hdr ! 4 + 1"
    using l by (simp add: headerHash_def example_sha_def)
  ultimately show "headerHash example_sha hdr \<noteq> hdr_prev hdr" unfolding hdr_prev_def by force
qed

lemma example_header_fields:
  assumes "length p = 32" "length r = 32"
  shows "length (example_header p r) = 80"
    and "headerHash example_sha (example_header p r) = (hd p + 1) # take 31 r"
    and "hdr_prev (example_header p r) = p" and "hdr_root (example_header p r) = r"
    and "hdr_bits (example_header p r) = 0x21010000"
proof -
  show l: "length (example_header p r) = 80" using assms by (simp add: example_header_def)
  have "example_header p r ! 4 = hd p"
    using assms by (cases p) (auto simp: example_header_def nth_append)
  then show "headerHash example_sha (example_header p r) = (hd p + 1) # take 31 r"
    using l assms by (simp add: headerHash_def example_sha_def example_header_def)
  show "hdr_prev (example_header p r) = p" "hdr_root (example_header p r) = r"
    using assms by (simp_all add: hdr_prev_def hdr_root_def example_header_def)
  show "hdr_bits (example_header p r) = 0x21010000"
    using assms by (simp add: hdr_bits_def example_header_def)
qed

lemma example_work:
  assumes "length x = 32"
  shows "checkWork (example_options w) x 0x21010000 = Inr ()"
proof -
  have c: "compactToBig 0x21010000 = Some (2 ^ 256)"
    by (simp add: compactToBig_def)
  have "workValue x < 2 ^ 256" using le_nat_bound [of x] assms by (simp add: workValue_le_nat)
  then show ?thesis by (simp add: checkWork_def c example_options_def)
qed

definition example_start :: "u32 \<Rightarrow> store" where
  "example_start w = \<lparr>byHash = [replicate 32 1 \<mapsto> 100], at_height = Map.empty, canon = Map.empty,
     tip = replicate 32 1, tipH = 100, lowest = 100, opt = example_options w, fallbackRoots = [],
     historyTop = 100, observed = 0, rejected = 0, orphaned = 0, reanchored = 0, replaced = 0,
     pruned = 0, fromLane = 0, fromHistory = 0, fromFallback = 0, misses = 0\<rparr>"

lemma example_New: "New (example_options w) = Inr (example_start w)"
  by (simp add: New_def example_options_def example_start_def numeral_eq_Suc [of num.One])

text \<open>The header that extends the tip of a store: observed, indexed and made canonical.\<close>

lemma Observe_child:
  assumes "opt s = example_options w" "length (tip s) = 32" "length r = 32"
    and "byHash s (tip s) = Some h" "byHash s ((hd (tip s) + 1) # take 31 r) = None"
  defines "x \<equiv> (hd (tip s) + 1) # take 31 r"
  shows "Observe example_sha lk (example_header (tip s) r) s =
    ((\<lparr>o_Hash = x, o_Height = h + 1, o_Root = r, Chained = True, Reanchor = False, Tip = True,
       Replaced = (canon s (h + 1) \<noteq> None)\<rparr>, None),
     bumpObserved (extendTip x (h + 1) (recordHeader x r (tip s) (h + 1) s)))"
  using assms example_work [of x w]
  by (simp add: Observe_def Let_def example_header_fields resolveParent_def commitHeader_def store_simps)

text \<open>One header on top of the anchor, hash \<open>2 # replicate 31 5\<close>, height 101.\<close>

definition example_h1 :: bytes where "example_h1 = example_header (replicate 32 1) (replicate 32 5)"
definition example_x1 :: hash where "example_x1 = 2 # replicate 31 5"

definition example_store1 :: "u32 \<Rightarrow> store" where
  "example_store1 w = snd (Observe example_sha None example_h1 (example_start w))"

lemma example_h1_fields:
  "length example_h1 = 80" "headerHash example_sha example_h1 = example_x1"
  "hdr_root example_h1 = replicate 32 5"
  using example_header_fields [of "replicate 32 1" "replicate 32 5"]
  by (simp_all add: example_h1_def example_x1_def)

lemma example_fresh: "example_x1 \<noteq> replicate 32 1"
proof -
  have "hd example_x1 \<noteq> hd (replicate 32 1)" by (simp add: example_x1_def)
  then show ?thesis by force
qed

lemma example_observe1:
  obtains ob where "Observe example_sha None example_h1 (example_start w) = ((ob, None), example_store1 w)"
    "Tip ob" "o_Height ob = 101"
proof -
  have "Observe example_sha None (example_header (tip (example_start w)) (replicate 32 5)) (example_start w) =
    ((\<lparr>o_Hash = example_x1, o_Height = 101, o_Root = replicate 32 5, Chained = True, Reanchor = False,
       Tip = True, Replaced = False\<rparr>, None),
     bumpObserved (extendTip example_x1 101 (recordHeader example_x1 (replicate 32 5) (replicate 32 1) 101 (example_start w))))"
    using Observe_child [of "example_start w" w "replicate 32 5" 100 None] example_fresh
    by (simp add: example_start_def example_x1_def)
  moreover have "tip (example_start w) = replicate 32 1" by (simp add: example_start_def)
  ultimately show thesis
    using that by (simp add: example_store1_def example_h1_def)
qed

lemma example_run1:
  "run (store_step example_sha) (example_start w) [ObserveEv None example_h1] (example_store1 w)"
  by (simp add: run_Cons_iff example_store1_def)

lemma example_chain_run1:
  "run (chain_step example_sha) (example_start w) [ObserveEv None example_h1] (example_store1 w)"
  by (simp add: run_Cons_iff example_store1_def chain_step_def example_start_def)

section \<open>The store's promises\<close>

text \<open>
  C3. No root is known without work: in every run of the store, a height it reports as known rests
  on an 80-byte header delivered in that run, whose hash meets the target of its own bits, with
  that target at or below the configured floor.
\<close>

theorem known_roots_carry_work:
  assumes "New o' = Inr s" "run (store_step sha) s es t" "Known h t"
  shows "\<exists>x lk hdr target. canon t h = Some x \<and> ObserveEv lk hdr \<in> set es \<and> length hdr = 80 \<and>
    headerHash sha hdr = x \<and> compactToBig (hdr_bits hdr) = Some target \<and> workValue x \<le> target \<and>
    (MinBits o' \<noteq> 0 \<longrightarrow> (\<exists>floor. compactToBig (MinBits o') = Some floor \<and> target \<le> floor))"
proof -
  have st: "started o' s" using assms(1) by (simp add: started_def)
  have "received_by_work sha (set es) t"
    using work.invar_reach [OF st run_restrict [OF assms(2) order_refl]] .
  moreover have "opt t = o'" using options.invar_reach [OF st assms(2)] .
  moreover obtain x e where "canon t h = Some x" "entry_at t h x = Some e" "\<not> viaAnchor e"
    using assms(3) by (auto simp: Known_def split: option.splits)
  ultimately show ?thesis unfolding received_by_work_def meets_work_def by metis
qed

lemma example_known: "Known 101 (example_store1 w)" "canon (example_store1 w) 101 = Some example_x1"
proof -
  obtain ob where o: "Observe example_sha None example_h1 (example_start w) = ((ob, None), example_store1 w)"
    "Tip ob" "o_Height ob = 101" by (rule example_observe1)
  from Observe_tip_served(1) [OF o(1,2)] show "Known 101 (example_store1 w)"
    "canon (example_store1 w) 101 = Some example_x1"
    by (auto simp: o(3) canonical_entry_def Known_def example_h1_fields split: option.splits)
qed

theorem known_roots_carry_work_witness:
  "\<exists>lk hdr target floor. ObserveEv lk hdr \<in> set [ObserveEv None example_h1] \<and> length hdr = 80 \<and>
     canon (example_store1 0) 101 = Some (headerHash example_sha hdr) \<and>
     compactToBig (hdr_bits hdr) = Some target \<and> workValue (headerHash example_sha hdr) \<le> target \<and>
     compactToBig (MinBits (example_options 0)) = Some floor \<and> target \<le> floor"
proof -
  have "MinBits (example_options 0) \<noteq> 0" by (simp add: example_options_def)
  then show ?thesis
    using known_roots_carry_work [OF example_New example_run1 example_known(1), of 0] by blast
qed

text \<open>
  The indexes agree, always: in every reachable store the tip is indexed at its height, the
  hash index and the per-height entries hold the same headers apart from the anchor, every
  canonical hash is indexed at the height it is canonical for, and no entry is below \<open>lowest\<close>.
\<close>

theorem reachable_index_consistent:
  assumes "no_self_parent sha" "New o' = Inr s" "run (store_step sha) s es t"
  shows "store_inv t"
  using index.invar_reach [of o' s sha es t] assms by (simp add: started_def)

theorem reachable_index_consistent_witness: "store_inv (example_store1 0)"
  by (rule reachable_index_consistent [OF example_no_self_parent example_New example_run1])

text \<open>
  C13. With an anchor whose answers are right for the headers the lane also delivers, and no two
  delivered headers of one hash with different roots, every root served as known is the Merkle root
  of a delivered header with the canonical hash of that height.
\<close>

theorem known_root_is_the_headers_own:
  assumes "New o' = Inr s" "run (store_step sha) s es t" "honest_events sha (set es)" "Known h t"
  shows "\<exists>x lk hdr. canon t h = Some x \<and> ObserveEv lk hdr \<in> set es \<and> headerHash sha hdr = x \<and>
    fst (RootAt fb h t) = Inr (Some (hdr_root hdr))"
proof -
  have "true_roots sha (set es) t"
    using roots.invar_reach [of o' s, OF _ run_restrict [OF assms(2) order_refl]] assms(1,3)
    by (simp add: started_def)
  moreover obtain x e where e: "canon t h = Some x" "entry_at t h x = Some e" "\<not> viaAnchor e"
    using assms(4) by (auto simp: Known_def split: option.splits)
  moreover have "fst (RootAt fb h t) = Inr (Some (e_root e))"
    using e by (simp add: RootAt_def canonical_entry_def)
  ultimately show ?thesis using true_rootsD(2) by metis
qed

theorem known_root_is_the_headers_own_witness:
  "\<exists>x lk hdr. canon (example_store1 0) 101 = Some x \<and> ObserveEv lk hdr \<in> set [ObserveEv None example_h1] \<and>
     headerHash example_sha hdr = x \<and> fst (RootAt None 101 (example_store1 0)) = Inr (Some (hdr_root hdr))"
  by (rule known_root_is_the_headers_own [OF example_New example_run1 _ example_known(1)])
    (simp add: honest_events_def)

text \<open>
  The header that moves the tip is served at once: the tip is its hash and height, the height
  is known, and both read paths answer its own root from the lane's record, whatever the fallback
  would say.
\<close>

theorem tip_header_is_served:
  assumes "Observe sha lk hdr s = ((ob, err), t)" "Tip ob"
  shows "err = None \<and> TipOf t = (headerHash sha hdr, o_Height ob) \<and> Known (o_Height ob) t \<and>
    RootAt fb (o_Height ob) t = (Inr (Some (hdr_root hdr)), t\<lparr>fromLane := fromLane t + 1\<rparr>) \<and>
    HeaderForHeight hs (o_Height ob) t =
      (Inr (headerHash sha hdr, hdr_root hdr, True), t\<lparr>fromLane := fromLane t + 1\<rparr>)"
proof -
  note c = Observe_tip_served [OF assms]
  then have "Known (o_Height ob) t" by (auto simp: canonical_entry_def Known_def split: option.splits)
  with c show ?thesis by (simp add: RootAt_def HeaderForHeight_def bookCanonical_def)
qed

theorem tip_header_is_served_witness:
  "\<exists>ob t. Observe example_sha None example_h1 (example_start 3) = ((ob, None), t) \<and> Tip ob \<and>
     TipOf t = (example_x1, 101) \<and> fst (RootAt None 101 t) = Inr (Some (replicate 32 5))"
proof -
  obtain ob where o: "Observe example_sha None example_h1 (example_start 3) = ((ob, None), example_store1 3)"
    "Tip ob" "o_Height ob = 101" by (rule example_observe1)
  from tip_header_is_served [OF o(1,2), of None] o show ?thesis
    by (simp add: example_h1_fields)
qed

text \<open>
  C9. The canonical map is a hash-linked chain: with the retention window off and heights short of
  the 32-bit limit, whenever a canonical header names a parent, that parent is the canonical hash
  one height below it, after any number of forks, reorganisations and re-anchorings; no header is
  indexed above the tip, and the tip's height never falls.
\<close>

theorem canonical_chain_linked:
  assumes "no_self_parent sha" "New o' = Inr s" "Window o' = 0" "run (chain_step sha) s es t"
  shows "(\<forall>h x e. canon t h = Some x \<and> entry_at t h x = Some e \<and> e_prev e \<noteq> zero_hash \<longrightarrow>
      h \<noteq> 0 \<and> canon t (h - 1) = Some (e_prev e)) \<and>
    (\<forall>x h. byHash t x = Some h \<longrightarrow> h \<le> tipH t) \<and> tipH s \<le> tipH t"
proof -
  have st: "started o' s" using assms(2) by (simp add: started_def)
  have "run (store_step sha) s es t" using assms(4) by (rule run_mono) (simp add: chain_step_def)
  then have "opt t = o'" using st by (rule options.invar_reach [rotated])
  moreover have "chain_ok t" using chain.invar_reach [OF st assms(4)] assms(1) by blast
  ultimately have "linked t" "tip_top t" using assms(3) by (simp_all add: chain_ok_def)
  moreover have "tipH s \<le> tipH t" using chain_run_tip [OF assms(4,1)] chain_ok_New [OF assms(2)] by blast
  ultimately show ?thesis unfolding linked_def parents_known_def link_at_def tip_top_def by blast
qed

theorem canonical_chain_linked_witness:
  "canon (example_store1 0) 101 = Some example_x1 \<and> canon (example_store1 0) 100 = Some (replicate 32 1) \<and>
   tipH (example_start 0) \<le> tipH (example_store1 0)"
proof -
  let ?t = "example_store1 0"
  obtain ob where o: "Observe example_sha None example_h1 (example_start 0) = ((ob, None), ?t)"
    "Tip ob" "o_Height ob = 101" by (rule example_observe1)
  have p: "hdr_prev example_h1 = replicate 32 1"
    using example_header_fields(3) [of "replicate 32 1" "replicate 32 5"] by (simp add: example_h1_def)
  have z: "replicate 32 1 \<noteq> zero_hash" by (metis length_replicate nth_replicate zero_less_numeral zero_neq_one)
  have w: "Window (example_options 0) = 0" by (simp add: example_options_def)
  obtain e where "canon ?t 101 = Some example_x1" "entry_at ?t 101 example_x1 = Some e" "e_prev e = replicate 32 1"
    using Observe_tip_served(1) [OF o(1,2)] p
    by (auto simp: o(3) canonical_entry_def example_h1_fields split: option.splits)
  moreover from this z have "canon ?t (101 - 1) = Some (replicate 32 1)"
    using canonical_chain_linked [OF example_no_self_parent example_New w example_chain_run1] by metis
  ultimately show ?thesis
    using canonical_chain_linked [OF example_no_self_parent example_New w example_chain_run1] by simp
qed

text \<open>
  C14. Retention: when a header moves the tip of a reachable store whose window is \<open>W\<close>, nothing below
  \<open>tip - W\<close> is held any longer, everything the store held from there up is still held, and the
  pruned heights are from then on booked as history rather than as lane loss.
\<close>

theorem retention_window:
  assumes "no_self_parent sha" "New o' = Inr s0" "run (store_step sha) s0 es s"
    and "Observe sha lk hdr s = ((ob, err), t)" "Tip ob"
    and "Window o' \<noteq> 0" "Window o' \<le> o_Height ob"
  defines "low \<equiv> o_Height ob - Window o'"
  shows "(\<forall>h x. entry_at t h x \<noteq> None \<longrightarrow> low \<le> h) \<and>
    (\<forall>h x. low \<le> h \<and> entry_at s h x \<noteq> None \<longrightarrow> entry_at t h x \<noteq> None) \<and>
    (low \<noteq> 0 \<longrightarrow> low - 1 \<le> historyTop t \<and> historyTop s \<le> historyTop t)"
proof -
  let ?x = "headerHash sha hdr" and ?h = "o_Height ob"
  have st: "started o' s0" using assms(2) by (simp add: started_def)
  have inv: "store_inv s" "opt s = o'"
    using index.invar_reach [OF st assms(3)] options.invar_reach [OF st assms(3)] assms(1) by auto
  obtain s' where s': "length hdr = 80" "t = bumpObserved (extendTip ?x ?h s')" "opt s' = opt s"
      "entry_at s' ?h ?x = Some \<lparr>e_root = hdr_root hdr, e_prev = hdr_prev hdr, viaAnchor = False\<rparr>"
      "historyTop s' = historyTop s" "\<And>h x e. entry_at s h x = Some e \<Longrightarrow> entry_at s' h x \<noteq> None"
      "store_inv s \<Longrightarrow> ?x \<noteq> hdr_prev hdr \<Longrightarrow> store_inv s'"
    by (rule Observe_tip_move [OF assms(4,5)]) blast
  define u where "u = recanonLocked ?x ?h (s'\<lparr>tip := ?x, tipH := ?h\<rparr>)"
  have "store_inv s'" using s'(1,7) inv(1) assms(1) by (simp add: no_self_parent_def)
  then have u: "store_inv u" unfolding u_def using s'(4) by (intro store_inv_tip) (auto intro: entry_byHash)
  have c: "pruning u" "cutoff u = low" "historyTop u = historyTop s" "entry_at u = entry_at s'"
    using assms(6,7) inv(2) s'(3,5)
    by (simp_all add: u_def pruning_def cutoff_def low_def recanonLocked_def entry_at_def fun_eq_iff)
  have t: "t = bumpObserved (pruneLocked u)" by (simp add: s'(2) extendTip_def u_def)
  have e: "entry_at t h x = (if h < low \<and> lowest u \<le> h then None else entry_at s' h x)" for h x
    using c by (auto simp: t pruneLocked_entry)
  have lo: "entry_at s' h x = None" if "h < lowest u" for h x
    using that store_invD(6) [OF u, of h x] c(4) by (metis leD not_None_eq)
  have "low \<le> h" if "entry_at t h x \<noteq> None" for h x
    using that lo [of h x] unfolding e by (auto simp: not_le split: if_splits)
  moreover have "entry_at t h x \<noteq> None" if "low \<le> h" "entry_at s h x \<noteq> None" for h x
    using that s'(6) unfolding e by auto
  moreover have "low - 1 \<le> historyTop t \<and> historyTop s \<le> historyTop t" if "low \<noteq> 0"
    using that pruneLocked_historyTop [OF c(1)] c(2,3) by (simp add: t bumpObserved_def)
  ultimately show ?thesis by blast
qed

theorem retention_window_witness:
  "\<exists>ob t. Observe example_sha None example_h1 (example_start 1) = ((ob, None), t) \<and> o_Height ob = 101 \<and>
     entry_at t 99 example_x1 = None \<and> 99 \<le> historyTop t"
proof -
  obtain ob where o: "Observe example_sha None example_h1 (example_start 1) = ((ob, None), example_store1 1)"
    "Tip ob" "o_Height ob = 101" by (rule example_observe1)
  have w: "Window (example_options 1) = 1" by (simp add: example_options_def)
  note r = retention_window [OF example_no_self_parent example_New run_Nil o(1,2)]
  have "entry_at (example_store1 1) 99 example_x1 = None" using r o(3) w by fastforce
  then show ?thesis using r o w by auto
qed

text \<open>
  Provenance is booked exactly once per read: a known height answers its canonical root and
  counts as the lane's, any other answered height counts as history at or below \<open>historyTop\<close> and as
  fallback above it, and a read that ends without a root counts as one miss and changes nothing else.
\<close>

theorem root_read_booked_once:
  assumes "RootAt fb h s = (r, t)"
  shows "(Known h s \<longrightarrow> (\<exists>x e. canonical_entry s h = Some (x, e) \<and> r = Inr (Some (e_root e))) \<and>
      t = s\<lparr>fromLane := fromLane s + 1\<rparr>) \<and>
    (\<not> Known h s \<and> (\<exists>root. r = Inr (Some root)) \<longrightarrow>
      fromLane t = fromLane s \<and> misses t = misses s \<and>
      (if h \<le> historyTop s then fromHistory t = fromHistory s + 1 \<and> fromFallback t = fromFallback s
       else fromHistory t = fromHistory s \<and> fromFallback t = fromFallback s + 1)) \<and>
    ((\<nexists>root. r = Inr (Some root)) \<longrightarrow> t = s\<lparr>misses := misses s + 1\<rparr>)"
proof -
  have k: "Known h s \<longleftrightarrow> (\<exists>x e. canonical_entry s h = Some (x, e) \<and> \<not> viaAnchor e)"
    by (auto simp: Known_def canonical_entry_def split: option.splits)
  show ?thesis
  proof (cases "canonical_entry s h")
    case None
    then show ?thesis
      using assms by (auto simp: k RootAt_def bookAnchoredLocked_def bumpMisses_def cacheRoot_def Let_def
          split: option.splits sum.splits if_splits) metis+
  next
    case (Some a)
    then show ?thesis
      using assms by (auto simp: k RootAt_def bookCanonical_def bookAnchoredLocked_def
          split: prod.splits if_splits)
  qed
qed

theorem root_read_booked_once_witness:
  "RootAt (Some (\<lambda>_. Inr (Some (replicate 32 9)))) 101 (example_store1 0) =
     (Inr (Some (replicate 32 5)), (example_store1 0)\<lparr>fromLane := fromLane (example_store1 0) + 1\<rparr>) \<and>
   misses (snd (RootAt None 7 (example_start 0))) = 1"
proof -
  let ?fb = "Some (\<lambda>_. Inr (Some (replicate 32 9)))"
  obtain r t where r: "RootAt ?fb 101 (example_store1 0) = (r, t)" by force
  obtain ob where o: "Observe example_sha None example_h1 (example_start 0) = ((ob, None), example_store1 0)"
    "Tip ob" "o_Height ob = 101" by (rule example_observe1)
  have "r = Inr (Some (replicate 32 5))"
    using o r Observe_tip_served(4) [OF o(1,2), of ?fb] by (simp add: example_h1_fields)
  moreover have "t = (example_store1 0)\<lparr>fromLane := fromLane (example_store1 0) + 1\<rparr>"
    using root_read_booked_once [OF r] example_known(1) [of 0] by blast
  moreover have m: "RootAt None 7 (example_start 0) = (Inl ErrNoFallback, bumpMisses (example_start 0))"
    by (simp add: RootAt_def example_start_def canonical_entry_def)
  ultimately show ?thesis using r by (simp add: bumpMisses_def example_start_def)
qed

text \<open>
  A re-delivered header that the anchor had vouched for becomes the lane's own without the
  lane's data: its entry keeps the root the anchor supplied and its missing parent link, so a
  canonical height that was booked as the anchor's is served with the anchor's root and booked as
  the lane's, whatever root the delivered header carries.
\<close>

theorem redelivery_keeps_anchor_root:
  assumes "length hdr = 80" "checkWork (opt s) (headerHash sha hdr) (hdr_bits hdr) = Inr ()"
    and "byHash s (headerHash sha hdr) = Some h" "canonical_entry s h = Some (headerHash sha hdr, e)"
    and "viaAnchor e"
  shows "\<exists>ob t. Observe sha lk hdr s = ((ob, None), t) \<and> \<not> Known h s \<and> Known h t \<and>
    canonical_entry t h = Some (headerHash sha hdr, e\<lparr>viaAnchor := False\<rparr>) \<and>
    RootAt fb h t = (Inr (Some (e_root e)), t\<lparr>fromLane := fromLane t + 1\<rparr>)"
proof -
  let ?x = "headerHash sha hdr"
  have e: "canon s h = Some ?x" "entry_at s h ?x = Some e"
    using assms(4) by (auto simp: canonical_entry_def split: option.splits)
  define t where "t = bumpObserved (set_entry h ?x (e\<lparr>viaAnchor := False\<rparr>) s)"
  have o: "Observe sha lk hdr s =
      (((bareObservation ?x (hdr_root hdr))\<lparr>o_Height := h, Chained := True\<rparr>, None), t)"
    using assms e by (simp add: Observe_def Let_def promote_def t_def)
  have c: "canonical_entry t h = Some (?x, e\<lparr>viaAnchor := False\<rparr>)"
    using e by (simp add: canonical_entry_def t_def bumpObserved_def set_entry_def entry_at_def
        split: option.splits)
  then have "Known h t" by (auto simp: Known_def canonical_entry_def split: option.splits)
  moreover have "\<not> Known h s" using e assms(5) by (simp add: Known_def)
  ultimately show ?thesis using o c by (auto simp: RootAt_def bookCanonical_def)
qed

text \<open>
  The anchor vouches for the parent \<open>example_x1\<close> at height 150 with a root of its own; a child is
  delivered, then the parent itself, whose header carries another root.
\<close>

definition example_vouched :: store where
  "example_vouched = snd (Observe example_sha (Some (\<lambda>_. Some (150, replicate 32 9)))
     (example_header example_x1 (replicate 32 6)) (example_start 0))"

lemma example_vouched_parent:
  "byHash example_vouched example_x1 = Some 150" "opt example_vouched = example_options 0"
  "canonical_entry example_vouched 150 =
     Some (example_x1, \<lparr>e_root = replicate 32 9, e_prev = zero_hash, viaAnchor = True\<rparr>)"
proof -
  define x2 :: hash where "x2 = 3 # replicate 31 6"
  have word_neqs: "(2::byte) \<noteq> 1" "(3::byte) \<noteq> 1" "(3::byte) \<noteq> 2" "(2::byte) \<noteq> 0" by simp_all
  have "hd x2 = 3" "hd example_x1 = 2" "hd (replicate 32 k) = k" for k :: byte
    by (simp_all add: example_x1_def x2_def)
  then have d: "example_x1 \<noteq> replicate 32 1" "x2 \<noteq> replicate 32 1" "x2 \<noteq> example_x1" "example_x1 \<noteq> zero_hash"
    using word_neqs by metis+
  have l: "length example_x1 = 32" by (simp add: example_x1_def)
  let ?h = "example_header example_x1 (replicate 32 6)"
  have h: "length ?h = 80" "headerHash example_sha ?h = x2" "hdr_prev ?h = example_x1"
    "hdr_root ?h = replicate 32 6" "hdr_bits ?h = 0x21010000"
    using example_header_fields [OF l, of "replicate 32 6"] by (simp_all add: example_x1_def x2_def)
  have w: "checkWork (example_options 0) x2 0x21010000 = Inr ()" by (rule example_work) (simp add: x2_def)
  let ?a = "\<lparr>e_root = replicate 32 9, e_prev = zero_hash, viaAnchor = True\<rparr>"
  define s1 where "s1 = putLocked 150 example_x1 ?a
      (example_start 0\<lparr>byHash := (byHash (example_start 0))(example_x1 \<mapsto> 150)\<rparr>) \<lparr>reanchored := 1\<rparr>"
  define s2 where "s2 = recordHeader x2 (replicate 32 6) example_x1 151 s1"
  have b: "byHash (example_start 0) = [replicate 32 1 \<mapsto> 100]" "tip (example_start 0) = replicate 32 1"
    "tipH (example_start 0) = 100" "opt (example_start 0) = example_options 0"
    "canon (example_start 0) = Map.empty" "reanchored (example_start 0) = 0"
    by (simp_all add: example_start_def)
  have re: "reanchored (putLocked k y e u) = reanchored u" for k y e u
    by (simp add: putLocked_def set_entry_def Let_def)
  have ex: "example_vouched = bumpObserved (extendTip x2 151 s2)"
    using d w by (simp add: example_vouched_def Observe_def Let_def h b resolveParent_def
        reanchorParent_def commitHeader_def store_simps s1_def s2_def re)
  have c: "canon s2 = Map.empty" "byHash s2 = [replicate 32 1 \<mapsto> 100, example_x1 \<mapsto> 150, x2 \<mapsto> 151]"
    "opt s2 = example_options 0"
    "entry_at s2 151 x2 = Some \<lparr>e_root = replicate 32 6, e_prev = example_x1, viaAnchor = False\<rparr>"
    "entry_at s2 150 example_x1 = Some ?a"
    by (simp_all add: s1_def s2_def store_simps b)
  have r: "recanon (byHash s2) (at_height s2) x2 151 Map.empty = [151 \<mapsto> x2, 150 \<mapsto> example_x1]"
  proof -
    have "canon_parent (byHash s2) (at_height s2) x2 151 = Some example_x1"
      "canon_parent (byHash s2) (at_height s2) example_x1 150 = None"
      unfolding canon_parent_entry using d by (simp_all add: c)
    then show ?thesis by (simp add: recanon_walk [of _ _ x2] recanon_walk [of _ _ example_x1])
  qed
  have e: "extendTip x2 151 s2 = s2\<lparr>tip := x2, tipH := 151, canon := [151 \<mapsto> x2, 150 \<mapsto> example_x1]\<rparr>"
    using r by (simp add: extendTip_def recanonLocked_def pruneLocked_def c example_options_def)
  show "byHash example_vouched example_x1 = Some 150" "opt example_vouched = example_options 0"
    "canonical_entry example_vouched 150 = Some (example_x1, ?a)"
    using d c(5) by (simp_all add: ex e bumpObserved_def c(1-4) canonical_entry_def entry_at_def)
qed

theorem redelivery_keeps_anchor_root_witness:
  "\<exists>ob t. Observe example_sha None example_h1 example_vouched = ((ob, None), t) \<and> Known 150 t \<and>
     hdr_root example_h1 = replicate 32 5 \<and> fst (RootAt None 150 t) = Inr (Some (replicate 32 9))"
proof -
  have w: "checkWork (opt example_vouched) (headerHash example_sha example_h1) (hdr_bits example_h1) = Inr ()"
    using example_work [of example_x1 0] example_header_fields(5) [of "replicate 32 1" "replicate 32 5"]
    by (simp add: example_vouched_parent example_h1_fields(2)) (simp add: example_h1_def example_x1_def)
  from redelivery_keeps_anchor_root [OF example_h1_fields(1) w, of 150 _ None None]
  show ?thesis by (simp add: example_h1_fields example_vouched_parent) (metis fst_conv)
qed

text \<open>
  A completed warm-up makes the past readable without the anchor service: on a fresh store,
  when the service answers every height asked for, the warm-up loads exactly the newest
  \<open>min depth 32768\<close> heights up to the anchor (or all of them), reports no failure, and each of those
  heights is afterwards answered from the cache with no fallback at all and booked as history.
\<close>

theorem warm_history_readable:
  assumes "New o' = Inr s" "anchor_height (Anchor o') \<noteq> - 1" "depth \<noteq> 0" "32768 \<le> sent"
    and "d = (if unat depth > fallbackCap div 2 then word_of_nat (fallbackCap div 2) else depth)"
    and "\<forall>h. warm_low (anchor_height (Anchor o')) d \<le> h \<and> h \<le> anchor_height (Anchor o') \<longrightarrow>
           fb h = Inr (Some (rt h))"
    and "Warm (Some fb) depth sent (\<lambda>_. True) False s = (err, t, w)"
  shows "err = None \<and> Done w \<and> Loaded w = Target w \<and> Failed w = 0 \<and>
    unat (Target w) = min (unat d) (unat (anchor_height (Anchor o')) + 1) \<and>
    (\<forall>h. warm_low (anchor_height (Anchor o')) d \<le> h \<and> h \<le> anchor_height (Anchor o') \<longrightarrow>
       RootAt None h t = (Inr (Some (rt h)), t\<lparr>fromHistory := fromHistory t + 1\<rparr>))"
proof -
  define top where "top = anchor_height (Anchor o')"
  define low where "low = warm_low top d"
  define hs where "hs = warm_heights top low"
  have s: "opt s = o'" "fallbackRoots s = []" "canon s = Map.empty" "historyTop s = top"
    using assms(1) by (auto simp: New_def top_def split: if_splits)
  have d: "d \<noteq> 0" "unat d \<le> 32768"
    using assms(3) by (simp_all add: assms(5) fallbackCap_def not_less unat_of_nat)
  note b = warm_low_bounds [OF assms(2) [folded top_def] d(1), folded low_def]
  have len: "length hs = min (unat d) (unat top + 1)"
    using b by (simp add: hs_def warm_heights_length)
  have hs: "set hs = {low..top}" unfolding hs_def using b(1) by (rule warm_heights_set)
  have full: "take sent hs = hs" using len d(2) assms(4) by simp
  have target: "ucast (top - low) + 1 = (of_nat (length hs) :: u64)"
  proof -
    have "unat (top - low) + 1 = length hs" using b by (simp add: unat_sub len)
    then have "of_nat (length hs) = (of_nat (unat (top - low)) + 1 :: u64)" by (metis of_nat_1 of_nat_add)
    then show ?thesis by simp
  qed
  let ?w = "\<lparr>Target = ucast (top - low) + 1, Loaded = 0, Failed = 0, Done = False\<rparr>"
  obtain v where run: "warm_run fb (map (\<lambda>h. (h, True)) hs) (s, ?w) = (t, v)"
    and w: "w = v\<lparr>Done := True\<rparr>" "err = None"
    using assms(7,3) full s(1)
    by (auto simp: Warm_def Let_def assms(5) [symmetric] top_def low_def hs_def split: prod.splits)
  have all: "\<forall>h\<in>set hs. fb h = Inr (Some (rt h))" using assms(6) by (simp add: hs top_def low_def)
  have room: "length (fallbackRoots s) + length hs \<le> fallbackCap"
    using len d(2) by (simp add: s fallbackCap_def)
  note r = warm_run_all [OF run all room]
  have sc: "same_chain s t" using same_chain_warm_run [of s fb "map (\<lambda>h. (h, True)) hs" ?w] by (simp add: run)
  have "RootAt None h t = (Inr (Some (rt h)), t\<lparr>fromHistory := fromHistory t + 1\<rparr>)" if "low \<le> h" "h \<le> top" for h
    using that r hs sc s by (simp add: RootAt_def canonical_entry_def same_chain_def bookAnchoredLocked_def)
  moreover have "unat (Target v) = length hs"
    using r len d(2) by (simp add: target unat_of_nat)
  ultimately show ?thesis using r w len target by (simp add: top_def low_def)
qed

theorem warm_history_readable_witness:
  "\<exists>t w. Warm (Some (\<lambda>_. Inr (Some (replicate 32 7)))) 3 40000 (\<lambda>_. True) False (example_start 0) = (None, t, w) \<and>
     unat (Target w) = 3 \<and> Loaded w = Target w \<and> fst (RootAt None 99 t) = Inr (Some (replicate 32 7))"
proof -
  let ?fb = "\<lambda>_. Inr (Some (replicate 32 7)) :: hdr_err + hash option"
  obtain err t w where r: "Warm (Some ?fb) 3 40000 (\<lambda>_. True) False (example_start 0) = (err, t, w)"
    by (metis prod_cases3)
  have a: "anchor_height (Anchor (example_options 0)) = 100" by (simp add: example_options_def)
  have l: "warm_low 100 3 = 98" by (simp add: warm_low_def)
  from warm_history_readable [OF example_New _ _ _ _ _ r, of 3 "\<lambda>_. replicate 32 7"]
  show ?thesis by (simp add: a l r fallbackCap_def)
qed

text \<open>
  The cache of fallback roots is bounded whatever is asked of it: no run of reads, warm-ups and
  headers makes it hold more than \<open>fallbackCap\<close> roots, or two roots for one height.
\<close>

theorem fallback_cache_bounded:
  assumes "New o' = Inr s" "run (store_step sha) s es t"
  shows "length (fallbackRoots t) \<le> 65536 \<and> distinct (map fst (fallbackRoots t))"
  using cache.invar_reach [of o' s sha es t] assms
  by (simp add: started_def cache_inv_def fallbackCap_def)

theorem fallback_cache_bounded_witness:
  "length (fallbackRoots (example_store1 0)) \<le> 65536 \<and> distinct (map fst (fallbackRoots (example_store1 0)))"
  by (rule fallback_cache_bounded [OF example_New example_run1])

end
