(* ===== verification/Header_Serve.thy ===== *)
theory Header_Serve
  imports Header_Props Go_Strings
begin

text \<open>
  Who reads the header store: the SDK chain tracker (\<^verbatim>\<open>src/headers/tracker.go\<close>), the lane handler that
  advances it (\<^verbatim>\<open>headerHandler\<close> of \<^verbatim>\<open>src/cmd/overlay-bridge/main.go\<close>), the HTTP read surface
  (\<^verbatim>\<open>src/headers/api.go\<close>) and the remote client of that surface (\<^verbatim>\<open>src/headers/chainclient\<close>). The SDK's
  rendering of a hash and its parser are the arguments \<open>hstr\<close> and \<open>newHashFromHex\<close>; the HTTP transport
  between client and server is an argument too, instantiated by the server itself in the last
  section. What a reader relies on is the contract \<open>root_provider\<close>, which the store implements.
\<close>

section \<open>Tracker\<close>

text \<open>\<^verbatim>\<open>RootSource.RootAt\<close> of a source with state: the answer and the state after it.\<close>

type_synonym ('s, 'e) root_reader = "u32 \<Rightarrow> 's \<Rightarrow> ('e + hash option) \<times> 's"

record tracker =
  t_height :: u32

definition NewTracker :: tracker where
  "NewTracker = \<lparr>t_height = 0\<rparr>"

definition Learn :: "u32 \<Rightarrow> tracker \<Rightarrow> tracker" where
  "Learn h t = (if h > t_height t then t\<lparr>t_height := h\<rparr> else t)"

definition IsValidRootForHeight ::
    "('s, 'e) root_reader \<Rightarrow> hash option \<Rightarrow> u32 \<Rightarrow> 's \<Rightarrow> ('e + bool) \<times> 's" where
  "IsValidRootForHeight rootAt root h s = (case root of
      None \<Rightarrow> (Inr False, s)
    | Some r \<Rightarrow> (case rootAt h s of
        (Inl err, s') \<Rightarrow> (Inl err, s')
      | (Inr None, s') \<Rightarrow> (Inr False, s')
      | (Inr (Some got), s') \<Rightarrow> (Inr (got = r), s')))"

definition CurrentHeight :: "tracker \<Rightarrow> u32" where
  "CurrentHeight t = t_height t"

section \<open>The lane's handler\<close>

datatype lane_err = LaneReject hdr_err | LaneOther hdr_err

definition headerHandler ::
    "(bytes \<Rightarrow> bytes) \<Rightarrow> header_at option \<Rightarrow> bytes \<Rightarrow> store \<times> tracker \<Rightarrow> lane_err option \<times> store \<times> tracker" where
  "headerHandler sha lk hdr st = (case st of (s, tr) \<Rightarrow>
     (case Observe sha lk hdr s of
        ((_, Some err), s') \<Rightarrow>
          (Some (if err = ErrProofOfWork \<or> err = ErrHeaderSize then LaneReject err else LaneOther err), s', tr)
      | ((obs, None), s') \<Rightarrow> (None, s', if Tip obs then Learn (o_Height obs) tr else tr)))"

section \<open>What a reader relies on\<close>

text \<open>
  A provider of roots: the roots it vouches for (\<open>view\<close>) are what a read answers, and reading
  changes none of them.
\<close>

locale root_provider =
  fixes rootAt :: "('s, 'e) root_reader"
    and view :: "'s \<Rightarrow> u32 \<Rightarrow> hash option"
  assumes answers_view: "view s h = Some r \<Longrightarrow> fst (rootAt h s) = Inr (Some r)"
    and view_kept: "view (snd (rootAt h s)) = view s"
begin

lemma valid_iff_view:
  "view s h = Some r \<Longrightarrow> fst (IsValidRootForHeight rootAt (Some q) h s) = Inr (r = q)"
  using answers_view [of s h r] by (auto simp: IsValidRootForHeight_def split: prod.splits sum.splits)

lemma valid_keeps_view: "view (snd (IsValidRootForHeight rootAt q h s)) = view s"
  using view_kept [of h s]
  by (auto simp: IsValidRootForHeight_def split: prod.splits sum.splits option.splits)

text \<open>Once a vouched root has been refused, no number of reads makes it valid, and the other way round.\<close>

lemma verdict_stable:
  "view s h = Some r \<Longrightarrow>
   fst (IsValidRootForHeight rootAt (Some q) h (fold (\<lambda>(q', h') u. snd (IsValidRootForHeight rootAt q' h' u)) reads s)) =
   Inr (r = q)"
proof -
  assume v: "view s h = Some r"
  have "view (fold (\<lambda>(q', h') u. snd (IsValidRootForHeight rootAt q' h' u)) reads s) = view s"
    by (induction reads arbitrary: s) (auto simp: valid_keeps_view)
  with v show ?thesis by (simp add: valid_iff_view)
qed

end

definition canonical_root :: "store \<Rightarrow> u32 \<Rightarrow> hash option" where
  "canonical_root s h = map_option (\<lambda>(x, e). e_root e) (canonical_entry s h)"

lemma canonical_root_same_chain: "same_chain s t \<Longrightarrow> canonical_root t = canonical_root s"
proof -
  assume sc: "same_chain s t"
  then have "canon t = canon s" by (simp add: same_chain_def)
  then show ?thesis
    unfolding fun_eq_iff canonical_root_def canonical_entry_def same_chain_entry [OF sc] by simp
qed

interpretation st: root_provider "RootAt fb" canonical_root for fb
proof unfold_locales
  show "fst (RootAt fb h s) = Inr (Some r)" if "canonical_root s h = Some r" for s h r
    using that by (auto simp: canonical_root_def RootAt_def)
  show "canonical_root (snd (RootAt fb h s)) = canonical_root s" for h s
    by (rule canonical_root_same_chain [OF same_chain_RootAt])
qed

section \<open>The read API\<close>

text \<open>\<^verbatim>\<open>encoding/json\<close> values as far as the API writes them.\<close>

datatype json = JStr string | JNum nat | JBool bool

type_synonym json_body = "(string \<times> json) list"

datatype request =
    GetTip
  | GetRoot string
  | GetHeader string
  | GetHeight
  | GetHeaderHeight string
  | GetHealth

record response =
  status :: nat
  body :: "json_body option"

text \<open>\<^verbatim>\<open>strconv.ParseUint(raw, 10, 32)\<close>: digits only, at least one, and within 32 bits.\<close>

fun parse_digits :: "nat \<Rightarrow> string \<Rightarrow> nat option" where
  "parse_digits acc [] = Some acc"
| "parse_digits acc (c # cs) =
     (let d = of_char c :: nat in
      if d < 48 \<or> 57 < d then None
      else if 2 ^ 32 \<le> 10 * acc + (d - 48) then None
      else parse_digits (10 * acc + (d - 48)) cs)"

definition parseHeight :: "string \<Rightarrow> u32 option" where
  "parseHeight raw = (if raw = [] then None else map_option word_of_nat (parse_digits 0 raw))"

definition writeJSON :: "nat \<Rightarrow> json_body \<Rightarrow> response" where
  "writeJSON code v = \<lparr>status = code, body = Some v\<rparr>"

definition bad_height :: response where
  "bad_height = writeJSON 400 [(''error'', JStr ''height must be an unsigned integer'')]"

definition api_tip :: "(hash \<Rightarrow> string) \<Rightarrow> store \<Rightarrow> response \<times> store" where
  "api_tip hstr s = (let (x, h) = TipOf s in
     (writeJSON 200 [(''hash'', JStr (hstr x)), (''height'', JNum (unat h)), (''known'', JBool (Known h s))], s))"

definition api_root :: "(hash \<Rightarrow> string) \<Rightarrow> root_source option \<Rightarrow> string \<Rightarrow> store \<Rightarrow> response \<times> store" where
  "api_root hstr fb raw s = (case parseHeight raw of
      None \<Rightarrow> (bad_height, s)
    | Some h \<Rightarrow> (case RootAt fb h s of
        (Inr (Some root), s') \<Rightarrow>
          (writeJSON 200 [(''height'', JNum (unat h)), (''merkleRoot'', JStr (hstr root)),
             (''known'', JBool (Known h s'))], s')
      | (_, s') \<Rightarrow> (writeJSON 404 [(''height'', JNum (unat h))], s')))"

definition api_header ::
    "(hash \<Rightarrow> string) \<Rightarrow> (string \<Rightarrow> hash option) \<Rightarrow> string \<Rightarrow> store \<Rightarrow> response \<times> store" where
  "api_header hstr newHashFromHex raw s = (case newHashFromHex raw of
      None \<Rightarrow> (writeJSON 400 [(''error'', JStr ''hash'')], s)
    | Some x \<Rightarrow> (case HeaderByHash x s of
        None \<Rightarrow> (writeJSON 404 [(''hash'', JStr (hstr x))], s)
      | Some (h, root, received) \<Rightarrow>
          (writeJSON 200 [(''hash'', JStr (hstr x)), (''height'', JNum (unat h)),
             (''merkleRoot'', JStr (hstr root)), (''known'', JBool received)], s)))"

definition api_height :: "store \<Rightarrow> response \<times> store" where
  "api_height s = (writeJSON 200 [(''height'', JNum (unat (snd (TipOf s))))], s)"

definition api_header_height ::
    "(hash \<Rightarrow> string) \<Rightarrow> header_source option \<Rightarrow> string \<Rightarrow> store \<Rightarrow> response \<times> store" where
  "api_header_height hstr hs raw s = (case parseHeight raw of
      None \<Rightarrow> (bad_height, s)
    | Some h \<Rightarrow> (case HeaderForHeight hs h s of
        (Inl _, s') \<Rightarrow> (\<lparr>status = 404, body = None\<rparr>, s')
      | (Inr (x, root, _), s') \<Rightarrow>
          (writeJSON 200 [(''height'', JNum (unat h)), (''hash'', JStr (hstr x)),
             (''merkleRoot'', JStr (hstr root))], s')))"

definition api_handler ::
    "(hash \<Rightarrow> string) \<Rightarrow> (string \<Rightarrow> hash option) \<Rightarrow> root_source option \<Rightarrow> header_source option \<Rightarrow>
     request \<Rightarrow> store \<Rightarrow> response \<times> store" where
  "api_handler hstr newHashFromHex fb hs req s = (case req of
      GetTip \<Rightarrow> api_tip hstr s
    | GetRoot raw \<Rightarrow> api_root hstr fb raw s
    | GetHeader raw \<Rightarrow> api_header hstr newHashFromHex raw s
    | GetHeight \<Rightarrow> api_height s
    | GetHeaderHeight raw \<Rightarrow> api_header_height hstr hs raw s
    | GetHealth \<Rightarrow> (\<lparr>status = 200, body = None\<rparr>, s))"

definition api_prefix :: "string \<Rightarrow> string" where
  "api_prefix p = (if p \<noteq> [] then ''/'' @ rev (dropWhile (\<lambda>c. c = CHR ''/'') (rev (dropWhile (\<lambda>c. c = CHR ''/'') p)))
     else ''/chaintracks/v2'')"

section \<open>The remote client\<close>

datatype client_err =
    ErrTransport
  | ErrDecode
  | ErrStatus nat
  | ErrBadRoot

definition trim_suffix :: "string \<Rightarrow> string \<Rightarrow> string" where
  "trim_suffix suf s = (if suf = drop (length s - length suf) s \<and> length suf \<le> length s
     then take (length s - length suf) s else s)"

definition origin :: "string \<Rightarrow> string" where
  "origin base = trim_suffix ''/v1'' (trim_right_slash base)"

text \<open>
  A transport answers a request with an error, or with a status and a body that may not decode.
  \<open>client_get\<close> decodes the body on 200 only, and leaves the caller's struct at its zero value otherwise.
\<close>

type_synonym 'w transport = "request \<Rightarrow> 'w \<Rightarrow> (response option) \<times> 'w"

definition client_get :: "'w transport \<Rightarrow> request \<Rightarrow> 'w \<Rightarrow> (client_err + nat \<times> json_body) \<times> 'w" where
  "client_get tp req w = (case tp req w of
      (None, w') \<Rightarrow> (Inl ErrTransport, w')
    | (Some resp, w') \<Rightarrow>
        if status resp \<noteq> 200 then (Inr (status resp, []), w')
        else (case body resp of None \<Rightarrow> (Inl ErrDecode, w') | Some b \<Rightarrow> (Inr (status resp, b), w')))"

text \<open>Decoding into a struct: an absent field keeps its zero value, one of another type is an error.\<close>

definition str_field :: "string \<Rightarrow> json_body \<Rightarrow> string option" where
  "str_field k b = (case map_of b k of None \<Rightarrow> Some '''' | Some (JStr v) \<Rightarrow> Some v | Some _ \<Rightarrow> None)"

definition u32_field :: "string \<Rightarrow> json_body \<Rightarrow> u32 option" where
  "u32_field k b = (case map_of b k of
      None \<Rightarrow> Some 0
    | Some (JNum n) \<Rightarrow> if n < 2 ^ 32 then Some (word_of_nat n) else None
    | Some _ \<Rightarrow> None)"

definition Client_IsValidRootForHeight ::
    "(string \<Rightarrow> hash option) \<Rightarrow> 'w transport \<Rightarrow> hash option \<Rightarrow> u32 \<Rightarrow> 'w \<Rightarrow> (client_err + bool) \<times> 'w" where
  "Client_IsValidRootForHeight newHashFromHex tp root h w = (case root of
      None \<Rightarrow> (Inr False, w)
    | Some r \<Rightarrow> (case client_get tp (GetRoot (dec (unat h))) w of
        (Inl err, w') \<Rightarrow> (Inl err, w')
      | (Inr (code, b), w') \<Rightarrow>
          if code = 404 then (Inr False, w')
          else if code \<noteq> 200 then (Inl (ErrStatus code), w')
          else (case str_field ''merkleRoot'' b of
              None \<Rightarrow> (Inl ErrDecode, w')
            | Some txt \<Rightarrow> (case newHashFromHex txt of
                None \<Rightarrow> (Inl ErrBadRoot, w')
              | Some got \<Rightarrow> (Inr (got = r), w')))))"

definition Client_CurrentHeight :: "'w transport \<Rightarrow> 'w \<Rightarrow> (client_err + u32) \<times> 'w" where
  "Client_CurrentHeight tp w = (case client_get tp GetTip w of
      (Inl err, w') \<Rightarrow> (Inl err, w')
    | (Inr (code, b), w') \<Rightarrow>
        if code \<noteq> 200 then (Inl (ErrStatus code), w')
        else (case u32_field ''height'' b of None \<Rightarrow> (Inl ErrDecode, w') | Some h \<Rightarrow> (Inr h, w')))"

section \<open>Decimal heights survive the URL\<close>

lemma parse_digits_append:
  "parse_digits acc (xs @ ys) = (case parse_digits acc xs of None \<Rightarrow> None | Some a \<Rightarrow> parse_digits a ys)"
  by (induction xs arbitrary: acc) (auto simp: Let_def)

lemma digit_char: "d < 10 \<Longrightarrow> (of_char (char_of (48 + d) :: char) :: nat) = 48 + d"
  by simp

lemma parse_dec: "n < 2 ^ 32 \<Longrightarrow> parse_digits 0 (dec n) = Some n"
proof (induction n rule: dec.induct)
  case (1 n)
  show ?case
  proof (cases "n < 10")
    case False
    then have "parse_digits 0 (dec (n div 10)) = Some (n div 10)" using 1 by simp
    moreover have "10 * (n div 10) + n mod 10 = n" by simp
    ultimately show ?thesis
      using False 1(2) by (subst dec.simps) (simp add: parse_digits_append Let_def)
  qed (subst dec.simps, simp add: Let_def)
qed

lemma parseHeight_dec: "parseHeight (dec (unat h)) = Some h"
proof -
  have "unat h < 2 ^ 32" using unsigned_less [of h] by simp
  then show ?thesis by (simp add: parseHeight_def dec_nonempty parse_dec del: power_numeral)
qed

section \<open>The handler's runs\<close>

inductive handler_step ::
    "(bytes \<Rightarrow> bytes) \<Rightarrow> store \<times> tracker \<Rightarrow> store_event \<Rightarrow> store \<times> tracker \<Rightarrow> bool"
  for sha :: "bytes \<Rightarrow> bytes" where
  header: "below_max s (ObserveEv lk hdr) \<Longrightarrow> headerHandler sha lk hdr (s, tr) = (err, s', tr') \<Longrightarrow>
    handler_step sha (s, tr) (ObserveEv lk hdr) (s', tr')"
| read: "store_step sha s ev s' \<Longrightarrow> (\<nexists>lk hdr. ev = ObserveEv lk hdr) \<Longrightarrow> handler_step sha (s, tr) ev (s', tr)"

definition handler_start :: "options \<Rightarrow> store \<times> tracker \<Rightarrow> bool" where
  "handler_start o' st \<longleftrightarrow> New o' = Inr (fst st) \<and> snd st = NewTracker"

text \<open>The tracker reports nothing until a header moves the tip, and the tip from then on.\<close>

definition tracks :: "options \<Rightarrow> store \<times> tracker \<Rightarrow> bool" where
  "tracks o' st \<longleftrightarrow> chain_ok (fst st) \<and>
     (CurrentHeight (snd st) = tipH (fst st) \<and> anchor_height (Anchor o') < tipH (fst st) \<or>
      CurrentHeight (snd st) = 0 \<and> tipH (fst st) = anchor_height (Anchor o'))"

lemma tracks_header:
  assumes sha: "no_self_parent sha" and t: "tracks o' (s, tr)" and low: "below_max s (ObserveEv lk hdr)"
    and h: "headerHandler sha lk hdr (s, tr) = (err, s', tr')"
  shows "tracks o' (s', tr')"
proof -
  obtain ob e where o: "Observe sha lk hdr s = ((ob, e), s')"
    and tr: "tr' = (if e = None \<and> Tip ob then Learn (o_Height ob) tr else tr)"
    using h by (auto simp: headerHandler_def split: prod.splits option.splits)
  have ok: "store_inv s" "tip_top s" "chain_ok s" using t by (auto simp: tracks_def chain_ok_def)
  note ot = Observe_tip [OF ok(1,2) low o]
  have ok': "chain_ok s'" using chain_ok_Observe [OF sha ok(3) low o] .
  show ?thesis
  proof (cases "Tip ob")
    case True
    then have "e = None" using Observe_tip_served(3) [OF o] by simp
    then have "CurrentHeight tr' = tipH s'" "anchor_height (Anchor o') < tipH s'"
      using True ot(3) t tr by (auto simp: tracks_def Learn_def CurrentHeight_def word_gt_0)
    with ok' show ?thesis by (simp add: tracks_def)
  next
    case False
    then show ?thesis using ot(4) t tr ok' by (simp add: tracks_def)
  qed
qed

lemma tipH_New: "New o' = Inr s \<Longrightarrow> tipH s = anchor_height (Anchor o')"
  by (auto simp: New_def split: if_splits)

interpretation handler: transition_system "handler_start o'" "handler_step sha"
  "\<lambda>st. no_self_parent sha \<longrightarrow> tracks o' st" for o' sha
proof unfold_locales
  show "no_self_parent sha \<longrightarrow> tracks o' st" if "handler_start o' st" for st
  proof -
    have n: "New o' = Inr (fst st)" "snd st = NewTracker" using that by (simp_all add: handler_start_def)
    then have "tipH (fst st) = anchor_height (Anchor o')" by (simp add: tipH_New)
    then show ?thesis using chain_ok_New [OF n(1)] n(2) by (simp add: tracks_def NewTracker_def CurrentHeight_def)
  qed
  show "no_self_parent sha \<longrightarrow> tracks o' t"
    if i: "no_self_parent sha \<longrightarrow> tracks o' st" and "handler_step sha st ev t" for st ev t
    using that(2)
  proof cases
    case (header s lk hdr tr err s' tr')
    then show ?thesis using i tracks_header by blast
  next
    case (read s s' tr)
    then have "same_chain s s'" by (auto elim: store_step_cases)
    then show ?thesis using i read by (auto simp: tracks_def same_chain_ok) (auto simp: same_chain_def)
  qed
qed

section \<open>What readers are told\<close>

text \<open>The server as the client's transport: every request reaches the mux and its reply comes back.\<close>

definition api_transport ::
    "(hash \<Rightarrow> string) \<Rightarrow> (string \<Rightarrow> hash option) \<Rightarrow> root_source option \<Rightarrow> header_source option \<Rightarrow> store transport" where
  "api_transport hstr newHashFromHex fb hs req s =
     (case api_handler hstr newHashFromHex fb hs req s of (resp, s') \<Rightarrow> (Some resp, s'))"

text \<open>
  C16. The remote client is the in-process tracker: over the bridge's own API, with a rendering of
  hashes that parses back, the HTTP client gives the verdict the in-process tracker gives on the same
  store and leaves the store in the same state, except that a source error becomes "not valid"; and
  its height is the store's tip.
\<close>

theorem remote_client_agrees_with_tracker:
  assumes "\<forall>x. newHashFromHex (hstr x) = Some x"
  shows "Client_IsValidRootForHeight newHashFromHex (api_transport hstr newHashFromHex fb hs) root h s =
      (case IsValidRootForHeight (RootAt fb) root h s of
         (Inl _, s') \<Rightarrow> (Inr False, s') | (Inr v, s') \<Rightarrow> (Inr v, s')) \<and>
    Client_CurrentHeight (api_transport hstr newHashFromHex fb hs) s = (Inr (snd (TipOf s)), s)"
proof -
  have u: "unat (tipH s) < 2 ^ 32" using unsigned_less [of "tipH s"] by simp
  have "Client_CurrentHeight (api_transport hstr newHashFromHex fb hs) s = (Inr (snd (TipOf s)), s)"
    using u by (simp add: Client_CurrentHeight_def client_get_def api_transport_def api_handler_def
        api_tip_def TipOf_def writeJSON_def u32_field_def del: power_numeral)
  moreover obtain r t where r: "RootAt fb h s = (r, t)" by force
  then have "Client_IsValidRootForHeight newHashFromHex (api_transport hstr newHashFromHex fb hs) root h s =
      (case IsValidRootForHeight (RootAt fb) root h s of
         (Inl _, s') \<Rightarrow> (Inr False, s') | (Inr v, s') \<Rightarrow> (Inr v, s'))"
    using assms by (auto simp: Client_IsValidRootForHeight_def IsValidRootForHeight_def client_get_def
        api_transport_def api_handler_def api_root_def parseHeight_dec writeJSON_def str_field_def
        split: option.splits sum.splits)
  ultimately show ?thesis by blast
qed

definition example_hstr :: "hash \<Rightarrow> string" where
  "example_hstr = map (\<lambda>b. char_of (unat b))"

definition example_parse :: "string \<Rightarrow> hash option" where
  "example_parse t = Some (map (\<lambda>c. word_of_nat (of_char c)) t)"

lemma example_hash_text: "example_parse (example_hstr x) = Some x"
proof -
  have "(word_of_nat (of_char (char_of (unat b) :: char)) :: byte) = b" for b :: byte
    using unsigned_less [of b, where 'a = nat] by (simp add: of_char_of)
  then show ?thesis by (simp add: example_parse_def example_hstr_def o_def)
qed

theorem remote_client_agrees_with_tracker_witness:
  "fst (Client_IsValidRootForHeight example_parse (api_transport example_hstr example_parse None None)
     (Some (replicate 32 5)) 101 (example_store1 0)) = Inr True"
proof -
  obtain ob where o: "Observe example_sha None example_h1 (example_start 0) = ((ob, None), example_store1 0)"
    "Tip ob" "o_Height ob = 101" by (rule example_observe1)
  have "fst (IsValidRootForHeight (RootAt None) (Some (replicate 32 5)) 101 (example_store1 0)) = Inr True"
    using Observe_tip_served(1) [OF o(1,2)]
    by (subst st.valid_iff_view [of _ _ "replicate 32 5"])
      (simp_all add: canonical_root_def o(3) example_h1_fields)
  then show ?thesis
    using remote_client_agrees_with_tracker [of example_parse example_hstr None None] example_hash_text
    by (auto split: prod.splits sum.splits)
qed

text \<open>
  C19. The reported height follows the tip and nothing else: over any run of the lane's handler
  and of reads (heights short of the 32-bit limit), the tracker reports the store's tip height as
  soon as one header has moved the tip above the anchor, and zero before, although the store's own
  tip is the anchor's height from the start.
\<close>

theorem tracker_height_follows_tip:
  assumes "no_self_parent sha" "New o' = Inr s" "run (handler_step sha) (s, NewTracker) es (t, tr)"
  shows "(if anchor_height (Anchor o') < tipH t then CurrentHeight tr = tipH t
          else CurrentHeight tr = 0 \<and> tipH t = anchor_height (Anchor o'))"
  using handler.invar_reach [of o' "(s, NewTracker)" sha es "(t, tr)"] assms
  by (auto simp: handler_start_def tracks_def)

theorem tracker_height_follows_tip_witness:
  "\<exists>tr. run (handler_step example_sha) (example_start 0, NewTracker) [ObserveEv None example_h1]
       (example_store1 0, tr) \<and> CurrentHeight tr = 101"
proof -
  obtain ob where o: "Observe example_sha None example_h1 (example_start 0) = ((ob, None), example_store1 0)"
    "Tip ob" "o_Height ob = 101" by (rule example_observe1)
  let ?tr = "Learn 101 NewTracker"
  have low: "below_max (example_start 0) (ObserveEv None example_h1)" by (simp add: example_start_def)
  have "headerHandler example_sha None example_h1 (example_start 0, NewTracker) = (None, example_store1 0, ?tr)"
    using o by (simp add: headerHandler_def)
  then have "handler_step example_sha (example_start 0, NewTracker) (ObserveEv None example_h1) (example_store1 0, ?tr)"
    by (rule handler_step.header [OF low])
  then have r: "run (handler_step example_sha) (example_start 0, NewTracker) [ObserveEv None example_h1]
       (example_store1 0, ?tr)"
    by (simp add: run_Cons_iff)
  have "tipH (example_store1 0) = 101" using Observe_tip_served(2) [OF o(1,2)] o(3) by (simp add: TipOf_def)
  with tracker_height_follows_tip [OF example_no_self_parent example_New r] r show ?thesis
    by (auto simp: example_options_def)
qed

text \<open>
  No reply invents a header: a request whose height is not a decimal 32-bit number is
  answered 400 and changes nothing; any other chaintracks header request is answered 404 or with the
  hash and root of one and the same header, the canonical one where the store holds the height and
  otherwise the header service's answer for exactly that height.
\<close>

theorem header_reply_names_one_header:
  assumes "api_handler hstr newHashFromHex fb hs (GetHeaderHeight raw) s = (resp, t)"
  shows "(case parseHeight raw of
      None \<Rightarrow> status resp = 400 \<and> t = s
    | Some h \<Rightarrow> (status resp = 404 \<and> body resp = None \<and> canonical_entry s h = None) \<or>
        (\<exists>x root. resp = writeJSON 200 [(''height'', JNum (unat h)), (''hash'', JStr (hstr x)),
             (''merkleRoot'', JStr (hstr root))] \<and>
           (case canonical_entry s h of
              Some (y, e) \<Rightarrow> x = y \<and> root = e_root e
            | None \<Rightarrow> \<exists>f. hs = Some f \<and> f h = Inr (x, root))))"
  using assms
  by (auto simp: api_handler_def api_header_height_def bad_height_def writeJSON_def HeaderForHeight_def
      split: option.splits sum.splits prod.splits)

theorem header_reply_names_one_header_witness:
  "status (fst (api_handler example_hstr example_parse None None (GetHeaderHeight ''-1'') (example_start 0))) = 400 \<and>
   status (fst (api_handler example_hstr example_parse None None (GetHeaderHeight ''7'') (example_start 0))) = 404"
proof -
  have bad: "parseHeight ''-1'' = None" and ok: "parseHeight ''7'' = Some 7"
    by (simp_all add: parseHeight_def Let_def)
  obtain r t where r: "api_handler example_hstr example_parse None None (GetHeaderHeight ''-1'') (example_start 0) = (r, t)"
    by force
  obtain q u where q: "api_handler example_hstr example_parse None None (GetHeaderHeight ''7'') (example_start 0) = (q, u)"
    by force
  have "canonical_entry (example_start 0) 7 = None" by (simp add: canonical_entry_def example_start_def)
  then show ?thesis
    using header_reply_names_one_header [OF r] header_reply_names_one_header [OF q] r q by (simp add: bad ok)
qed

text \<open>
  The client's base may carry a trailing slash, a version segment or both: all four spellings
  of a base that ends in neither resolve to the same origin.
\<close>

theorem origin_accepts_both_spellings:
  assumes "base = [] \<or> last base \<noteq> CHR ''/''" and "\<nexists>b. base = b @ ''/v1''"
  shows "origin base = base \<and> origin (base @ ''/'') = base \<and> origin (base @ ''/v1'') = base \<and>
    origin (base @ ''/v1/'') = base"
proof -
  have t: "trim_right_slash base = base"
    using assms(1) by (cases base rule: rev_cases) (auto simp: trim_right_slash_def)
  have keep: "trim_suffix ''/v1'' base = base"
    using assms(2) by (auto simp: trim_suffix_def) (metis append_take_drop_id)
  have "trim_suffix ''/v1'' (base @ ''/v1'') = base" by (simp add: trim_suffix_def)
  moreover have "trim_right_slash (base @ ''/'') = trim_right_slash base"
    "trim_right_slash (base @ ''/v1'') = base @ ''/v1''" "trim_right_slash (base @ ''/v1/'') = base @ ''/v1''"
    by (simp_all add: trim_right_slash_def)
  ultimately show ?thesis using t keep by (simp add: origin_def)
qed

theorem origin_accepts_both_spellings_witness: "origin ''http://headers.example:9178/v1/'' = ''http://headers.example:9178''"
proof -
  let ?b = "''http://headers.example:9178''"
  have "\<nexists>b. ?b = b @ ''/v1''"
  proof
    assume "\<exists>b. ?b = b @ ''/v1''"
    then obtain b where "rev ?b = rev ''/v1'' @ rev b" by (metis rev_append)
    then show False by simp
  qed
  then show ?thesis using origin_accepts_both_spellings [of ?b] by simp
qed

end
