(* ===== verification/Header_Anchor.thy ===== *)
theory Header_Anchor
  imports Header_Serve
begin

text \<open>
  The anchor client of \<^verbatim>\<open>src/cmd/overlay-bridge/anchor.go\<close> and the startup of the header store in
  \<^verbatim>\<open>src/cmd/overlay-bridge/main.go\<close>. The header service is a transport, as for the remote client.
\<close>

section \<open>The client\<close>

datatype anchor_err = AnchorTransport | AnchorDecode | AnchorStatus nat | AnchorBadHash | AnchorNoHash

definition anchor_get :: "'w transport \<Rightarrow> request \<Rightarrow> 'w \<Rightarrow> (anchor_err + json_body) \<times> 'w" where
  "anchor_get tp req w = (case tp req w of
      (None, w') \<Rightarrow> (Inl AnchorTransport, w')
    | (Some resp, w') \<Rightarrow>
        (if status resp \<noteq> 200 then Inl (AnchorStatus (status resp))
         else (case body resp of None \<Rightarrow> Inl AnchorDecode | Some b \<Rightarrow> Inr b), w'))"

record headerBody =
  hb_Height :: u32
  hb_Hash :: string
  hb_MerkleRoot :: string

definition decode_header :: "json_body \<Rightarrow> headerBody option" where
  "decode_header b = (case (u32_field ''height'' b, str_field ''hash'' b, str_field ''merkleRoot'' b) of
      (Some h, Some x, Some r) \<Rightarrow> Some \<lparr>hb_Height = h, hb_Hash = x, hb_MerkleRoot = r\<rparr>
    | _ \<Rightarrow> None)"

definition anchor_body :: "'w transport \<Rightarrow> request \<Rightarrow> 'w \<Rightarrow> (anchor_err + headerBody) \<times> 'w" where
  "anchor_body tp req w = (case anchor_get tp req w of
      (Inl e, w') \<Rightarrow> (Inl e, w')
    | (Inr b, w') \<Rightarrow> (case decode_header b of None \<Rightarrow> Inl AnchorDecode | Some hb \<Rightarrow> Inr hb, w'))"

definition anchor_tip :: "(string \<Rightarrow> hash option) \<Rightarrow> 'w transport \<Rightarrow> 'w \<Rightarrow> (anchor_err + anchor) \<times> 'w" where
  "anchor_tip newHashFromHex tp w = (case anchor_body tp GetTip w of
      (Inl e, w') \<Rightarrow> (Inl e, w')
    | (Inr b, w') \<Rightarrow> (case newHashFromHex (hb_Hash b) of
          None \<Rightarrow> Inl AnchorBadHash
        | Some h \<Rightarrow> Inr \<lparr>anchor_hash = h, anchor_height = hb_Height b\<rparr>, w'))"

definition anchor_RootAt :: "(string \<Rightarrow> hash option) \<Rightarrow> 'w transport \<Rightarrow> u32 \<Rightarrow> 'w \<Rightarrow> (anchor_err + hash) \<times> 'w" where
  "anchor_RootAt newHashFromHex tp height w = (case anchor_body tp (GetRoot (dec (unat height))) w of
      (Inl e, w') \<Rightarrow> (Inl e, w')
    | (Inr b, w') \<Rightarrow> (case newHashFromHex (hb_MerkleRoot b) of None \<Rightarrow> Inl AnchorBadHash | Some r \<Rightarrow> Inr r, w'))"

definition anchor_HeaderForHeight ::
    "(string \<Rightarrow> hash option) \<Rightarrow> 'w transport \<Rightarrow> u32 \<Rightarrow> 'w \<Rightarrow> (anchor_err + hash \<times> hash) \<times> 'w" where
  "anchor_HeaderForHeight newHashFromHex tp height w = (case anchor_body tp (GetRoot (dec (unat height))) w of
      (Inl e, w') \<Rightarrow> (Inl e, w')
    | (Inr b, w') \<Rightarrow> (case newHashFromHex (hb_MerkleRoot b) of
          None \<Rightarrow> Inl AnchorBadHash
        | Some root \<Rightarrow>
            if hb_Hash b = [] then Inl AnchorNoHash
            else (case newHashFromHex (hb_Hash b) of None \<Rightarrow> Inl AnchorBadHash | Some x \<Rightarrow> Inr (x, root)), w'))"

definition anchor_HeaderAt ::
    "(hash \<Rightarrow> string) \<Rightarrow> (string \<Rightarrow> hash option) \<Rightarrow> 'w transport \<Rightarrow> hash \<Rightarrow> 'w \<Rightarrow> (anchor_err + u32 \<times> hash) \<times> 'w" where
  "anchor_HeaderAt hstr newHashFromHex tp x w = (case anchor_body tp (GetHeader (hstr x)) w of
      (Inl e, w') \<Rightarrow> (Inl e, w')
    | (Inr b, w') \<Rightarrow> (case newHashFromHex (hb_MerkleRoot b) of
          None \<Rightarrow> Inl AnchorBadHash
        | Some root \<Rightarrow> Inr (hb_Height b, root), w'))"

section \<open>Starting the store\<close>

datatype build_err = AnchorFailed anchor_err | StoreFailed hdr_err

text \<open>The synthetic anchor of a sink without a header service: a hash whose first byte is one.\<close>

definition synthetic_anchor :: anchor where
  "synthetic_anchor = \<lparr>anchor_hash = 1 # replicate 31 0, anchor_height = 0\<rparr>"

definition buildStore :: "(string \<Rightarrow> hash option) \<Rightarrow> 'w transport \<Rightarrow> string \<Rightarrow> nat \<Rightarrow> nat \<Rightarrow> 'w \<Rightarrow> (build_err + store) \<times> 'w" where
  "buildStore newHashFromHex tp headerAnchor minBits window w =
    (let (a, w') = (if headerAnchor \<noteq> [] then anchor_tip newHashFromHex tp w else (Inr synthetic_anchor, w)) in
     (case a of
        Inl e \<Rightarrow> Inl (AnchorFailed e)
      | Inr an \<Rightarrow> (case New \<lparr>Anchor = an, MinBits = word_of_nat minBits, Window = word_of_nat window\<rparr> of
          Inl e \<Rightarrow> Inl (StoreFailed e)
        | Inr s \<Rightarrow> Inr s), w'))"

definition warmStore :: "string \<Rightarrow> nat \<Rightarrow> root_source option \<Rightarrow> nat \<Rightarrow> (u32 \<Rightarrow> bool) \<Rightarrow> bool \<Rightarrow> store \<Rightarrow> store" where
  "warmStore headerAnchor headerWarm fb sent live ended s =
    (if headerAnchor = [] \<or> headerWarm = 0 then s
     else fst (snd (Warm fb (word_of_nat headerWarm) sent live ended s)))"

section \<open>One bridge anchoring another\<close>

lemma u32_JNum: "map_of b k = Some (JNum (unat h)) \<Longrightarrow> u32_field k b = Some (h :: u32)"
  using unsigned_less [of h] by (simp add: u32_field_def del: power_numeral)

lemma str_JStr: "map_of b k = Some (JStr v) \<Longrightarrow> str_field k b = Some v"
  by (simp add: str_field_def)

lemma str_absent: "map_of b k = None \<Longrightarrow> str_field k b = Some []"
  by (simp add: str_field_def)

lemmas bridge_fields = anchor_body_def anchor_get_def decode_header_def api_transport_def api_handler_def
  writeJSON_def u32_JNum str_JStr str_absent

lemma anchor_tip_bridge:
  assumes "\<forall>x. newHashFromHex (hstr x) = Some x"
  shows "anchor_tip newHashFromHex (api_transport hstr newHashFromHex fb hs) s =
    (Inr \<lparr>anchor_hash = tip s, anchor_height = tipH s\<rparr>, s)"
  using assms by (simp add: anchor_tip_def api_tip_def TipOf_def bridge_fields)

lemma anchor_root_bridge:
  "anchor_body (api_transport hstr newHashFromHex fb hs) (GetRoot (dec (unat h))) s =
    (case RootAt fb h s of
       (Inr (Some root), t) \<Rightarrow> (Inr \<lparr>hb_Height = h, hb_Hash = [], hb_MerkleRoot = hstr root\<rparr>, t)
     | (_, t) \<Rightarrow> (Inl (AnchorStatus 404), t))"
  by (auto simp: api_root_def parseHeight_dec bridge_fields split: prod.splits sum.splits option.splits)

lemma anchor_header_bridge:
  assumes "\<forall>x. newHashFromHex (hstr x) = Some x"
  shows "anchor_HeaderAt hstr newHashFromHex (api_transport hstr newHashFromHex fb hs) x s =
    (case HeaderByHash x s of
       Some (h, root, _) \<Rightarrow> (Inr (h, root), s)
     | None \<Rightarrow> (Inl (AnchorStatus 404), s))"
  using assms by (auto simp: anchor_HeaderAt_def api_header_def bridge_fields split: option.splits)



text \<open>A bridge anchored on another starts at the tip of the other.\<close>

lemma anchored_store_tip:
  assumes "\<forall>x. newHashFromHex (hstr x) = Some x" and "base \<noteq> []"
    and "buildStore newHashFromHex (api_transport hstr newHashFromHex fb hs) base mb wd s = (Inr s', t)"
  shows "tip s' = tip s \<and> tipH s' = tipH s \<and> t = s"
  using assms by (auto simp: buildStore_def anchor_tip_bridge New_def split: sum.splits if_splits)

end
