(* ===== verification/Up_Client.thy ===== *)
theory Up_Client
  imports Bridge_Prelude
begin

text \<open>
  The up-tunnel client of \<^verbatim>\<open>src/uptunnel/uptunnel.go\<close>: records written on one connection at a time,
  confirmed once the peer has acknowledged them for a grace period, requeued when their connection
  dies and given up after a bounded number of resends. Every method is a state transformer that
  holds the client's lock throughout. The network and the clock are the argument \<open>env\<close>, operations on
  an abstract world carried in the state; the reader goroutine \<^verbatim>\<open>watch\<close> is a step of its own. A
  caller's callback is a number, and \<open>cbs\<close> collects the calls a method makes after unlocking.
\<close>

section \<open>State\<close>

text \<open>\<open>NilStream\<close> is the nil dereference of a write with no connection.\<close>

datatype up_err = ErrNoAddrs | ErrDial | ErrWrite | NilStream

record pending =
  p_b :: bytes
  p_end :: u64
  p_at :: int
  p_resends :: nat
  p_done :: "nat option"

record stream =
  s_written :: u64
  s_acked :: u64
  s_dead :: bool
  s_clean :: bool

record 'w client =
  Addrs :: "string list"
  Prefer :: int
  Timeout :: int
  ConfirmGrace :: int
  MaxResends :: int
  cur :: "stream option"
  idx :: nat
  leftAt :: "int option"
  unconfirmed :: "pending list"
  resend :: "pending list"
  written :: u64
  sent_bytes :: u64
  failures :: u64
  redials :: u64
  confirmed :: u64
  resent :: u64
  lost :: u64
  peerClosed :: u64
  unconfirmedGauge :: int
  cbs :: "(nat \<times> bool) list"
  world :: 'w

text \<open>
  The operations of the connection and the clock: a dial and a write succeed or fail, a write
  carries its deadline, \<open>unsentBytes\<close> is the kernel's send-queue reading where the platform has one.
\<close>

record 'w tunnel_env =
  dial_op :: "string \<Rightarrow> 'w \<Rightarrow> bool \<times> 'w"
  write_op :: "int \<Rightarrow> bytes \<Rightarrow> 'w \<Rightarrow> bool \<times> 'w"
  close_op :: "'w \<Rightarrow> bool \<times> 'w"
  unsentBytes :: "'w \<Rightarrow> int option \<times> 'w"
  now_op :: "'w \<Rightarrow> int \<times> 'w"

definition second :: int where "second = 1000000000"

definition maxUnconfirmed :: nat where "maxUnconfirmed = 65536"

definition grace :: "'w client \<Rightarrow> int" where
  "grace c = (if ConfirmGrace c > 0 then ConfirmGrace c else second)"

definition maxResends :: "'w client \<Rightarrow> nat" where
  "maxResends c = (if MaxResends c > 0 then nat (MaxResends c) else 3)"

definition now :: "'w tunnel_env \<Rightarrow> 'w client \<Rightarrow> int \<times> 'w client" where
  "now env c = (case now_op env (world c) of (t, w) \<Rightarrow> (t, c\<lparr>world := w\<rparr>))"

definition close_conn :: "'w tunnel_env \<Rightarrow> 'w client \<Rightarrow> bool \<times> 'w client" where
  "close_conn env c = (case close_op env (world c) of (ok, w) \<Rightarrow> (ok, c\<lparr>cur := None, world := w\<rparr>))"

text \<open>
  What the kernel's reading says of the bytes acknowledged: \<open>Some a\<close> for a usable reading, with the
  flag telling whether the platform has readings at all.
\<close>

definition read_acked :: "'w tunnel_env \<Rightarrow> stream \<Rightarrow> 'w client \<Rightarrow> (bool \<times> u64 option) \<times> 'w client" where
  "read_acked env s c = (case unsentBytes env (world c) of (q, w) \<Rightarrow>
     ((q \<noteq> None, case q of None \<Rightarrow> None
        | Some n \<Rightarrow> if (word_of_int n :: u64) \<le> s_written s then Some (s_written s - word_of_int n) else None),
      c\<lparr>world := w\<rparr>))"

section \<open>Settling records\<close>

definition call_done :: "pending \<Rightarrow> bool \<Rightarrow> 'w client \<Rightarrow> 'w client" where
  "call_done r ok c = (case p_done r of None \<Rightarrow> c | Some d \<Rightarrow> c\<lparr>cbs := cbs c @ [(d, ok)]\<rparr>)"

definition confirmLocked :: "pending \<Rightarrow> 'w client \<Rightarrow> 'w client" where
  "confirmLocked r c = call_done r True (c\<lparr>confirmed := confirmed c + 1\<rparr>)"

definition loseLocked :: "pending \<Rightarrow> 'w client \<Rightarrow> 'w client" where
  "loseLocked r c = call_done r False (c\<lparr>lost := lost c + 1\<rparr>)"

definition requeueLocked :: "pending \<Rightarrow> 'w client \<Rightarrow> 'w client" where
  "requeueLocked r c = (let r' = r\<lparr>p_resends := p_resends r + 1\<rparr> in
     if p_resends r' > maxResends c then loseLocked r' c
     else c\<lparr>resend := resend c @ [r']\<rparr>)"

definition chargeResendsLocked :: "'w client \<Rightarrow> 'w client" where
  "chargeResendsLocked c = fold requeueLocked (resend c) (c\<lparr>resend := []\<rparr>)"

definition dropGauge :: "'w client \<Rightarrow> 'w client" where
  "dropGauge c = c\<lparr>unconfirmedGauge := unconfirmedGauge c - 1\<rparr>"

definition retireOne :: "u64 option \<Rightarrow> pending \<Rightarrow> 'w client \<Rightarrow> 'w client" where
  "retireOne known r c = (let c1 = dropGauge c in
     case known of
       Some acked \<Rightarrow> if p_end r \<le> acked then confirmLocked r c1 else requeueLocked r c1
     | None \<Rightarrow> requeueLocked r c1)"

definition retireLocked :: "'w tunnel_env \<Rightarrow> bool \<Rightarrow> 'w client \<Rightarrow> 'w client" where
  "retireLocked env clean c = (case cur c of
      None \<Rightarrow> c
    | Some s \<Rightarrow>
        let (known, c1) = (if clean then (case read_acked env s c of ((_, a), c') \<Rightarrow> (a, c')) else (None, c));
            c2 = snd (close_conn env c1);
            c3 = fold (retireOne known) (unconfirmed c2) c2
        in c3\<lparr>unconfirmed := []\<rparr>)"

section \<open>Addresses\<close>

definition advanceLocked :: "'w tunnel_env \<Rightarrow> 'w client \<Rightarrow> 'w client" where
  "advanceLocked env c = (if length (Addrs c) \<le> 1 then c
     else let i = (idx c + 1) mod length (Addrs c);
              c1 = c\<lparr>idx := i\<rparr>;
              c2 = (if i \<noteq> 0 \<and> leftAt c1 = None
                    then (case now env c1 of (t, c') \<Rightarrow> c'\<lparr>leftAt := Some t\<rparr>) else c1)
          in if i = 0 then c2\<lparr>leftAt := None\<rparr> else c2)"

definition maybeFailBackLocked :: "'w tunnel_env \<Rightarrow> 'w client \<Rightarrow> 'w client" where
  "maybeFailBackLocked env c = (case leftAt c of
      None \<Rightarrow> c
    | Some left \<Rightarrow>
        if Prefer c \<le> 0 \<or> idx c = 0 then c
        else (case now env c of (t, c1) \<Rightarrow>
          if t - left < Prefer c1 then c1
          else if cur c1 \<noteq> None \<and> unconfirmed c1 \<noteq> [] then c1
          else let c2 = c1\<lparr>idx := 0, leftAt := None\<rparr> in
            (case cur c2 of None \<Rightarrow> c2 | Some _ \<Rightarrow> snd (close_conn env c2))))"

section \<open>Sending\<close>

definition breakLocked :: "'w tunnel_env \<Rightarrow> 'w client \<Rightarrow> 'w client" where
  "breakLocked env c = (let c1 = retireLocked env False c in
     advanceLocked env (c1\<lparr>failures := failures c1 + 1\<rparr>))"

definition reapLocked :: "'w tunnel_env \<Rightarrow> 'w client \<Rightarrow> 'w client" where
  "reapLocked env c = (case cur c of
      None \<Rightarrow> c
    | Some s \<Rightarrow>
        if \<not> s_dead s then c
        else let c1 = retireLocked env (s_clean s) (c\<lparr>peerClosed := peerClosed c + 1\<rparr>)
          in if s_clean s then c1 else advanceLocked env c1)"

definition write_deadline :: "'w tunnel_env \<Rightarrow> int option \<Rightarrow> 'w client \<Rightarrow> int \<times> 'w client" where
  "write_deadline env dl c = (case dl of
      Some d \<Rightarrow> (d, c)
    | None \<Rightarrow> (case now env c of (t, c1) \<Rightarrow> (t + (if Timeout c = 0 then 10 * second else Timeout c), c1)))"

definition writeLocked :: "'w tunnel_env \<Rightarrow> int option \<Rightarrow> pending \<Rightarrow> 'w client \<Rightarrow> up_err option \<times> 'w client" where
  "writeLocked env dl r c = (case write_deadline env dl c of (d, c1) \<Rightarrow>
     (case cur c1 of
        None \<Rightarrow> (Some NilStream, c1)
      | Some s \<Rightarrow>
          (case write_op env d (p_b r) (world c1) of
             (False, w) \<Rightarrow> (Some ErrWrite, c1\<lparr>world := w\<rparr>)
           | (True, w) \<Rightarrow>
               let s' = s\<lparr>s_written := s_written s + word_of_nat (length (p_b r))\<rparr> in
               (case now env (c1\<lparr>world := w\<rparr>) of (t, c2) \<Rightarrow>
                  (None, c2\<lparr>cur := Some s',
                    unconfirmed := unconfirmed c2 @ [r\<lparr>p_end := s_written s', p_at := t\<rparr>],
                    unconfirmedGauge := unconfirmedGauge c2 + 1,
                    written := written c2 + 1,
                    sent_bytes := sent_bytes c2 + word_of_nat (length (p_b r))\<rparr>)))))"

definition ensureConnLocked :: "'w tunnel_env \<Rightarrow> 'w client \<Rightarrow> up_err option \<times> 'w client" where
  "ensureConnLocked env c = (if cur c \<noteq> None then (None, c)
     else if Addrs c = [] then (Some ErrNoAddrs, c)
     else (case dial_op env (Addrs c ! (idx c mod length (Addrs c))) (world c) of
        (False, w) \<Rightarrow> (Some ErrDial, c\<lparr>world := w\<rparr>)
      | (True, w) \<Rightarrow>
          (None, c\<lparr>world := w, cur := Some \<lparr>s_written = 0, s_acked = 0, s_dead = False, s_clean = False\<rparr>,
             redials := redials c + 1\<rparr>)))"

lemma world_ops_fields [client_simps]:
  "resend (snd (now env c)) = resend c" "resend (snd (write_deadline env dl c)) = resend c"
  by (simp_all add: now_def write_deadline_def case_prod_beta split: option.splits)

lemma writeLocked_resend: "writeLocked env dl r c = (e, c') \<Longrightarrow> resend c' = resend c"
proof -
  obtain d c1 where d: "write_deadline env dl c = (d, c1)" by force
  then have "resend c1 = resend c" using world_ops_fields(2) [of env dl c] by simp
  moreover assume "writeLocked env dl r c = (e, c')"
  ultimately show ?thesis
    by (auto simp: writeLocked_def d now_def Let_def split: option.splits prod.splits bool.splits)
qed

function flushResendLocked :: "'w tunnel_env \<Rightarrow> int option \<Rightarrow> 'w client \<Rightarrow> up_err option \<times> 'w client" where
  "flushResendLocked env dl c = (case resend c of
      [] \<Rightarrow> (None, c)
    | r # rs \<Rightarrow> (case writeLocked env dl r c of
        (Some e, c') \<Rightarrow> (Some e, breakLocked env c')
      | (None, c') \<Rightarrow>
          flushResendLocked env dl (c'\<lparr>resend := tl (resend c'), resent := resent c' + 1\<rparr>)))"
  by pat_completeness auto
termination
  by (relation "measure (\<lambda>(env, dl, c). length (resend c))") (auto dest: sym [THEN writeLocked_resend])

declare flushResendLocked.simps [simp del]

fun send_attempts ::
    "nat \<Rightarrow> 'w tunnel_env \<Rightarrow> int option \<Rightarrow> pending option \<Rightarrow> up_err option \<Rightarrow> 'w client \<Rightarrow> up_err option \<times> 'w client" where
  "send_attempts 0 env dl rec lastErr c = (lastErr, c)"
| "send_attempts (Suc n) env dl rec lastErr c = (case ensureConnLocked env c of
      (Some e, c1) \<Rightarrow>
        send_attempts n env dl rec (Some e) (advanceLocked env (c1\<lparr>failures := failures c1 + 1\<rparr>))
    | (None, c1) \<Rightarrow> (case flushResendLocked env dl c1 of
        (Some e, c2) \<Rightarrow> send_attempts n env dl rec (Some e) c2
      | (None, c2) \<Rightarrow> (case rec of
          None \<Rightarrow> (None, c2)
        | Some r \<Rightarrow> (case writeLocked env dl r c2 of
            (Some e, c3) \<Rightarrow> send_attempts n env dl rec (Some e) (breakLocked env c3)
          | (None, c3) \<Rightarrow> (None, c3)))))"

definition sendLocked ::
    "'w tunnel_env \<Rightarrow> int option \<Rightarrow> pending option \<Rightarrow> 'w client \<Rightarrow> up_err option \<times> 'w client" where
  "sendLocked env dl rec c = send_attempts 2 env dl rec None c"

section \<open>Confirming\<close>

fun confirm_prefix :: "(pending \<Rightarrow> bool) \<Rightarrow> pending list \<Rightarrow> nat \<Rightarrow> 'w client \<Rightarrow> nat \<times> 'w client" where
  "confirm_prefix waits [] n c = (n, c)"
| "confirm_prefix waits (r # rs) n c =
     (if waits r then (n, c) else confirm_prefix waits rs (n + 1) (confirmLocked r c))"

definition pollLocked :: "'w tunnel_env \<Rightarrow> 'w client \<Rightarrow> 'w client" where
  "pollLocked env c = (case cur c of
      None \<Rightarrow> c
    | Some s \<Rightarrow>
        if unconfirmed c = [] then c
        else (case read_acked env s c of ((ok, a), c1) \<Rightarrow>
          let s' = (case a of
                      Some acked \<Rightarrow> s\<lparr>s_acked := acked\<rparr>
                    | None \<Rightarrow> if ok then s else s\<lparr>s_acked := s_written s\<rparr>);
              c2 = c1\<lparr>cur := Some s'\<rparr>
          in (case now env c2 of (t, c3) \<Rightarrow>
            let over = length (unconfirmed c3) > maxUnconfirmed;
                waits = (\<lambda>r. p_end r > s_acked s' \<or> (\<not> over \<and> t - p_at r < grace c3))
            in (case confirm_prefix waits (unconfirmed c3) 0 c3 of (n, c4) \<Rightarrow>
                 if n > 0 then c4\<lparr>unconfirmed := drop n (unconfirmed c4),
                                  unconfirmedGauge := unconfirmedGauge c4 - int n\<rparr>
                 else c4))))"

section \<open>The client's methods\<close>

text \<open>Each returns the callbacks it calls once the lock is released, oldest first.\<close>

definition Send ::
    "'w tunnel_env \<Rightarrow> int option \<Rightarrow> bytes \<Rightarrow> nat option \<Rightarrow> 'w client \<Rightarrow>
     up_err option \<times> (nat \<times> bool) list \<times> 'w client" where
  "Send env dl b done c =
     (let c1 = maybeFailBackLocked env (pollLocked env (reapLocked env (c\<lparr>cbs := []\<rparr>)));
          r = \<lparr>p_b = b, p_end = 0, p_at = 0, p_resends = 0, p_done = done\<rparr>
      in (case sendLocked env dl (Some r) c1 of (err, c2) \<Rightarrow>
            let c3 = pollLocked env c2 in (err, cbs c3, c3\<lparr>cbs := []\<rparr>)))"

definition Submit ::
    "'w tunnel_env \<Rightarrow> int option \<Rightarrow> bytes \<Rightarrow> 'w client \<Rightarrow> up_err option \<times> (nat \<times> bool) list \<times> 'w client" where
  "Submit env dl b c = Send env dl b None c"

definition Poll :: "'w tunnel_env \<Rightarrow> int option \<Rightarrow> 'w client \<Rightarrow> (nat \<times> bool) list \<times> 'w client" where
  "Poll env dl c =
     (let c1 = pollLocked env (reapLocked env (c\<lparr>cbs := []\<rparr>));
          c2 = (if resend c1 \<noteq> [] then (case sendLocked env dl None c1 of
                    (Some _, c') \<Rightarrow> chargeResendsLocked c'
                  | (None, c') \<Rightarrow> c')
                else c1)
      in (cbs c2, c2\<lparr>cbs := []\<rparr>))"

definition closeOne :: "u64 \<Rightarrow> pending \<Rightarrow> 'w client \<Rightarrow> 'w client" where
  "closeOne acked r c = (let c1 = dropGauge c in
     if p_end r \<le> acked then confirmLocked r c1 else loseLocked r c1)"

definition Close :: "'w tunnel_env \<Rightarrow> 'w client \<Rightarrow> bool \<times> (nat \<times> bool) list \<times> 'w client" where
  "Close env c =
     (let c0 = c\<lparr>cbs := []\<rparr>;
          (ok, c3) = (case cur c0 of
              None \<Rightarrow> (True, c0)
            | Some s \<Rightarrow>
                (case read_acked env s c0 of ((_, a), c1) \<Rightarrow>
                  let acked = (case a of Some v \<Rightarrow> v | None \<Rightarrow> s_acked s);
                      c2 = (fold (closeOne acked) (unconfirmed c1) c1)\<lparr>unconfirmed := []\<rparr>
                  in close_conn env c2));
          c4 = (fold loseLocked (resend c3) c3)\<lparr>resend := []\<rparr>
      in (ok, cbs c4, c4\<lparr>cbs := []\<rparr>))"

text \<open>The reader goroutine: the connection's read ends, with EOF (\<open>clean\<close>) or with an error.\<close>

definition watch_ends :: "bool \<Rightarrow> 'w client \<Rightarrow> 'w client" where
  "watch_ends clean c = (case cur c of
      None \<Rightarrow> c
    | Some s \<Rightarrow> c\<lparr>cur := Some (s\<lparr>s_clean := clean, s_dead := True\<rparr>)\<rparr>)"

definition Stats_Unconfirmed :: "'w client \<Rightarrow> u64" where
  "Stats_Unconfirmed c = (if unconfirmedGauge c < 0 then 0 else word_of_int (unconfirmedGauge c))"

section \<open>Accounting for every record\<close>

text \<open>The callbacks a list of records stands for, and those a state has called or still owes.\<close>

definition tags :: "pending list \<Rightarrow> nat multiset" where
  "tags rs = mset (List.map_filter p_done rs)"

lemma tags_simps [simp]:
  "tags [] = {#}" "tags (r # rs) = (case p_done r of None \<Rightarrow> {#} | Some d \<Rightarrow> {#d#}) + tags rs"
  "tags (rs @ qs) = tags rs + tags qs"
  by (simp_all add: tags_def List.map_filter_def split: option.splits)

definition called :: "'w client \<Rightarrow> nat multiset" where
  "called c = mset (map fst (cbs c))"

definition owed :: "'w client \<Rightarrow> nat multiset" where
  "owed c = tags (unconfirmed c) + tags (resend c)"

definition config :: "'w client \<Rightarrow> string list \<times> int \<times> int \<times> int \<times> int" where
  "config c = (Addrs c, Prefer c, Timeout c, ConfirmGrace c, MaxResends c)"

lemma config_maxResends: "config c' = config c \<Longrightarrow> maxResends c' = maxResends c"
  by (simp add: config_def maxResends_def)

text \<open>
  \<open>settles us c c'\<close>: the records \<open>us\<close> have been answered or queued again, and of what else the state
  holds only counters and callbacks differ.
\<close>

definition within :: "'w client \<Rightarrow> pending list \<Rightarrow> bool" where
  "within c rs \<longleftrightarrow> (\<forall>r\<in>set rs. p_resends r \<le> maxResends c)"

definition settles :: "pending list \<Rightarrow> 'w client \<Rightarrow> 'w client \<Rightarrow> bool" where
  "settles us c c' \<longleftrightarrow> config c' = config c \<and> unconfirmed c' = unconfirmed c \<and> cur c' = cur c \<and>
     idx c' = idx c \<and> leftAt c' = leftAt c \<and> world c' = world c \<and>
     called c' + tags (resend c') = called c + tags (resend c) + tags us \<and>
     (within c (resend c) \<longrightarrow> within c' (resend c')) \<and> length (resend c') \<le> length (resend c) + length us"

lemma settles_refl [simp]: "settles [] c c"
  by (simp add: settles_def)

lemma settles_trans: "settles us c c' \<Longrightarrow> settles vs c' c'' \<Longrightarrow> settles (us @ vs) c c''"
  unfolding settles_def by (simp add: ac_simps)

lemma settles_call_done:
  "config (f c) = config c \<Longrightarrow> unconfirmed (f c) = unconfirmed c \<Longrightarrow> resend (f c) = resend c \<Longrightarrow>
   cur (f c) = cur c \<Longrightarrow> idx (f c) = idx c \<Longrightarrow> leftAt (f c) = leftAt c \<Longrightarrow> world (f c) = world c \<Longrightarrow>
   cbs (f c) = cbs c \<Longrightarrow> settles [r] c (call_done r ok (f c))"
  by (auto simp: settles_def call_done_def config_def called_def within_def maxResends_def split: option.splits)

lemma settles_confirm [intro]: "settles [r] c (confirmLocked r c)"
  unfolding confirmLocked_def
  by (rule settles_call_done [where f = "\<lambda>c. c\<lparr>confirmed := confirmed c + 1\<rparr>"]) (simp_all add: config_def)

lemma settles_lose [intro]: "settles [r] c (loseLocked r c)"
  unfolding loseLocked_def
  by (rule settles_call_done [where f = "\<lambda>c. c\<lparr>lost := lost c + 1\<rparr>"]) (simp_all add: config_def)

lemma settles_requeue [intro]: "settles [r] c (requeueLocked r c)"
proof (cases "p_resends r + 1 > maxResends c")
  case True
  have "settles [r\<lparr>p_resends := p_resends r + 1\<rparr>] c (loseLocked (r\<lparr>p_resends := p_resends r + 1\<rparr>) c)" by blast
  with True show ?thesis by (simp add: requeueLocked_def Let_def) (simp add: settles_def)
next
  case False
  then show ?thesis
    by (auto simp: requeueLocked_def Let_def settles_def config_def called_def within_def maxResends_def)
qed

lemma settles_fold:
  assumes "\<And>r c. settles [r] c (f r c)"
  shows "settles us c (fold f us c)"
proof (induction us arbitrary: c)
  case (Cons u us)
  show ?case using settles_trans [OF assms [of u c] Cons.IH] by simp
qed simp

lemma settles_gauge_cong:
  "settles us (c\<lparr>unconfirmedGauge := g\<rparr>) c' \<longleftrightarrow> settles us c c'"
  by (simp add: settles_def config_def called_def within_def maxResends_def)

lemma settles_retireOne: "settles [r] c (retireOne known r c)"
  by (auto simp: retireOne_def dropGauge_def Let_def split: option.splits
      intro: settles_gauge_cong [THEN iffD1])

lemma settles_closeOne: "settles [r] c (closeOne acked r c)"
  by (auto simp: closeOne_def dropGauge_def Let_def intro: settles_gauge_cong [THEN iffD1])

lemma gauge_settle [client_simps]:
  "unconfirmedGauge (confirmLocked r c) = unconfirmedGauge c"
  "unconfirmedGauge (loseLocked r c) = unconfirmedGauge c"
  "unconfirmedGauge (requeueLocked r c) = unconfirmedGauge c"
  by (simp_all add: confirmLocked_def loseLocked_def requeueLocked_def call_done_def Let_def split: option.splits)

lemma gauge_fold:
  assumes "\<And>r c. unconfirmedGauge (f r c) = unconfirmedGauge c - k"
  shows "unconfirmedGauge (fold f us c) = unconfirmedGauge c - k * int (length us)"
  using assms by (induction us arbitrary: c) (simp_all add: algebra_simps)

lemma gauge_retireOne: "unconfirmedGauge (retireOne known r c) = unconfirmedGauge c - 1"
  by (simp add: retireOne_def dropGauge_def Let_def client_simps split: option.splits)

lemma gauge_closeOne: "unconfirmedGauge (closeOne acked r c) = unconfirmedGauge c - 1"
  by (simp add: closeOne_def dropGauge_def Let_def client_simps)

section \<open>The client's invariant\<close>

lemma now_world: obtains t w where "now env c = (t, c\<lparr>world := w\<rparr>)"
  by (cases "now_op env (world c)") (simp add: now_def)

lemma close_world: obtains ok w where "close_conn env c = (ok, c\<lparr>cur := None, world := w\<rparr>)"
  by (cases "close_op env (world c)") (simp add: close_conn_def)

lemma read_acked_world: obtains ok a w where "read_acked env s c = ((ok, a), c\<lparr>world := w\<rparr>)"
  by (cases "unsentBytes env (world c)") (simp add: read_acked_def)

definition client_ok :: "'w client \<Rightarrow> bool" where
  "client_ok c \<longleftrightarrow> unconfirmedGauge c = int (length (unconfirmed c)) \<and>
     (cur c = None \<longrightarrow> unconfirmed c = []) \<and> within c (unconfirmed c) \<and> within c (resend c) \<and>
     (idx c = 0 \<or> idx c < length (Addrs c)) \<and> (leftAt c = None \<longleftrightarrow> idx c = 0)"

text \<open>\<open>acct m c c'\<close>: a step that keeps the configuration and the invariant and takes on the callbacks \<open>m\<close>.\<close>

definition acct :: "nat multiset \<Rightarrow> 'w client \<Rightarrow> 'w client \<Rightarrow> bool" where
  "acct m c c' \<longleftrightarrow> config c' = config c \<and> (client_ok c \<longrightarrow> client_ok c') \<and>
     called c' + owed c' = called c + owed c + m"

lemma acct_refl [simp, intro]: "acct {#} c c"
  by (simp add: acct_def)

lemma acct_trans: "acct m c c' \<Longrightarrow> acct n c' c'' \<Longrightarrow> acct (m + n) c c''"
  unfolding acct_def by (simp add: ac_simps)

lemma acct_trans0: "acct {#} c c' \<Longrightarrow> acct n c' c'' \<Longrightarrow> acct n c c''"
  using acct_trans [of "{#}" c c' n c''] by simp

text \<open>Steps on fields the account does not read.\<close>

lemma acct_fields [simp]:
  "acct m c (c'\<lparr>world := w\<rparr>) = acct m c c'" "acct m c (c'\<lparr>failures := n\<rparr>) = acct m c c'"
  "acct m c (c'\<lparr>peerClosed := n\<rparr>) = acct m c c'" "acct m c (c'\<lparr>resent := n\<rparr>) = acct m c c'"
  "acct m c (c'\<lparr>redials := n\<rparr>) = acct m c c'"
  by (simp_all add: acct_def config_def client_ok_def called_def owed_def within_def maxResends_def)

lemma acct_now: "now env c = (t, c') \<Longrightarrow> acct {#} c c'"
  by (auto simp: now_def split: prod.splits)

lemma acct_settles:
  assumes "settles us c c'" "unconfirmed c = us" "cur c = None"
    and "unconfirmedGauge c' = unconfirmedGauge c - int (length us)"
  shows "acct {#} (c\<lparr>cur := k\<rparr>) (c'\<lparr>unconfirmed := []\<rparr>)"
  using assms
  by (auto simp: acct_def settles_def client_ok_def called_def owed_def config_def within_def
      maxResends_def ac_simps)

lemma acct_address:
  "i = 0 \<or> i < length (Addrs c) \<Longrightarrow> (client_ok c \<Longrightarrow> l = None \<longleftrightarrow> i = 0) \<Longrightarrow>
   acct {#} c (c\<lparr>idx := i, leftAt := l, world := w\<rparr>)"
  by (simp add: acct_def config_def client_ok_def called_def owed_def within_def maxResends_def)

lemma advanceLocked_cases:
  obtains "length (Addrs c) \<le> 1" "advanceLocked env c = c"
  | l w where "1 < length (Addrs c)"
      "advanceLocked env c = c\<lparr>idx := (idx c + 1) mod length (Addrs c), leftAt := l, world := w\<rparr>"
      "l = None \<longleftrightarrow> (idx c + 1) mod length (Addrs c) = 0"
proof (cases "length (Addrs c) \<le> 1")
  case False
  let ?i = "(idx c + 1) mod length (Addrs c)"
  obtain t w where n: "now env (c\<lparr>idx := ?i\<rparr>) = (t, c\<lparr>idx := ?i, world := w\<rparr>)"
    using now_world [of env "c\<lparr>idx := ?i\<rparr>"] by auto
  show ?thesis
  proof (cases "?i = 0")
    case True
    then show ?thesis using False by (intro that(2) [where l = None and w = "world c"]) (simp_all add: advanceLocked_def Let_def)
  next
    case nz: False
    show ?thesis
    proof (cases "leftAt c")
      case None
      then show ?thesis
        using False nz by (intro that(2) [where l = "Some t" and w = w]) (simp_all add: advanceLocked_def Let_def n [simplified])
    next
      case (Some k)
      then show ?thesis
        using False nz by (intro that(2) [where l = "Some k" and w = "world c"]) (simp_all add: advanceLocked_def Let_def)
    qed
  qed
qed (simp_all add: that(1) advanceLocked_def)

lemma acct_advance: "acct {#} c (advanceLocked env c)"
proof (cases rule: advanceLocked_cases [of c env])
  case (2 l w)
  have "(idx c + 1) mod length (Addrs c) < length (Addrs c)" using 2(1) by (intro mod_less_divisor) linarith
  then have "acct {#} c (c\<lparr>idx := (idx c + 1) mod length (Addrs c), leftAt := l, world := w\<rparr>)"
    using 2(3) by (intro acct_address) auto
  then show ?thesis by (simp only: 2(2))
qed simp

lemma close_conn_None: "cur (snd (close_conn env c)) = None"
  by (simp add: close_conn_def split: prod.splits)

lemma acct_retire: "acct {#} c (retireLocked env clean c) \<and> cur (retireLocked env clean c) = None"
proof (cases "cur c")
  case None
  then show ?thesis by (simp add: retireLocked_def)
next
  case (Some s)
  obtain known c1 where k: "(if clean then (case read_acked env s c of ((_, a), c') \<Rightarrow> (a, c')) else (None, c)) = (known, c1)"
    by force
  obtain ok a w where "read_acked env s c = ((ok, a), c\<lparr>world := w\<rparr>)" by (rule read_acked_world)
  then have "c1 = c\<lparr>world := w\<rparr> \<or> c1 = c\<lparr>world := world c\<rparr>" using k by (auto split: if_splits)
  then obtain v where c1: "c1 = c\<lparr>world := v\<rparr>" by blast
  obtain okc w' where "close_conn env c1 = (okc, c1\<lparr>cur := None, world := w'\<rparr>)" by (rule close_world)
  then have c2: "snd (close_conn env c1) = c\<lparr>cur := None, world := w'\<rparr>" by (simp add: c1)
  let ?c2 = "c\<lparr>cur := None, world := w'\<rparr>"
  let ?c3 = "fold (retireOne known) (unconfirmed ?c2) ?c2"
  have r: "retireLocked env clean c = ?c3\<lparr>unconfirmed := []\<rparr>"
    by (simp add: retireLocked_def Some k c2 Let_def)
  have st: "settles (unconfirmed ?c2) ?c2 ?c3" by (rule settles_fold) (rule settles_retireOne)
  have g: "unconfirmedGauge ?c3 = unconfirmedGauge ?c2 - int (length (unconfirmed ?c2))"
    by (subst gauge_fold [of "retireOne known" 1, OF gauge_retireOne]) simp
  have "acct {#} (?c2\<lparr>cur := Some s\<rparr>) (?c3\<lparr>unconfirmed := []\<rparr>)"
    by (rule acct_settles [OF st refl _ g]) simp
  moreover have "acct {#} c (?c2\<lparr>cur := Some s\<rparr>)" using Some by (simp add: acct_def config_def client_ok_def
        called_def owed_def within_def maxResends_def)
  moreover have "cur ?c3 = None" using st by (simp add: settles_def)
  ultimately show ?thesis by (auto simp: r intro: acct_trans0)
qed

lemma acct_break: "acct {#} c (breakLocked env c)"
  unfolding breakLocked_def Let_def
  by (rule acct_trans0 [OF _ acct_advance]) (simp add: acct_retire)

lemma acct_reap: "acct {#} c (reapLocked env c)"
proof -
  have "acct {#} c (retireLocked env b (c\<lparr>peerClosed := n\<rparr>))" for b n
    by (rule acct_trans0 [OF _ acct_retire [THEN conjunct1]]) simp
  then show ?thesis
    by (auto simp: reapLocked_def Let_def intro: acct_trans0 [OF _ acct_advance] split: option.splits)
qed

lemma acct_failback: "acct {#} c (maybeFailBackLocked env c)"
proof (cases "leftAt c = None \<or> Prefer c \<le> 0 \<or> idx c = 0")
  case True
  then show ?thesis by (auto simp: maybeFailBackLocked_def split: option.splits)
next
  case False
  then obtain left where l: "leftAt c = Some left" by auto
  obtain t w where n: "now env c = (t, c\<lparr>world := w\<rparr>)" by (rule now_world)
  show ?thesis
    using False by (auto simp: maybeFailBackLocked_def l n Let_def close_conn_def acct_def config_def
        client_ok_def called_def owed_def within_def maxResends_def split: option.splits prod.splits)
qed

section \<open>Writing keeps the account\<close>

lemma deadline_world: obtains d w where "write_deadline env dl c = (d, c\<lparr>world := w\<rparr>)"
proof (cases dl)
  case None
  obtain t w where "now env c = (t, c\<lparr>world := w\<rparr>)" by (rule now_world)
  then show thesis using that by (simp add: write_deadline_def None)
next
  case (Some d)
  then show thesis using that [of d "world c"] by (simp add: write_deadline_def)
qed

text \<open>The record as it is appended to the unconfirmed list.\<close>

definition stamped :: "pending \<Rightarrow> u64 \<Rightarrow> int \<Rightarrow> pending" where
  "stamped r e t = r\<lparr>p_end := e, p_at := t\<rparr>"

lemma stamped_simps [simp]: "p_done (stamped r e t) = p_done r" "p_resends (stamped r e t) = p_resends r"
  "p_b (stamped r e t) = p_b r" "p_end (stamped r e t) = e" "p_at (stamped r e t) = t"
  by (simp_all add: stamped_def)

lemma writeLocked_cases:
  assumes "writeLocked env dl r c = (e, c')"
  obtains w x where "e = Some x" "c' = c\<lparr>world := w\<rparr>"
  | s t w where "e = None" "cur c = Some s"
      "c' = c\<lparr>world := w, cur := Some (s\<lparr>s_written := s_written s + word_of_nat (length (p_b r))\<rparr>),
         unconfirmed := unconfirmed c @ [stamped r (s_written s + word_of_nat (length (p_b r))) t],
         unconfirmedGauge := unconfirmedGauge c + 1, written := written c + 1,
         sent_bytes := sent_bytes c + word_of_nat (length (p_b r))\<rparr>"
proof -
  obtain d w1 where d: "write_deadline env dl c = (d, c\<lparr>world := w1\<rparr>)" by (rule deadline_world)
  obtain ok w2 where w: "write_op env d (p_b r) w1 = (ok, w2)" by force
  obtain t w3 where n: "now env (c\<lparr>world := w2\<rparr>) = (t, c\<lparr>world := w3\<rparr>)"
    using now_world [of env "c\<lparr>world := w2\<rparr>"] by auto
  show thesis
  proof (cases "cur c")
    case None
    then show thesis using assms that(1) by (auto simp: writeLocked_def d)
  next
    case (Some s)
    then show thesis
      using assms that by (cases ok) (auto simp: writeLocked_def d w n Let_def stamped_def)
  qed
qed

lemma acct_write_fail: "writeLocked env dl r c = (Some e, c') \<Longrightarrow> acct {#} c c'"
  by (erule writeLocked_cases) auto

lemma acct_write_ok:
  assumes "writeLocked env dl r c = (None, c')" "p_resends r \<le> maxResends c"
  shows "acct (tags [r]) c c'"
  using assms(1)
proof (cases rule: writeLocked_cases)
  case (2 s t w)
  show ?thesis
    using assms(2) unfolding 2(3) by (auto simp: acct_def config_def client_ok_def called_def owed_def within_def
        maxResends_def split: option.splits if_splits)
qed simp

text \<open>A waiting record that is written moves from one list to the other.\<close>

lemma acct_flush_one:
  assumes "writeLocked env dl r c = (None, c')" "resend c = r # rs"
  shows "acct {#} c (c'\<lparr>resend := tl (resend c'), resent := n\<rparr>)"
  using assms(1)
proof (cases rule: writeLocked_cases)
  case (2 s t w)
  show ?thesis
    using assms(2) unfolding 2(3) by (simp add: acct_def config_def client_ok_def called_def owed_def within_def
        maxResends_def ac_simps split: option.splits)
qed simp

lemma acct_flush: "flushResendLocked env dl c = (e, c') \<Longrightarrow> acct {#} c c'"
proof (induction env dl c rule: flushResendLocked.induct)
  case (1 env dl c)
  show ?case
  proof (cases "resend c")
    case Nil
    then show ?thesis using 1(2) by (subst (asm) flushResendLocked.simps) simp
  next
    case (Cons r rs)
    obtain x c1 where w: "writeLocked env dl r c = (x, c1)" by force
    show ?thesis
    proof (cases x)
      case None
      let ?c1 = "c1\<lparr>resend := tl (resend c1), resent := resent c1 + 1\<rparr>"
      have "flushResendLocked env dl ?c1 = (e, c')"
        using 1(2) by (subst (asm) flushResendLocked.simps) (simp add: Cons w None)
      then have "acct {#} ?c1 c'" using 1(1) [OF Cons] w None by simp
      moreover have "acct {#} c ?c1" using acct_flush_one [OF w [unfolded None] Cons] .
      ultimately show ?thesis by (rule acct_trans0 [rotated])
    next
      case (Some y)
      then have "c' = breakLocked env c1"
        using 1(2) by (subst (asm) flushResendLocked.simps) (simp add: Cons w)
      moreover have "acct {#} c c1" using acct_write_fail w Some by blast
      ultimately show ?thesis using acct_trans0 acct_break by blast
    qed
  qed
qed

lemma acct_connected: "cur c = None \<Longrightarrow> acct {#} c (c\<lparr>world := w, cur := k, redials := n\<rparr>)"
  by (simp add: acct_def config_def client_ok_def called_def owed_def within_def maxResends_def)

lemma acct_ensure: "ensureConnLocked env c = (e, c') \<Longrightarrow> acct {#} c c'"
  by (auto simp: ensureConnLocked_def split: if_splits prod.splits bool.splits intro: acct_connected)

text \<open>What a send takes on: the record's callback when it succeeds, nothing when it fails.\<close>

definition taken :: "up_err option \<Rightarrow> pending option \<Rightarrow> nat multiset" where
  "taken e rec = (case (e, rec) of (None, Some r) \<Rightarrow> tags [r] | _ \<Rightarrow> {#})"

lemma acct_attempts:
  assumes "send_attempts n env dl rec le c = (e, c')" "n = 0 \<Longrightarrow> le \<noteq> None"
    and "\<forall>r. rec = Some r \<longrightarrow> p_resends r = 0"
  shows "acct (taken e rec) c c'"
  using assms
proof (induction n env dl rec le c rule: send_attempts.induct)
  case (1 env dl rec le c)
  then show ?case by (auto simp: taken_def split: option.splits)
next
  case (2 n env dl rec le c)
  obtain x c1 where en: "ensureConnLocked env c = (x, c1)" by force
  then have a1: "acct {#} c c1" by (rule acct_ensure)
  show ?case
  proof (cases x)
    case (Some y)
    let ?d = "advanceLocked env (c1\<lparr>failures := failures c1 + 1\<rparr>)"
    have "acct {#} c ?d" using a1 by (intro acct_trans0 [OF _ acct_advance]) simp
    moreover have "acct (taken e rec) ?d c'" using 2 en Some by simp
    ultimately show ?thesis by (rule acct_trans0)
  next
    case None
    obtain y c2 where fl: "flushResendLocked env dl c1 = (y, c2)" by force
    have a2: "acct {#} c c2" using acct_trans0 [OF a1 acct_flush [OF fl]] .
    show ?thesis
    proof (cases "y = None \<and> rec \<noteq> None")
      case False
      then show ?thesis
        using 2 en None fl a2 by (cases y) (auto simp: taken_def intro: acct_trans0)
    next
      case True
      then obtain r where r: "rec = Some r" by auto
      obtain z c3 where wr: "writeLocked env dl r c2 = (z, c3)" by force
      show ?thesis
      proof (cases z)
        case (Some u)
        have "acct {#} c (breakLocked env c3)"
          using a2 acct_write_fail wr Some acct_break acct_trans0 by metis
        moreover have "acct (taken e rec) (breakLocked env c3) c'"
          using 2 en None fl True r wr Some by simp
        ultimately show ?thesis by (rule acct_trans0)
      next
        case zn: None
        have "p_resends r \<le> maxResends c2" using 2(6) r by simp
        then have "acct (tags [r]) c2 c3" using wr zn by (intro acct_write_ok) simp_all
        then show ?thesis
          using a2 2(4) en None fl True r wr zn by (auto simp: taken_def intro: acct_trans0)
      qed
    qed
  qed
qed

section \<open>Confirming keeps the account\<close>

definition confirmations :: "pending list \<Rightarrow> (nat \<times> bool) list" where
  "confirmations rs = map (\<lambda>d. (d, True)) (List.map_filter p_done rs)"

lemma confirmations_simps [simp]:
  "confirmations [] = []"
  "confirmations (r # rs) = (case p_done r of None \<Rightarrow> [] | Some d \<Rightarrow> [(d, True)]) @ confirmations rs"
  by (simp_all add: confirmations_def map_filter_simps split: option.splits)

lemma called_confirmations: "mset (map fst (confirmations rs)) = tags rs"
  by (induction rs) (auto split: option.splits)

text \<open>Confirming a record touches only the counter and the callbacks.\<close>

lemma confirmLocked_eq:
  "confirmLocked r c = c\<lparr>confirmed := confirmed c + 1, cbs := cbs c @ confirmations [r]\<rparr>"
  by (simp add: confirmLocked_def call_done_def split: option.splits)

lemma confirm_prefix_eq:
  assumes "confirm_prefix waits rs n c = (m, c')"
  obtains k v where "m = n + k" "k \<le> length rs" "\<forall>r\<in>set (take k rs). \<not> waits r"
    "k < length rs \<longrightarrow> waits (rs ! k)"
    "c' = c\<lparr>confirmed := v, cbs := cbs c @ confirmations (take k rs)\<rparr>"
  using assms
proof (induction rs arbitrary: n c thesis)
  case Nil
  show ?case by (rule Nil(1) [of 0 "confirmed c"]) (use Nil(2) in simp_all)
next
  case (Cons r rs)
  show ?case
  proof (cases "waits r")
    case True
    show ?thesis by (rule Cons(2) [of 0 "confirmed c"]) (use Cons(3) True in simp_all)
  next
    case False
    from Cons(3) False have "confirm_prefix waits rs (n + 1) (confirmLocked r c) = (m, c')" by simp
    from Cons(1) [OF _ this] obtain k v where k: "m = n + 1 + k" "k \<le> length rs"
      "\<forall>r\<in>set (take k rs). \<not> waits r" "k < length rs \<longrightarrow> waits (rs ! k)"
      "c' = (confirmLocked r c)\<lparr>confirmed := v, cbs := cbs (confirmLocked r c) @ confirmations (take k rs)\<rparr>"
      by metis
    show ?thesis
      by (rule Cons(2) [of "Suc k" v]) (use k False in \<open>simp_all add: confirmLocked_eq\<close>)
  qed
qed

definition poll_acked :: "stream \<Rightarrow> bool \<Rightarrow> u64 option \<Rightarrow> stream" where
  "poll_acked s ok a = (case a of
      Some acked \<Rightarrow> s\<lparr>s_acked := acked\<rparr>
    | None \<Rightarrow> if ok then s else s\<lparr>s_acked := s_written s\<rparr>)"

text \<open>One poll on a live connection, in full.\<close>

lemma pollLocked_cases:
  obtains "cur c = None \<or> unconfirmed c = []" "pollLocked env c = c"
  | s s' t k v w where "cur c = Some s" "unconfirmed c \<noteq> []" "k \<le> length (unconfirmed c)"
      "\<exists>ok a. s' = poll_acked s ok a \<and> fst (read_acked env s c) = (ok, a)"
      "\<forall>r\<in>set (take k (unconfirmed c)). p_end r \<le> s_acked s' \<and>
         (maxUnconfirmed < length (unconfirmed c) \<or> grace c \<le> t - p_at r)"
      "k < length (unconfirmed c) \<Longrightarrow> s_acked s' < p_end (unconfirmed c ! k) \<or>
         (length (unconfirmed c) \<le> maxUnconfirmed \<and> t - p_at (unconfirmed c ! k) < grace c)"
      "pollLocked env c = c\<lparr>world := w, cur := Some s', confirmed := v,
         cbs := cbs c @ confirmations (take k (unconfirmed c)),
         unconfirmed := drop k (unconfirmed c), unconfirmedGauge := unconfirmedGauge c - int k\<rparr>"
proof (cases "cur c = None \<or> unconfirmed c = []")
  case True
  then show thesis by (intro that(1)) (auto simp: pollLocked_def split: option.splits)
next
  case False
  then obtain s where s: "cur c = Some s" by auto
  obtain ok a w where ra: "read_acked env s c = ((ok, a), c\<lparr>world := w\<rparr>)" by (rule read_acked_world)
  define s' where "s' = poll_acked s ok a"
  obtain t w' where "now_op env w = (t, w')" by force
  then have n: "now env (c\<lparr>world := w, cur := Some s'\<rparr>) = (t, c\<lparr>world := w', cur := Some s'\<rparr>)"
    by (simp add: now_def)
  let ?c3 = "c\<lparr>world := w', cur := Some s'\<rparr>"
  define waits :: "pending \<Rightarrow> bool" where "waits = (\<lambda>r. p_end r > s_acked s' \<or>
      (\<not> length (unconfirmed c) > maxUnconfirmed \<and> t - p_at r < grace c))"
  obtain m c4 where cp: "confirm_prefix waits (unconfirmed c) 0 ?c3 = (m, c4)" by force
  obtain k v where "m = 0 + k" and k2: "k \<le> length (unconfirmed c)" "\<forall>r\<in>set (take k (unconfirmed c)). \<not> waits r"
    "k < length (unconfirmed c) \<longrightarrow> waits (unconfirmed c ! k)"
    and "c4 = ?c3\<lparr>confirmed := v, cbs := cbs ?c3 @ confirmations (take k (unconfirmed c))\<rparr>"
    by (rule confirm_prefix_eq [OF cp]) blast
  then have m: "m = k" "c4 = ?c3\<lparr>confirmed := v, cbs := cbs c @ confirmations (take k (unconfirmed c))\<rparr>"
    by simp_all
  have g: "grace (c\<lparr>world := w', cur := Some s'\<rparr>) = grace c" by (simp add: grace_def)
  have p: "pollLocked env c = (if m > 0 then c4\<lparr>unconfirmed := drop m (unconfirmed c4),
        unconfirmedGauge := unconfirmedGauge c4 - int m\<rparr> else c4)"
    using False cp n [folded s'_def]
    by (simp add: pollLocked_def s ra Let_def poll_acked_def [symmetric] s'_def [symmetric] g waits_def)
  show thesis
  proof (rule that(2) [OF s _ k2(1), of s' t v w'])
    show "\<exists>ok a. s' = poll_acked s ok a \<and> fst (read_acked env s c) = (ok, a)"
      by (auto simp: ra s'_def)
    show "pollLocked env c = c\<lparr>world := w', cur := Some s', confirmed := v,
         cbs := cbs c @ confirmations (take k (unconfirmed c)),
         unconfirmed := drop k (unconfirmed c), unconfirmedGauge := unconfirmedGauge c - int k\<rparr>"
      using p m by (cases "m = 0") simp_all
  qed (use False k2(2,3) in \<open>auto simp: waits_def not_less\<close>)
qed

lemma acct_poll: "acct {#} c (pollLocked env c)"
proof (cases rule: pollLocked_cases [of c env])
  case (2 s s' t k v w)
  have t: "tags (take k (unconfirmed c)) + tags (drop k (unconfirmed c)) = tags (unconfirmed c)"
    by (metis append_take_drop_id tags_simps(3))
  have "within c (unconfirmed c) \<Longrightarrow> within c (drop k (unconfirmed c))"
    by (auto simp: within_def dest: in_set_dropD)
  with 2(3) t show ?thesis
    unfolding 2(7) by (auto simp: acct_def config_def client_ok_def called_def owed_def within_def
        maxResends_def called_confirmations [simplified] ac_simps of_nat_diff)
qed simp

lemma acct_charge: "acct {#} c (chargeResendsLocked c)"
proof -
  let ?c = "c\<lparr>resend := []\<rparr>"
  have st: "settles (resend c) ?c (chargeResendsLocked c)"
    unfolding chargeResendsLocked_def by (rule settles_fold) blast
  have g: "unconfirmedGauge (chargeResendsLocked c) = unconfirmedGauge c"
    unfolding chargeResendsLocked_def using gauge_fold [of requeueLocked 0 "resend c" ?c]
    by (simp add: client_simps)
  show ?thesis
    using st g by (auto simp: acct_def settles_def config_def client_ok_def called_def owed_def within_def
        maxResends_def ac_simps)
qed

section \<open>The methods\<close>

definition done_tag :: "nat option \<Rightarrow> nat multiset" where
  "done_tag d = (case d of None \<Rightarrow> {#} | Some n \<Rightarrow> {#n#})"

lemma acct_finish:
  "config (c\<lparr>cbs := []\<rparr>) = config c" "client_ok (c\<lparr>cbs := []\<rparr>) = client_ok c" "owed (c\<lparr>cbs := []\<rparr>) = owed c"
  by (simp_all add: config_def client_ok_def owed_def within_def maxResends_def)

lemma acct_start: "acct m (c\<lparr>cbs := []\<rparr>) c' \<Longrightarrow>
    config c' = config c \<and> (client_ok c \<longrightarrow> client_ok c') \<and> called c' + owed c' = owed c + m"
  by (simp add: acct_def acct_finish) (simp add: called_def)

lemma Send_acct:
  assumes "Send env dl b d c = (err, calls, c')"
  shows "config c' = config c" "client_ok c \<Longrightarrow> client_ok c'"
    "mset (map fst calls) + owed c' = owed c + (if err = None then done_tag d else {#})"
proof -
  let ?r = "\<lparr>p_b = b, p_end = 0, p_at = 0, p_resends = 0, p_done = d\<rparr>"
  let ?c1 = "maybeFailBackLocked env (pollLocked env (reapLocked env (c\<lparr>cbs := []\<rparr>)))"
  obtain e c2 where s: "sendLocked env dl (Some ?r) ?c1 = (e, c2)" by force
  have a1: "acct {#} (c\<lparr>cbs := []\<rparr>) ?c1"
    by (rule acct_trans0 [OF acct_reap acct_trans0 [OF acct_poll acct_failback]])
  have a2: "acct (taken e (Some ?r)) ?c1 c2"
    using s unfolding sendLocked_def by (rule acct_attempts) simp_all
  have "acct (taken e (Some ?r) + {#}) (c\<lparr>cbs := []\<rparr>) (pollLocked env c2)"
    by (rule acct_trans [OF acct_trans0 [OF a1 a2] acct_poll])
  then have "acct (taken e (Some ?r)) (c\<lparr>cbs := []\<rparr>) (pollLocked env c2)" by simp
  note a = acct_start [OF this]
  have r: "err = e" "calls = cbs (pollLocked env c2)" "c' = (pollLocked env c2)\<lparr>cbs := []\<rparr>"
    using assms s by (simp_all add: Send_def Let_def)
  have "taken e (Some ?r) = (if e = None then done_tag d else {#})"
    by (simp add: taken_def done_tag_def split: option.splits)
  then show "config c' = config c" "client_ok c \<Longrightarrow> client_ok c'"
    "mset (map fst calls) + owed c' = owed c + (if err = None then done_tag d else {#})"
    using a by (simp_all add: r acct_finish called_def del: mset_map)
qed

lemma Poll_acct:
  assumes "Poll env dl c = (calls, c')"
  shows "config c' = config c" "client_ok c \<Longrightarrow> client_ok c'" "mset (map fst calls) + owed c' = owed c"
proof -
  let ?c1 = "pollLocked env (reapLocked env (c\<lparr>cbs := []\<rparr>))"
  define c2 where "c2 = (if resend ?c1 \<noteq> [] then (case sendLocked env dl None ?c1 of
      (Some _, c') \<Rightarrow> chargeResendsLocked c' | (None, c') \<Rightarrow> c') else ?c1)"
  obtain e c3 where s: "sendLocked env dl None ?c1 = (e, c3)" by force
  have "acct {#} (c\<lparr>cbs := []\<rparr>) ?c1" using acct_trans0 [OF acct_reap acct_poll] by blast
  moreover have "acct (taken e None) ?c1 c3"
    using s unfolding sendLocked_def by (rule acct_attempts) simp_all
  then have "acct {#} ?c1 c2"
    using s by (auto simp: c2_def taken_def intro: acct_trans0 acct_charge split: option.splits)
  ultimately have "acct {#} (c\<lparr>cbs := []\<rparr>) c2" by (rule acct_trans0)
  note a = acct_start [OF this]
  have r: "calls = cbs c2" "c' = c2\<lparr>cbs := []\<rparr>"
    using assms by (simp_all add: Poll_def Let_def c2_def)
  show "config c' = config c" "client_ok c \<Longrightarrow> client_ok c'" "mset (map fst calls) + owed c' = owed c"
    using a by (simp_all add: r acct_finish called_def del: mset_map)
qed

lemma resend_fold_lose: "resend (fold loseLocked rs c) = resend c"
  by (induction rs arbitrary: c) (simp_all add: loseLocked_def call_done_def split: option.splits)

lemma lose_all:
  assumes "d = fold loseLocked (resend c) c"
  shows "called d = called c + tags (resend c)" "config d = config c" "unconfirmed d = unconfirmed c"
    "cur d = cur c" "idx d = idx c" "leftAt d = leftAt c" "unconfirmedGauge d = unconfirmedGauge c"
proof -
  have "settles (resend c) c d" unfolding assms by (rule settles_fold) blast
  then show "called d = called c + tags (resend c)" "config d = config c" "unconfirmed d = unconfirmed c"
    "cur d = cur c" "idx d = idx c" "leftAt d = leftAt c"
    using resend_fold_lose [of "resend c" c] by (auto simp: settles_def assms)
  show "unconfirmedGauge d = unconfirmedGauge c"
    unfolding assms using gauge_fold [of loseLocked 0 "resend c" c] by (simp add: client_simps)
qed

text \<open>The connection's part of a close.\<close>

lemma close_stream:
  assumes "cur c = Some s"
  obtains ok c3 where "Close env c = (let c4 = (fold loseLocked (resend c3) c3)\<lparr>resend := []\<rparr> in (ok, cbs c4, c4\<lparr>cbs := []\<rparr>))"
    "config c3 = config c" "unconfirmed c3 = []" "cur c3 = None" "idx c3 = idx c" "leftAt c3 = leftAt c"
    "called c3 + tags (resend c3) = owed c"
    "unconfirmedGauge c3 = unconfirmedGauge c - int (length (unconfirmed c))"
proof -
  let ?c0 = "c\<lparr>cbs := []\<rparr>"
  obtain ok0 a w where ra: "read_acked env s ?c0 = ((ok0, a), ?c0\<lparr>world := w\<rparr>)" by (rule read_acked_world)
  let ?c1 = "?c0\<lparr>world := w\<rparr>"
  let ?acked = "case a of Some v \<Rightarrow> v | None \<Rightarrow> s_acked s"
  define cA where "cA = fold (closeOne ?acked) (unconfirmed ?c1) ?c1"
  obtain ok w' where cc: "close_conn env (cA\<lparr>unconfirmed := []\<rparr>) = (ok, cA\<lparr>unconfirmed := [], cur := None, world := w'\<rparr>)"
    by (cases "close_op env (world cA)") (simp add: close_conn_def)
  have st: "settles (unconfirmed ?c1) ?c1 cA"
    unfolding cA_def by (rule settles_fold) (rule settles_closeOne)
  have g: "unconfirmedGauge cA = unconfirmedGauge c - int (length (unconfirmed c))"
    unfolding cA_def by (subst gauge_fold [of "closeOne ?acked" 1, OF gauge_closeOne]) simp
  show thesis
  proof (rule that)
    show "Close env c = (let c4 = (fold loseLocked (resend (cA\<lparr>unconfirmed := [], cur := None, world := w'\<rparr>))
        (cA\<lparr>unconfirmed := [], cur := None, world := w'\<rparr>))\<lparr>resend := []\<rparr> in (ok, cbs c4, c4\<lparr>cbs := []\<rparr>))"
      using assms ra cc [unfolded cA_def] by (simp add: Close_def Let_def cA_def)
  qed (use st g in \<open>auto simp: settles_def config_def called_def owed_def ac_simps\<close>)
qed

lemma Close_acct:
  assumes "Close env c = (ok, calls, c')" "client_ok c"
  shows "config c' = config c" "owed c' = {#}" "client_ok c'" "mset (map fst calls) = owed c"
proof -
  obtain ok c3 where cl: "Close env c = (let c4 = (fold loseLocked (resend c3) c3)\<lparr>resend := []\<rparr> in (ok, cbs c4, c4\<lparr>cbs := []\<rparr>))"
    and c3: "config c3 = config c" "unconfirmed c3 = []" "cur c3 = None" "idx c3 = idx c" "leftAt c3 = leftAt c"
      "called c3 + tags (resend c3) = owed c" "unconfirmedGauge c3 = 0"
  proof (cases "cur c")
    case None
    then have "Close env c = (let c4 = (fold loseLocked (resend (c\<lparr>cbs := []\<rparr>)) (c\<lparr>cbs := []\<rparr>))\<lparr>resend := []\<rparr>
        in (True, cbs c4, c4\<lparr>cbs := []\<rparr>))" by (simp add: Close_def Let_def)
    then show thesis
      by (rule that) (use None assms(2) in \<open>auto simp: client_ok_def config_def called_def owed_def\<close>)
  next
    case (Some s)
    show thesis
      by (rule close_stream [OF Some, of env], rule that) (use assms(2) in \<open>auto simp: client_ok_def\<close>)
  qed
  note l = lose_all [of "fold loseLocked (resend c3) c3" c3, OF refl]
  have r: "calls = cbs (fold loseLocked (resend c3) c3)" "c' = (fold loseLocked (resend c3) c3)\<lparr>resend := [], cbs := []\<rparr>"
    using assms(1) cl by (simp_all add: Let_def)
  have "config (fold loseLocked (resend c3) c3) = config c" using l(2) c3(1) by simp
  then show "config c' = config c" by (simp add: r config_def)
  have a: "Addrs (fold loseLocked (resend c3) c3) = Addrs c" using l(2) c3(1) by (simp add: config_def)
  show "owed c' = {#}" using l c3 by (simp add: r owed_def)
  show "client_ok c'" using l c3 a assms(2) by (simp add: r client_ok_def within_def)
  show "mset (map fst calls) = owed c" using l(1) c3(6) by (simp add: r called_def)
qed

end
