(* ===== verification/Up_Props.thy ===== *)
theory Up_Props
  imports Up_Client
begin

text \<open>
  What the up-tunnel client promises: runs of its methods interleaved with the reader goroutine and
  with the network, exactly one callback per accepted record, the invariant of its lists and of
  its address rotation, and the bound on how long a record can wait for a dead plane.
\<close>

section \<open>Runs of the client\<close>

text \<open>
  \<open>NetEv\<close> lets the network and the clock move between two calls; within a call every operation of
  the environment moves them.
\<close>

datatype 'w tunnel_event =
    SendEv "int option" bytes "nat option"
  | PollEv "int option"
  | CloseEv
  | WatchEv bool
  | NetEv 'w

record 'w tunnel =
  t_client :: "'w client"
  t_called :: "(nat \<times> bool) list"
  t_taken :: "nat list"

inductive tunnel_step :: "'w tunnel_env \<Rightarrow> 'w tunnel \<Rightarrow> 'w tunnel_event \<Rightarrow> 'w tunnel \<Rightarrow> bool"
  for env :: "'w tunnel_env" where
  send: "Send env dl b d (t_client t) = (err, calls, c') \<Longrightarrow>
    tunnel_step env t (SendEv dl b d) \<lparr>t_client = c', t_called = t_called t @ calls,
      t_taken = t_taken t @ (case d of Some n \<Rightarrow> if err = None then [n] else [] | None \<Rightarrow> [])\<rparr>"
| poll: "Poll env dl (t_client t) = (calls, c') \<Longrightarrow>
    tunnel_step env t (PollEv dl) \<lparr>t_client = c', t_called = t_called t @ calls, t_taken = t_taken t\<rparr>"
| close: "Close env (t_client t) = (ok, calls, c') \<Longrightarrow>
    tunnel_step env t CloseEv \<lparr>t_client = c', t_called = t_called t @ calls, t_taken = t_taken t\<rparr>"
| watch: "tunnel_step env t (WatchEv clean) (t\<lparr>t_client := watch_ends clean (t_client t)\<rparr>)"
| net: "tunnel_step env t (NetEv w) (t\<lparr>t_client := (t_client t)\<lparr>world := w\<rparr>\<rparr>)"

inductive_cases tunnel_close_cases: "tunnel_step env t CloseEv t'"

definition fresh_client :: "'w client \<Rightarrow> bool" where
  "fresh_client c \<longleftrightarrow> cur c = None \<and> idx c = 0 \<and> leftAt c = None \<and> unconfirmed c = [] \<and> resend c = [] \<and>
     unconfirmedGauge c = 0 \<and> cbs c = []"

definition tunnel_start :: "'w client \<Rightarrow> 'w tunnel \<Rightarrow> bool" where
  "tunnel_start c t \<longleftrightarrow> fresh_client c \<and> t = \<lparr>t_client = c, t_called = [], t_taken = []\<rparr>"

definition tunnel_ok :: "'w client \<Rightarrow> 'w tunnel \<Rightarrow> bool" where
  "tunnel_ok c0 t \<longleftrightarrow> client_ok (t_client t) \<and> config (t_client t) = config c0 \<and>
     mset (map fst (t_called t)) + owed (t_client t) = mset (t_taken t)"

lemma watch_ok: "client_ok (watch_ends clean c) = client_ok c" "config (watch_ends clean c) = config c"
  "owed (watch_ends clean c) = owed c"
  by (simp_all add: watch_ends_def client_ok_def config_def owed_def within_def maxResends_def split: option.splits)

lemma net_ok: "client_ok (c\<lparr>world := w\<rparr>) = client_ok c" "config (c\<lparr>world := w\<rparr>) = config c"
  "owed (c\<lparr>world := w\<rparr>) = owed c"
  by (simp_all add: client_ok_def config_def owed_def within_def maxResends_def)

lemma account: "a + b = c + m \<Longrightarrow> p + c = t \<Longrightarrow> p + a + b = t + m" for m :: "'a multiset"
  by (metis add.assoc)

interpretation tunnel: transition_system "tunnel_start c0" "tunnel_step env" "tunnel_ok c0" for c0 env
proof unfold_locales
  show "tunnel_ok c0 t" if "tunnel_start c0 t" for t
    using that by (auto simp: tunnel_start_def fresh_client_def tunnel_ok_def client_ok_def owed_def within_def)
  show "tunnel_ok c0 t'" if ok: "tunnel_ok c0 t" and st: "tunnel_step env t ev t'" for t ev t'
    using st
  proof cases
    case (send dl b d err calls c')
    have "mset (map fst (t_called t)) + owed (t_client t) = mset (t_taken t)" "client_ok c'" "config c' = config c0"
      using ok Send_acct(1,2) [OF send(3)] by (auto simp: tunnel_ok_def)
    with account [OF Send_acct(3) [OF send(3)] this(1)] show ?thesis
      by (cases err; cases d) (simp_all add: send(2) tunnel_ok_def done_tag_def)
  next
    case (poll dl calls c')
    have "mset (map fst (t_called t)) + owed (t_client t) = mset (t_taken t)"
      using ok by (simp add: tunnel_ok_def)
    from account [OF _ this, of "mset (map fst calls)" "owed c'" "{#}"] show ?thesis
      using ok Poll_acct [OF poll(3)] by (auto simp: poll(2) tunnel_ok_def)
  next
    case (close k calls c')
    then show ?thesis using ok Close_acct [OF close(3)] by (auto simp: tunnel_ok_def)
  qed (use ok in \<open>auto simp: tunnel_ok_def watch_ok net_ok\<close>)
qed

section \<open>A dead plane\<close>

text \<open>Neither address takes a dial: what one flush and one poll do to the records waiting.\<close>

definition no_dial :: "'w tunnel_env \<Rightarrow> bool" where
  "no_dial env \<longleftrightarrow> (\<forall>a w. \<not> fst (dial_op env a w))"

definition charged :: "nat \<Rightarrow> pending list \<Rightarrow> pending list" where
  "charged m rs = map (\<lambda>r. r\<lparr>p_resends := p_resends r + 1\<rparr>) (filter (\<lambda>r. p_resends r + 1 \<le> m) rs)"

definition given_up :: "nat \<Rightarrow> pending list \<Rightarrow> (nat \<times> bool) list" where
  "given_up m rs = map (\<lambda>d. (d, False)) (List.map_filter p_done (filter (\<lambda>r. m < p_resends r + 1) rs))"

lemma requeue_fold:
  "resend (fold requeueLocked rs c) = resend c @ charged (maxResends c) rs \<and>
   cbs (fold requeueLocked rs c) = cbs c @ given_up (maxResends c) rs"
proof (induction rs arbitrary: c)
  case (Cons r rs)
  have "maxResends (requeueLocked r c) = maxResends c"
    using settles_requeue [of r c] by (auto simp: settles_def intro: config_maxResends)
  with Cons show ?case
    by (auto simp: requeueLocked_def loseLocked_def call_done_def Let_def charged_def given_up_def
        map_filter_simps split: option.splits)
qed (simp add: charged_def given_up_def map_filter_simps)

text \<open>The fields a failed dial leaves alone.\<close>

definition waiting :: "'w client \<Rightarrow> pending list \<times> pending list \<times> (nat \<times> bool) list \<times> stream option \<times> nat" where
  "waiting c = (resend c, unconfirmed c, cbs c, cur c, maxResends c)"

lemma waiting_advance: "waiting (advanceLocked env c) = waiting c"
  by (cases rule: advanceLocked_cases [of c env]) (simp_all add: waiting_def maxResends_def)

lemma dead_ensure:
  assumes "no_dial env" "cur c = None"
  obtains e c1 where "ensureConnLocked env c = (Some e, c1)" "waiting c1 = waiting c"
proof (cases "Addrs c = []")
  case True
  then show thesis using assms that by (simp add: ensureConnLocked_def)
next
  case False
  obtain ok w where d: "dial_op env (Addrs c ! (idx c mod length (Addrs c))) (world c) = (ok, w)" by force
  then have "\<not> ok" using assms(1) by (metis fst_conv no_dial_def)
  with d False assms(2) have "ensureConnLocked env c = (Some ErrDial, c\<lparr>world := w\<rparr>)"
    by (simp add: ensureConnLocked_def)
  then show thesis by (rule that) (simp add: waiting_def maxResends_def)
qed

lemma dead_attempts:
  assumes "no_dial env" "cur c = None"
  shows "\<exists>e c'. send_attempts (Suc n) env dl rec le c = (Some e, c') \<and> waiting c' = waiting c"
  using assms
proof (induction n arbitrary: c le)
  case 0
  obtain e c1 where e: "ensureConnLocked env c = (Some e, c1)" "waiting c1 = waiting c"
    by (rule dead_ensure [OF 0])
  have "waiting (c1\<lparr>failures := failures c1 + 1\<rparr>) = waiting c1" by (simp add: waiting_def maxResends_def)
  with e show ?case by (simp add: waiting_advance)
next
  case (Suc n)
  obtain e c1 where e: "ensureConnLocked env c = (Some e, c1)" "waiting c1 = waiting c"
    by (rule dead_ensure [OF Suc(2,3)])
  define d where "d = advanceLocked env (c1\<lparr>failures := failures c1 + 1\<rparr>)"
  have d: "waiting d = waiting c"
    unfolding d_def waiting_advance e(2) [symmetric] by (simp add: waiting_def maxResends_def)
  then have "cur d = None" using Suc(3) by (simp add: waiting_def)
  from Suc(1) [OF Suc(2) this, of "Some e"] d e(1) show ?case by (simp add: d_def)
qed

lemma dead_poll:
  assumes "no_dial env" "cur c = None" "unconfirmed c = []"
  obtains calls c' where "Poll env dl c = (calls, c')" "calls = given_up (maxResends c) (resend c)"
    "resend c' = charged (maxResends c) (resend c)" "cur c' = None" "unconfirmed c' = []"
    "maxResends c' = maxResends c"
proof -
  let ?c = "c\<lparr>cbs := []\<rparr>"
  have idle: "pollLocked env (reapLocked env ?c) = ?c"
    using assms by (simp add: reapLocked_def pollLocked_def)
  have m: "maxResends ?c = maxResends c" by (simp add: maxResends_def)
  show thesis
  proof (cases "resend c = []")
    case True
    then have "Poll env dl c = ([], ?c)" by (simp add: Poll_def Let_def idle)
    then show thesis by (rule that) (use True assms m in \<open>simp_all add: given_up_def charged_def map_filter_simps\<close>)
  next
    case False
    obtain e c1 where s: "sendLocked env dl None ?c = (Some e, c1)" and w: "waiting c1 = waiting ?c"
      using dead_attempts [OF assms(1), of ?c 1 dl None None] assms(2) by (auto simp: sendLocked_def numeral_2_eq_2)
    define c2 where "c2 = chargeResendsLocked c1"
    have f: "resend c1 = resend c" "cbs c1 = []" "cur c1 = None" "unconfirmed c1 = []" "maxResends c1 = maxResends c"
      using w assms(2,3) m by (simp_all add: waiting_def)
    have m1: "maxResends (c1\<lparr>resend := []\<rparr>) = maxResends c" unfolding f(5) [symmetric] by (simp add: maxResends_def)
    have r: "resend c2 = charged (maxResends c) (resend c)" "cbs c2 = given_up (maxResends c) (resend c)"
      using requeue_fold [of "resend c1" "c1\<lparr>resend := []\<rparr>"] m1 f(1,2)
      by (simp_all add: c2_def chargeResendsLocked_def)
    have "settles (resend c1) (c1\<lparr>resend := []\<rparr>) c2"
      unfolding c2_def chargeResendsLocked_def by (rule settles_fold) blast
    then have "cur c2 = None" "unconfirmed c2 = []" "config c2 = config (c1\<lparr>resend := []\<rparr>)"
      using f by (simp_all add: settles_def)
    then have "cur c2 = None" "unconfirmed c2 = []" "maxResends c2 = maxResends c"
      using m1 config_maxResends [of c2 "c1\<lparr>resend := []\<rparr>"] by simp_all
    moreover have "maxResends (c2\<lparr>cbs := []\<rparr>) = maxResends c2" by (simp add: maxResends_def)
    moreover have p: "Poll env dl c = (cbs c2, c2\<lparr>cbs := []\<rparr>)"
      using False by (simp add: Poll_def Let_def idle s c2_def)
    ultimately show thesis using r by (intro that [OF p]) simp_all
  qed
qed

fun polls :: "nat \<Rightarrow> 'w tunnel_env \<Rightarrow> int option \<Rightarrow> 'w client \<Rightarrow> (nat \<times> bool) list \<times> 'w client" where
  "polls 0 env dl c = ([], c)"
| "polls (Suc n) env dl c = (case Poll env dl c of (calls, c1) \<Rightarrow>
     (case polls n env dl c1 of (later, c2) \<Rightarrow> (calls @ later, c2)))"

lemma given_up_all_false: "x \<in> set (given_up m rs) \<Longrightarrow> \<not> snd x"
  by (auto simp: given_up_def)

lemma charged_or_given_up: "mset (map fst (given_up m rs)) + tags (charged m rs) = tags rs"
  by (induction rs) (auto simp: given_up_def charged_def map_filter_simps ac_simps split: option.splits)

lemma polls_dead:
  assumes "no_dial env" "cur c = None" "unconfirmed c = []" "within c (resend c)"
    and "\<forall>r\<in>set (resend c). maxResends c < p_resends r + n"
  shows "owed (snd (polls n env dl c)) = {#} \<and> mset (map fst (fst (polls n env dl c))) = owed c \<and>
    (\<forall>x\<in>set (fst (polls n env dl c)). \<not> snd x)"
  using assms
proof (induction n arbitrary: c)
  case 0
  then have "r \<notin> set (resend c)" for r by (auto simp: within_def leD)
  then have "resend c = []" by (cases "resend c") auto
  with 0 show ?case by (simp add: owed_def)
next
  case (Suc n)
  obtain calls c1 where p: "Poll env dl c = (calls, c1)" "calls = given_up (maxResends c) (resend c)"
    "resend c1 = charged (maxResends c) (resend c)" "cur c1 = None" "unconfirmed c1 = []"
    "maxResends c1 = maxResends c"
    by (rule dead_poll [OF Suc(2-4), of dl])
  have "within c1 (resend c1)" "\<forall>r\<in>set (resend c1). maxResends c1 < p_resends r + n"
    using Suc(6) by (auto simp: p(3,6) within_def charged_def)
  note ih = Suc(1) [OF Suc(2) p(4,5) this]
  have "owed c = mset (map fst calls) + owed c1"
    using charged_or_given_up [of "maxResends c" "resend c"] Suc(4) p by (simp add: owed_def del: mset_map)
  then show ?case
    using ih p(1,2) given_up_all_false by (auto simp: case_prod_beta)
qed

section \<open>A concrete tunnel\<close>

text \<open>
  A network that takes every dial and every write and acknowledges at once, with the world as its
  clock in nanoseconds, and one that takes no dial.
\<close>

definition example_net :: "int tunnel_env" where
  "example_net = \<lparr>dial_op = \<lambda>a w. (True, w), write_op = \<lambda>d b w. (True, w), close_op = \<lambda>w. (True, w),
     unsentBytes = \<lambda>w. (Some 0, w), now_op = \<lambda>w. (w, w)\<rparr>"

definition dead_net :: "int tunnel_env" where
  "dead_net = example_net\<lparr>dial_op := \<lambda>a w. (False, w)\<rparr>"

definition example_client :: "int client" where
  "example_client = \<lparr>Addrs = [''a'', ''b''], Prefer = 0, Timeout = 0, ConfirmGrace = 0, MaxResends = 0,
     cur = None, idx = 0, leftAt = None, unconfirmed = [], resend = [], written = 0, sent_bytes = 0,
     failures = 0, redials = 0, confirmed = 0, resent = 0, lost = 0, peerClosed = 0,
     unconfirmedGauge = 0, cbs = [], world = 0\<rparr>"

definition example_written :: "int client" where
  "example_written = example_client\<lparr>cur := Some \<lparr>s_written = 2, s_acked = 2, s_dead = False, s_clean = False\<rparr>,
     unconfirmed := [\<lparr>p_b = [1, 2], p_end = 2, p_at = 0, p_resends = 0, p_done = Some 7\<rparr>],
     written := 1, sent_bytes := 2, redials := 1, unconfirmedGauge := 1\<rparr>"

lemmas tunnel_eval = Send_def Poll_def sendLocked_def reapLocked_def pollLocked_def maybeFailBackLocked_def
  ensureConnLocked_def flushResendLocked.simps writeLocked_def write_deadline_def now_def read_acked_def
  retireLocked_def close_conn_def advanceLocked_def breakLocked_def chargeResendsLocked_def retireOne_def
  dropGauge_def requeueLocked_def confirmLocked_def loseLocked_def call_done_def closeOne_def Close_def
  grace_def maxResends_def second_def maxUnconfirmed_def example_net_def dead_net_def numeral_2_eq_2

lemma example_send: "Send example_net None [1, 2] (Some 7) example_client = (None, [], example_written)"
  by (simp add: tunnel_eval example_client_def example_written_def Let_def)

lemma example_poll:
  "Poll example_net None (example_written\<lparr>world := 2000000000\<rparr>) =
     ([(7, True)], example_written\<lparr>world := 2000000000, unconfirmed := [], unconfirmedGauge := 0, confirmed := 1\<rparr>)"
  by (simp add: tunnel_eval example_client_def example_written_def Let_def)

definition example_tunnel :: "int tunnel" where
  "example_tunnel = \<lparr>t_client = example_client, t_called = [], t_taken = []\<rparr>"

lemma example_tunnel_start: "fresh_client example_client"
  by (simp add: fresh_client_def example_client_def)

definition example_final :: "int tunnel" where
  "example_final = \<lparr>t_client = example_written\<lparr>world := 2000000000, unconfirmed := [],
     unconfirmedGauge := 0, confirmed := 1\<rparr>, t_called = [(7, True)], t_taken = [7]\<rparr>"

lemma example_tunnel_run:
  "run (tunnel_step example_net) example_tunnel [SendEv None [1, 2] (Some 7), NetEv 2000000000, PollEv None]
     example_final"
proof -
  let ?t1 = "\<lparr>t_client = example_written, t_called = [], t_taken = [7]\<rparr> :: int tunnel"
  let ?t2 = "?t1\<lparr>t_client := example_written\<lparr>world := 2000000000\<rparr>\<rparr>"
  have s1: "tunnel_step example_net example_tunnel (SendEv None [1, 2] (Some 7)) ?t1"
    using tunnel_step.send [of example_net None "[1, 2]" "Some 7" example_tunnel None "[]" example_written] example_send
    by (simp add: example_tunnel_def)
  have s2: "tunnel_step example_net ?t1 (NetEv 2000000000) ?t2"
    using tunnel_step.net [of example_net ?t1 2000000000] by simp
  have "Poll example_net None (t_client ?t2) = ([(7, True)],
      example_written\<lparr>world := 2000000000, unconfirmed := [], unconfirmedGauge := 0, confirmed := 1\<rparr>)"
    using example_poll by simp
  from tunnel_step.poll [OF this] have s3: "tunnel_step example_net ?t2 (PollEv None) example_final"
    by (simp add: example_final_def)
  show ?thesis unfolding run_Cons_iff run_Nil_iff using s1 s2 s3 by blast
qed

section \<open>The client's promises\<close>

text \<open>
  C4. Every accepted record is settled exactly once: over any run of sends, polls, closes,
  reader ends and network moves, the callbacks called so far together with those of the records
  still held are exactly the callbacks of the records whose send succeeded; and when the run ends
  with a close, every one of them has been called.
\<close>

theorem callbacks_exactly_once:
  assumes "fresh_client c" "run (tunnel_step env) \<lparr>t_client = c, t_called = [], t_taken = []\<rparr> es t"
  shows "mset (map fst (t_called t)) + tags (unconfirmed (t_client t)) + tags (resend (t_client t)) = mset (t_taken t) \<and>
    (es \<noteq> [] \<and> last es = CloseEv \<longrightarrow> mset (map fst (t_called t)) = mset (t_taken t))"
proof -
  let ?s = "\<lparr>t_client = c, t_called = [], t_taken = []\<rparr>"
  have st: "tunnel_start c ?s" using assms(1) by (simp add: tunnel_start_def)
  have ok: "tunnel_ok c t" using tunnel.invar_reach [OF st assms(2)] .
  have "owed (t_client t) = {#}" if "es \<noteq> []" "last es = CloseEv"
  proof -
    have "run (tunnel_step env) ?s (butlast es @ [CloseEv]) t" using assms(2) that by (metis append_butlast_last_id)
    then obtain u where u: "run (tunnel_step env) ?s (butlast es) u" "tunnel_step env u CloseEv t"
      by (auto simp: run_snoc)
    have "client_ok (t_client u)" using tunnel.invar_reach [OF st u(1)] by (simp add: tunnel_ok_def)
    with u(2) show ?thesis by (auto elim!: tunnel_close_cases dest: Close_acct(2))
  qed
  with ok show ?thesis by (auto simp: tunnel_ok_def owed_def ac_simps)
qed

theorem callbacks_exactly_once_witness:
  "t_called example_final = [(7, True)] \<and>
   mset (map fst (t_called example_final)) + tags (unconfirmed (t_client example_final)) +
     tags (resend (t_client example_final)) = mset (t_taken example_final)"
  using callbacks_exactly_once [OF example_tunnel_start example_tunnel_run [unfolded example_tunnel_def]]
  by (simp add: example_final_def)

text \<open>
  The client's state stays consistent: in every reachable state the reported gauge is the
  number of unconfirmed records, none is held without a connection, no record has spent more than
  its budget of resends, the address index is in range, and the fail-back clock runs exactly while the
  client is away from the preferred address.
\<close>

theorem tunnel_state_consistent:
  assumes "fresh_client c" "run (tunnel_step env) \<lparr>t_client = c, t_called = [], t_taken = []\<rparr> es t"
  defines "k \<equiv> t_client t"
  shows "unconfirmedGauge k = int (length (unconfirmed k)) \<and> (cur k = None \<longrightarrow> unconfirmed k = []) \<and>
    (\<forall>r \<in> set (unconfirmed k) \<union> set (resend k). p_resends r \<le> maxResends c) \<and>
    (idx k = 0 \<or> idx k < length (Addrs c)) \<and> (leftAt k = None \<longleftrightarrow> idx k = 0)"
proof -
  have "tunnel_start c \<lparr>t_client = c, t_called = [], t_taken = []\<rparr>" using assms(1) by (simp add: tunnel_start_def)
  from tunnel.invar_reach [OF this assms(2)] have "client_ok k" "config k = config c"
    by (simp_all add: tunnel_ok_def k_def)
  then show ?thesis
    using config_maxResends [of k c] by (auto simp: client_ok_def within_def config_def)
qed

theorem tunnel_state_consistent_witness:
  "\<exists>t. run (tunnel_step example_net) example_tunnel [SendEv None [1, 2] (Some 7), NetEv 2000000000, PollEv None] t \<and>
     unconfirmedGauge (t_client t) = int (length (unconfirmed (t_client t)))"
  using tunnel_state_consistent [OF example_tunnel_start example_tunnel_run [unfolded example_tunnel_def]]
    example_tunnel_run by blast



text \<open>
  C15. No record waits for ever on a dead plane: with no address taking a dial, as many polls as a
  record has resends, plus one, empty the client; every record's callback has then been called, each
  with \<open>false\<close>.
\<close>

theorem dead_plane_gives_up:
  assumes "no_dial env" "client_ok c" "cur c = None" "polls (maxResends c + 1) env dl c = (calls, c')"
  shows "unconfirmed c' = [] \<and> mset (map fst calls) = tags (resend c) \<and> (\<forall>(d, ok)\<in>set calls. \<not> ok) \<and>
    tags (resend c') = {#}"
proof -
  have u: "unconfirmed c = []" "within c (resend c)" using assms(2,3) by (simp_all add: client_ok_def)
  have "unconfirmed (snd (polls n env dl d)) = []" if "cur d = None" "unconfirmed d = []" for n d
    using that
  proof (induction n arbitrary: d)
    case (Suc n)
    show ?case
      by (rule dead_poll [OF assms(1) Suc(2,3), of dl]) (use Suc(1) in \<open>simp add: case_prod_beta\<close>)
  qed simp
  from this [OF assms(3) u(1), of "maxResends c + 1"] show ?thesis
    using polls_dead [OF assms(1,3) u, of "maxResends c + 1" dl] assms(4) u(1)
    by (auto simp: owed_def)
qed

definition example_waiting :: "int client" where
  "example_waiting = example_client\<lparr>resend := [\<lparr>p_b = [1, 2], p_end = 2, p_at = 0, p_resends = 1, p_done = Some 7\<rparr>]\<rparr>"

theorem dead_plane_gives_up_witness:
  "fst (polls (maxResends example_waiting + 1) dead_net None example_waiting) = [(7, False)]"
proof -
  obtain calls c' where p: "polls (maxResends example_waiting + 1) dead_net None example_waiting = (calls, c')" by force
  have "no_dial dead_net" by (simp add: no_dial_def dead_net_def)
  moreover have "client_ok example_waiting" "cur example_waiting = None"
    by (simp_all add: client_ok_def within_def example_waiting_def example_client_def maxResends_def)
  moreover have "tags (resend example_waiting) = {#7#}" by (simp add: example_waiting_def)
  ultimately have "mset (map fst calls) = {#7#}" and f: "\<forall>(d, ok)\<in>set calls. \<not> ok"
    using dead_plane_gives_up [OF _ _ _ p] by simp_all
  then have "map fst calls = [7]" by (simp del: mset_map)
  with f p show ?thesis by auto
qed

text \<open>
  Fail-back never turns records in flight into resends: it changes no record list and calls no
  callback, it leaves the address and the connection alone while a record is unconfirmed, and it
  moves to the preferred address only once the client has been away for the configured time.
\<close>

theorem failback_spares_records_in_flight:
  assumes "client_ok c" "maybeFailBackLocked env c = c'"
  shows "unconfirmed c' = unconfirmed c \<and> resend c' = resend c \<and> cbs c' = cbs c \<and>
    (unconfirmed c \<noteq> [] \<longrightarrow> cur c' = cur c \<and> idx c' = idx c) \<and>
    (idx c' \<noteq> idx c \<longrightarrow> idx c' = 0 \<and> cur c' = None \<and> 0 < Prefer c \<and>
       (\<exists>left. leftAt c = Some left \<and> Prefer c \<le> fst (now env c) - left))"
proof (cases "leftAt c")
  case None
  then show ?thesis using assms(2) by (auto simp: maybeFailBackLocked_def)
next
  case (Some left)
  obtain t w where n: "now env c = (t, c\<lparr>world := w\<rparr>)" by (rule now_world)
  obtain ok v where "close_op env w = (ok, v)" by force
  then have cc: "close_conn env (c\<lparr>world := w, idx := 0, leftAt := None\<rparr>) =
      (ok, c\<lparr>idx := 0, leftAt := None, world := v, cur := None\<rparr>)"
    by (simp add: close_conn_def)
  show ?thesis
    using assms cc by (auto simp: maybeFailBackLocked_def Some n Let_def client_ok_def split: if_splits option.splits)
qed

theorem failback_spares_records_in_flight_witness:
  "client_ok example_written \<and>
   unconfirmed (maybeFailBackLocked example_net example_written) = unconfirmed example_written"
proof -
  have "client_ok example_written"
    by (simp add: client_ok_def within_def example_written_def example_client_def maxResends_def)
  then show ?thesis using failback_spares_records_in_flight [of example_written example_net] by blast
qed

end
