(* ===== verification/Up_Queue.thy ===== *)
theory Up_Queue
  imports Up_Props
begin

text \<open>
  The bounded queue in front of the client (\<^verbatim>\<open>src/uptunnel/queue.go\<close>), with its publishers and its drain
  as concurrent threads. Every step below is one atomic action of the source: a compare-and-swap
  on the byte counter, a channel operation, an addition, a locked section. What the drain needs
  of the client it sends through is the contract \<open>confirming_sink\<close>, which the up-tunnel client implements.
\<close>

section \<open>State\<close>

datatype pub_err = ErrQueueFull | ErrPubCtx

record item =
  i_rec :: bytes
  i_sent :: "nat option"
  i_tag :: nat

text \<open>
  Where a publish stands: before its first offer; between the reservation and the channel send
  (\<open>None\<close> for the first offer, \<open>Some r\<close> for one in the wait loop with room signal \<open>r\<close>); about to give
  the bytes back; at the head of the loop; about to offer again; blocked; finished.
\<close>

datatype pub_pc =
    PStart
  | PReserved "nat option"
  | PRelease "nat option"
  | PLoop
  | PTry nat
  | PWaiting nat
  | PDone "pub_err + unit"

record publisher =
  pb_item :: item
  pb_pc :: pub_pc

text \<open>The drain: idle, holding a record it has taken, about to wake waiters, about to send, stopped.\<close>

datatype run_pc = RIdle | RTook item | RWake item | RSend item | RStopped

record 'c queue =
  qc :: 'c
  ch :: "item list"
  ch_cap :: nat
  MaxBytes :: int
  Wait :: int
  q_bytes :: int
  room :: "nat option"
  rooms :: nat
  closed_rooms :: "nat set"
  q_enqueued :: u64
  q_sent :: u64
  q_shed :: u64
  q_failed :: u64
  q_waited :: u64
  pubs :: "publisher list"
  runner :: run_pc
  settled :: "(nat \<times> bool) list"
  sent_calls :: "nat list"

definition NewQueue :: "'c \<Rightarrow> int \<Rightarrow> int \<Rightarrow> int \<Rightarrow> 'c queue" where
  "NewQueue c depth mb w = \<lparr>qc = c, ch = [], ch_cap = (if depth \<le> 0 then 1024 else nat depth),
     MaxBytes = mb, Wait = w, q_bytes = 0, room = None, rooms = 0, closed_rooms = {},
     q_enqueued = 0, q_sent = 0, q_shed = 0, q_failed = 0, q_waited = 0,
     pubs = [], runner = RIdle, settled = [], sent_calls = []\<rparr>"

section \<open>Atomic actions\<close>

definition item_len :: "item \<Rightarrow> int" where
  "item_len it = int (length (i_rec it))"

text \<open>The compare-and-swap loop takes effect at its last iteration.\<close>

definition reserve :: "int \<Rightarrow> 'c queue \<Rightarrow> bool \<times> 'c queue" where
  "reserve n q = (let b = q_bytes q in
     if MaxBytes q > 0 \<and> b > 0 \<and> b + n > MaxBytes q then (False, q)
     else (True, q\<lparr>q_bytes := b + n\<rparr>))"

definition refuse :: "'c queue \<Rightarrow> pub_err \<times> 'c queue" where
  "refuse q = (ErrQueueFull, q\<lparr>q_shed := q_shed q + 1\<rparr>)"

definition roomSignal :: "'c queue \<Rightarrow> nat \<times> 'c queue" where
  "roomSignal q = (case room q of
      Some r \<Rightarrow> (r, q)
    | None \<Rightarrow> (rooms q, q\<lparr>room := Some (rooms q), rooms := rooms q + 1\<rparr>))"

definition release :: "int \<Rightarrow> 'c queue \<Rightarrow> 'c queue" where
  "release n q = q\<lparr>q_bytes := q_bytes q - n\<rparr>"

definition wake :: "'c queue \<Rightarrow> 'c queue" where
  "wake q = (case room q of
      None \<Rightarrow> q
    | Some r \<Rightarrow> q\<lparr>closed_rooms := insert r (closed_rooms q), room := None\<rparr>)"

text \<open>\<^verbatim>\<open>taken\<close> run without interruption, and \<^verbatim>\<open>offer\<close> likewise.\<close>

definition taken_off :: "item \<Rightarrow> 'c queue \<Rightarrow> 'c queue" where
  "taken_off it q = wake (release (item_len it) q)"

definition offer :: "item \<Rightarrow> 'c queue \<Rightarrow> bool \<times> 'c queue" where
  "offer it q = (case reserve (item_len it) q of
      (False, q') \<Rightarrow> (False, q')
    | (True, q') \<Rightarrow>
        if length (ch q') < ch_cap q' then (True, q'\<lparr>ch := ch q' @ [it], q_enqueued := q_enqueued q' + 1\<rparr>)
        else (False, release (item_len it) q'))"

section \<open>A publish, step by step\<close>

datatype pub_choice = PGo | PTimer | PCtx

definition set_pc :: "nat \<Rightarrow> pub_pc \<Rightarrow> 'c queue \<Rightarrow> 'c queue" where
  "set_pc i pc q = q\<lparr>pubs := (pubs q)[i := (pubs q ! i)\<lparr>pb_pc := pc\<rparr>]\<rparr>"

text \<open>What follows an offer that found no room: the first one may refuse or start to wait.\<close>

definition no_room :: "nat \<Rightarrow> nat option \<Rightarrow> 'c queue \<Rightarrow> 'c queue" where
  "no_room i k q = (case k of
      Some r \<Rightarrow> set_pc i (PWaiting r) q
    | None \<Rightarrow>
        if Wait q \<le> 0 then (case refuse q of (e, q') \<Rightarrow> set_pc i (PDone (Inl e)) q')
        else set_pc i PLoop (q\<lparr>q_waited := q_waited q + 1\<rparr>))"

definition try_reserve :: "nat \<Rightarrow> nat option \<Rightarrow> 'c queue \<Rightarrow> 'c queue" where
  "try_reserve i k q = (case reserve (item_len (pb_item (pubs q ! i))) q of
      (True, q') \<Rightarrow> set_pc i (PReserved k) q'
    | (False, q') \<Rightarrow> no_room i k q')"

definition publish_step :: "pub_choice \<Rightarrow> nat \<Rightarrow> 'c queue \<Rightarrow> 'c queue option" where
  "publish_step choice i q = (let p = pubs q ! i; it = pb_item p in
     case pb_pc p of
       PStart \<Rightarrow> if choice = PCtx then Some (set_pc i (PDone (Inl ErrPubCtx)) q)
                 else Some (try_reserve i None q)
     | PReserved k \<Rightarrow>
         if length (ch q) < ch_cap q
         then Some (set_pc i (PDone (Inr ())) (q\<lparr>ch := ch q @ [it], q_enqueued := q_enqueued q + 1\<rparr>))
         else Some (set_pc i (PRelease k) q)
     | PRelease k \<Rightarrow> Some (no_room i k (release (item_len it) q))
     | PLoop \<Rightarrow> (case roomSignal q of (r, q') \<Rightarrow> Some (set_pc i (PTry r) q'))
     | PTry r \<Rightarrow> Some (try_reserve i (Some r) q)
     | PWaiting r \<Rightarrow> (case choice of
           PGo \<Rightarrow> if r \<in> closed_rooms q then Some (set_pc i PLoop q) else None
         | PTimer \<Rightarrow> (case refuse q of (e, q') \<Rightarrow> Some (set_pc i (PDone (Inl e)) q'))
         | PCtx \<Rightarrow> Some (set_pc i (PDone (Inl ErrPubCtx)) q))
     | PDone _ \<Rightarrow> None)"

section \<open>The drain\<close>

text \<open>
  The sink's operations: a send answers whether it was written and which callbacks it ran, a poll
  which callbacks it ran. A callback is the tag of the record it was registered for.
\<close>

type_synonym 'c sink_send = "bytes \<Rightarrow> nat \<Rightarrow> 'c \<Rightarrow> bool \<times> (nat \<times> bool) list \<times> 'c"
type_synonym 'c sink_poll = "'c \<Rightarrow> (nat \<times> bool) list \<times> 'c"

text \<open>The closure \<^verbatim>\<open>done\<close> of the record with the given tag, as \<^verbatim>\<open>Run\<close> registers it.\<close>

definition run_done :: "nat \<times> bool \<Rightarrow> 'c queue \<Rightarrow> 'c queue" where
  "run_done call q = (case call of (tag, ok) \<Rightarrow>
     let q' = q\<lparr>settled := settled q @ [(tag, ok)]\<rparr> in
     if \<not> ok then q'\<lparr>q_failed := q_failed q' + 1\<rparr>
     else let q'' = q'\<lparr>q_sent := q_sent q' + 1\<rparr> in
       (case i_sent (pb_item (pubs q ! tag)) of
          None \<Rightarrow> q'' | Some f \<Rightarrow> q''\<lparr>sent_calls := sent_calls q'' @ [f]\<rparr>))"

datatype run_choice = RStop | RTick | RTake

definition run_step :: "'c sink_send \<Rightarrow> 'c sink_poll \<Rightarrow> run_choice \<Rightarrow> 'c queue \<Rightarrow> 'c queue option" where
  "run_step snd_op pol_op choice q = (case runner q of
      RIdle \<Rightarrow> (case choice of
          RStop \<Rightarrow> Some (q\<lparr>runner := RStopped\<rparr>)
        | RTick \<Rightarrow> (case pol_op (qc q) of (calls, c) \<Rightarrow> Some (fold run_done calls (q\<lparr>qc := c\<rparr>)))
        | RTake \<Rightarrow> (case ch q of
            [] \<Rightarrow> None
          | it # rest \<Rightarrow> Some (q\<lparr>ch := rest, runner := RTook it\<rparr>)))
    | RTook it \<Rightarrow> Some ((release (item_len it) q)\<lparr>runner := RWake it\<rparr>)
    | RWake it \<Rightarrow> Some ((wake q)\<lparr>runner := RSend it\<rparr>)
    | RSend it \<Rightarrow> (case snd_op (i_rec it) (i_tag it) (qc q) of (ok, calls, c) \<Rightarrow>
        let q' = fold run_done calls (q\<lparr>qc := c, runner := RIdle\<rparr>) in
        if ok then Some q'
        else Some (q'\<lparr>settled := settled q' @ [(i_tag it, False)], q_failed := q_failed q' + 1\<rparr>))
    | RStopped \<Rightarrow> None)"

section \<open>Interleavings\<close>

datatype queue_event =
    Arrive bytes "nat option"
  | PubStep nat pub_choice
  | RunStep run_choice
  | SinkMove

text \<open>A new publish gets the next tag; its record is the caller's no longer.\<close>

definition arrive :: "bytes \<Rightarrow> nat option \<Rightarrow> 'c queue \<Rightarrow> 'c queue" where
  "arrive b f q = q\<lparr>pubs := pubs q @ [\<lparr>pb_item = \<lparr>i_rec = b, i_sent = f, i_tag = length (pubs q)\<rparr>, pb_pc = PStart\<rparr>]\<rparr>"

text \<open>\<open>moves\<close> is what the sink's own threads do between the drain's calls.\<close>

inductive queue_step ::
    "'c sink_send \<Rightarrow> 'c sink_poll \<Rightarrow> ('c \<Rightarrow> 'c \<Rightarrow> bool) \<Rightarrow> 'c queue \<Rightarrow> queue_event \<Rightarrow> 'c queue \<Rightarrow> bool"
  for snd_op :: "'c sink_send" and pol_op :: "'c sink_poll" and moves :: "'c \<Rightarrow> 'c \<Rightarrow> bool" where
  arrives: "queue_step snd_op pol_op moves q (Arrive b f) (arrive b f q)"
| publishes: "i < length (pubs q) \<Longrightarrow> publish_step choice i q = Some q' \<Longrightarrow>
    queue_step snd_op pol_op moves q (PubStep i choice) q'"
| runs: "run_step snd_op pol_op choice q = Some q' \<Longrightarrow> queue_step snd_op pol_op moves q (RunStep choice) q'"
| moved: "moves (qc q) c' \<Longrightarrow> queue_step snd_op pol_op moves q SinkMove (q\<lparr>qc := c'\<rparr>)"

section \<open>Bytes, depth and room signals\<close>

lemma sum_list_map_update:
  fixes f :: "'a \<Rightarrow> 'b::comm_monoid_add"
  shows "i < length xs \<Longrightarrow> sum_list (map f (xs[i := x])) + f (xs ! i) = sum_list (map f xs) + f x"
proof (induction xs arbitrary: i)
  case (Cons y ys)
  then show ?case by (cases i) (auto simp: ac_simps)
qed simp

text \<open>Who holds bytes of the counter besides the channel: a publish with a reservation, and the drain.\<close>

definition held :: "publisher \<Rightarrow> int" where
  "held p = (case pb_pc p of
      PReserved _ \<Rightarrow> item_len (pb_item p) | PRelease _ \<Rightarrow> item_len (pb_item p) | _ \<Rightarrow> 0)"

definition run_held :: "run_pc \<Rightarrow> int" where
  "run_held r = (case r of RTook it \<Rightarrow> item_len it | _ \<Rightarrow> 0)"

definition biggest :: "'c queue \<Rightarrow> int" where
  "biggest q = foldr max (map (\<lambda>p. item_len (pb_item p)) (pubs q)) 0"

definition bytes_ok :: "'c queue \<Rightarrow> bool" where
  "bytes_ok q \<longleftrightarrow> q_bytes q = sum_list (map item_len (ch q)) + sum_list (map held (pubs q)) + run_held (runner q)"

definition bounds_ok :: "'c queue \<Rightarrow> bool" where
  "bounds_ok q \<longleftrightarrow> length (ch q) \<le> ch_cap q \<and> (MaxBytes q > 0 \<longrightarrow> q_bytes q \<le> max (MaxBytes q) (biggest q))"

fun waits_on :: "pub_pc \<Rightarrow> nat option" where
  "waits_on (PReserved k) = k" | "waits_on (PRelease k) = k" | "waits_on (PTry r) = Some r"
| "waits_on (PWaiting r) = Some r" | "waits_on _ = None"

definition rooms_ok :: "'c queue \<Rightarrow> bool" where
  "rooms_ok q \<longleftrightarrow> (\<forall>p\<in>set (pubs q). \<forall>r. waits_on (pb_pc p) = Some r \<longrightarrow> r \<in> closed_rooms q \<or> room q = Some r)"

lemma item_len_nonneg [simp]: "0 \<le> item_len it"
  by (simp add: item_len_def)

lemma held_nonneg: "0 \<le> held p"
  by (simp add: held_def split: pub_pc.splits)

lemma run_held_nonneg: "0 \<le> run_held r"
  by (simp add: run_held_def split: run_pc.splits)

lemma bytes_nonneg: "bytes_ok q \<Longrightarrow> 0 \<le> q_bytes q"
proof -
  have "0 \<le> sum_list (map item_len (ch q))" "0 \<le> sum_list (map held (pubs q))"
    by (auto intro!: sum_list_nonneg simp: held_nonneg)
  then show "bytes_ok q \<Longrightarrow> 0 \<le> q_bytes q" using run_held_nonneg [of "runner q"] by (simp add: bytes_ok_def)
qed

lemma biggest_ge: "i < length (pubs q) \<Longrightarrow> item_len (pb_item (pubs q ! i)) \<le> biggest q"
proof -
  have "p \<in> set ps \<Longrightarrow> item_len (pb_item p) \<le> foldr max (map (\<lambda>p. item_len (pb_item p)) ps) 0" for p ps
    by (induction ps) auto
  from this [of "pubs q ! i" "pubs q"] show "i < length (pubs q) \<Longrightarrow> ?thesis" by (simp add: biggest_def)
qed

lemma biggest_set_pc [simp]: "biggest (set_pc i pc q) = biggest q"
proof -
  have "map (\<lambda>p. item_len (pb_item p)) ((pubs q)[i := (pubs q ! i)\<lparr>pb_pc := pc\<rparr>]) = map (\<lambda>p. item_len (pb_item p)) (pubs q)"
    by (cases "i < length (pubs q)") (simp_all add: map_update list_update_same_conv list_update_beyond)
  then show ?thesis by (simp add: biggest_def set_pc_def)
qed

lemma held_set_pc:
  "i < length (pubs q) \<Longrightarrow> sum_list (map held (pubs (set_pc i pc q))) =
     sum_list (map held (pubs q)) - held (pubs q ! i) + held ((pubs q ! i)\<lparr>pb_pc := pc\<rparr>)"
  using sum_list_map_update [of i "pubs q" held "(pubs q ! i)\<lparr>pb_pc := pc\<rparr>"] by (simp add: set_pc_def)

lemma set_pc_fields [simp]:
  "ch (set_pc i pc q) = ch q" "ch_cap (set_pc i pc q) = ch_cap q" "MaxBytes (set_pc i pc q) = MaxBytes q"
  "q_bytes (set_pc i pc q) = q_bytes q" "room (set_pc i pc q) = room q" "runner (set_pc i pc q) = runner q"
  "closed_rooms (set_pc i pc q) = closed_rooms q" "qc (set_pc i pc q) = qc q" "settled (set_pc i pc q) = settled q"
  "q_sent (set_pc i pc q) = q_sent q" "q_failed (set_pc i pc q) = q_failed q" "rooms (set_pc i pc q) = rooms q"
  "length (pubs (set_pc i pc q)) = length (pubs q)"
  by (simp_all add: set_pc_def)

lemma rooms_ok_set_pc:
  "rooms_ok q \<Longrightarrow> (\<And>r. waits_on pc = Some r \<Longrightarrow> r \<in> closed_rooms q \<or> room q = Some r) \<Longrightarrow> rooms_ok (set_pc i pc q)"
  unfolding rooms_ok_def by (auto simp: set_pc_def dest!: set_update_subset_insert [THEN subsetD])

text \<open>The byte equation with the share of thread \<open>i\<close> written apart.\<close>

definition bytes_but :: "nat \<Rightarrow> int \<Rightarrow> 'c queue \<Rightarrow> bool" where
  "bytes_but i n q \<longleftrightarrow> q_bytes q = sum_list (map item_len (ch q)) +
     (sum_list (map held (pubs q)) - held (pubs q ! i)) + run_held (runner q) + n"

lemma bytes_ok_but: "bytes_ok q \<longleftrightarrow> bytes_but i (held (pubs q ! i)) q"
  by (auto simp: bytes_ok_def bytes_but_def)

lemma bytes_ok_set_pc:
  "i < length (pubs q) \<Longrightarrow> bytes_ok (set_pc i pc q) \<longleftrightarrow> bytes_but i (held ((pubs q ! i)\<lparr>pb_pc := pc\<rparr>)) q"
  by (auto simp: bytes_ok_def bytes_but_def held_set_pc)

definition queue_ok :: "'c queue \<Rightarrow> bool" where
  "queue_ok q \<longleftrightarrow> bytes_ok q \<and> bounds_ok q \<and> rooms_ok q"

lemma bounds_set_pc [simp]: "bounds_ok (set_pc i pc q) = bounds_ok q"
  by (simp add: bounds_ok_def)

lemma queue_ok_set_pc:
  assumes "i < length (pubs q)" "bytes_but i (held ((pubs q ! i)\<lparr>pb_pc := pc\<rparr>)) q" "bounds_ok q" "rooms_ok q"
    and "\<And>r. waits_on pc = Some r \<Longrightarrow> r \<in> closed_rooms q \<or> room q = Some r"
  shows "queue_ok (set_pc i pc q)"
  using assms by (simp add: queue_ok_def bytes_ok_set_pc rooms_ok_set_pc)

lemma ok_counters [simp]:
  "bytes_but i n (q\<lparr>q_shed := k\<rparr>) = bytes_but i n q" "bounds_ok (q\<lparr>q_shed := k\<rparr>) = bounds_ok q"
  "rooms_ok (q\<lparr>q_shed := k\<rparr>) = rooms_ok q" "bytes_but i n (q\<lparr>q_waited := k\<rparr>) = bytes_but i n q"
  "bounds_ok (q\<lparr>q_waited := k\<rparr>) = bounds_ok q" "rooms_ok (q\<lparr>q_waited := k\<rparr>) = rooms_ok q"
  by (simp_all add: bytes_but_def bounds_ok_def rooms_ok_def biggest_def)

lemma no_room_ok:
  assumes "i < length (pubs q)" "bytes_but i 0 q" "bounds_ok q" "rooms_ok q"
    and "\<And>r. k = Some r \<Longrightarrow> r \<in> closed_rooms q \<or> room q = Some r"
  shows "queue_ok (no_room i k q)"
  using assms by (auto simp: no_room_def refuse_def held_def intro!: queue_ok_set_pc split: option.splits)

lemma release_ok:
  "bytes_but i n q \<Longrightarrow> bytes_but i 0 (release n q)" "rooms_ok (release n q) = rooms_ok q"
  "0 \<le> n \<Longrightarrow> bounds_ok q \<Longrightarrow> bounds_ok (release n q)" "pubs (release n q) = pubs q"
  "closed_rooms (release n q) = closed_rooms q" "room (release n q) = room q"
  by (auto simp: release_def bytes_but_def rooms_ok_def bounds_ok_def biggest_def max_def)

lemma reserve_cases:
  assumes "reserve n q = (ok, q')"
  obtains "\<not> ok" "q' = q"
  | "ok" "q' = q\<lparr>q_bytes := q_bytes q + n\<rparr>" "MaxBytes q > 0 \<Longrightarrow> q_bytes q \<le> 0 \<or> q_bytes q + n \<le> MaxBytes q"
  using assms by (auto simp: reserve_def Let_def split: if_splits)

lemma try_reserve_ok:
  assumes i: "i < length (pubs q)" and z: "held (pubs q ! i) = 0" and ok: "queue_ok q"
    and k: "\<And>r. k = Some r \<Longrightarrow> r \<in> closed_rooms q \<or> room q = Some r"
  shows "queue_ok (try_reserve i k q)"
proof -
  let ?n = "item_len (pb_item (pubs q ! i))"
  obtain b q' where r: "reserve ?n q = (b, q')" by force
  have z': "bytes_but i 0 q" using ok z bytes_ok_but [of q i] by (simp add: queue_ok_def)
  show ?thesis
    using r
  proof (cases rule: reserve_cases)
    case 1
    have "queue_ok (no_room i k q)" using i z' ok k by (intro no_room_ok) (auto simp: queue_ok_def)
    then show ?thesis using r 1 by (simp add: try_reserve_def)
  next
    case 2
    have "bounds_ok q'"
      using ok bytes_nonneg [of q] biggest_ge [OF i] 2
      by (auto simp: queue_ok_def bounds_ok_def biggest_def max_def)
    moreover have "bytes_but i ?n q'" using z' by (simp add: 2 bytes_but_def)
    ultimately have "queue_ok (set_pc i (PReserved k) q')"
      using i k ok 2 by (intro queue_ok_set_pc) (auto simp: held_def queue_ok_def rooms_ok_def)
    then show ?thesis using r 2(1) by (simp add: try_reserve_def)
  qed
qed

lemma publish_ok:
  assumes i: "i < length (pubs q)" and st: "publish_step choice i q = Some q'" and ok: "queue_ok q"
  shows "queue_ok q'"
proof -
  let ?p = "pubs q ! i"
  have b: "bytes_but i (held ?p) q" and q: "bounds_ok q" "rooms_ok q"
    using ok bytes_ok_but [of q i] by (simp_all add: queue_ok_def)
  have w: "r \<in> closed_rooms q \<or> room q = Some r" if "waits_on (pb_pc ?p) = Some r" for r
    using q(2) i that by (auto simp: rooms_ok_def)
  show ?thesis
  proof (cases "pb_pc ?p")
    case PStart
    then show ?thesis
      using st i b q ok by (auto simp: publish_step_def Let_def held_def intro!: queue_ok_set_pc try_reserve_ok split: if_splits)
  next
    case (PReserved k)
    then have h: "held ?p = item_len (pb_item ?p)" by (simp add: held_def)
    show ?thesis
    proof (cases "length (ch q) < ch_cap q")
      case True
      let ?q = "q\<lparr>ch := ch q @ [pb_item ?p], q_enqueued := q_enqueued q + 1\<rparr>"
      have "bytes_but i 0 ?q" "bounds_ok ?q" "rooms_ok ?q"
        using b q h True by (auto simp: bytes_but_def bounds_ok_def biggest_def rooms_ok_def)
      then have "queue_ok (set_pc i (PDone (Inr ())) ?q)" using i by (intro queue_ok_set_pc) (simp_all add: held_def)
      then show ?thesis using st True PReserved by (simp add: publish_step_def Let_def)
    next
      case False
      then show ?thesis using st i b q w PReserved h
        by (auto simp: publish_step_def Let_def held_def intro!: queue_ok_set_pc)
    qed
  next
    case (PRelease k)
    then have h: "held ?p = item_len (pb_item ?p)" by (simp add: held_def)
    then show ?thesis
      using st i b q w PRelease
      by (auto simp: publish_step_def Let_def intro!: no_room_ok release_ok simp: release_ok(2,4,5,6))
  next
    case PLoop
    obtain r q1 where r: "roomSignal q = (r, q1)" by force
    then have "bytes_but i 0 q1" "bounds_ok q1" "rooms_ok q1" "room q1 = Some r" "pubs q1 = pubs q"
      using b q PLoop by (auto simp: roomSignal_def bytes_but_def bounds_ok_def biggest_def rooms_ok_def held_def
          split: option.splits)
    then have "queue_ok (set_pc i (PTry r) q1)" using i by (intro queue_ok_set_pc) (simp_all add: held_def)
    then show ?thesis using st r PLoop by (simp add: publish_step_def Let_def)
  next
    case (PTry r)
    then show ?thesis
      using st i ok w by (auto simp: publish_step_def Let_def held_def intro!: try_reserve_ok)
  next
    case (PWaiting r)
    then show ?thesis
      using st i b q by (auto simp: publish_step_def Let_def refuse_def held_def intro!: queue_ok_set_pc
          split: pub_choice.splits if_splits)
  next
    case (PDone x)
    then show ?thesis using st by (simp add: publish_step_def Let_def)
  qed
qed

lemma run_done_fields [simp]:
  "ch (run_done x q) = ch q" "pubs (run_done x q) = pubs q" "runner (run_done x q) = runner q"
  "q_bytes (run_done x q) = q_bytes q" "ch_cap (run_done x q) = ch_cap q" "MaxBytes (run_done x q) = MaxBytes q"
  "room (run_done x q) = room q" "closed_rooms (run_done x q) = closed_rooms q" "qc (run_done x q) = qc q"
  "settled (run_done x q) = settled q @ [x]"
  by (simp_all add: run_done_def Let_def split: prod.splits option.splits)

lemma fold_run_done [simp]:
  "ch (fold run_done xs q) = ch q" "pubs (fold run_done xs q) = pubs q" "runner (fold run_done xs q) = runner q"
  "q_bytes (fold run_done xs q) = q_bytes q" "ch_cap (fold run_done xs q) = ch_cap q"
  "MaxBytes (fold run_done xs q) = MaxBytes q" "room (fold run_done xs q) = room q"
  "closed_rooms (fold run_done xs q) = closed_rooms q" "qc (fold run_done xs q) = qc q"
  "settled (fold run_done xs q) = settled q @ xs"
  by (induction xs arbitrary: q) simp_all

lemma queue_ok_cong:
  "ch q' = ch q \<Longrightarrow> pubs q' = pubs q \<Longrightarrow> run_held (runner q') = run_held (runner q) \<Longrightarrow> q_bytes q' = q_bytes q \<Longrightarrow>
   ch_cap q' = ch_cap q \<Longrightarrow> MaxBytes q' = MaxBytes q \<Longrightarrow> room q' = room q \<Longrightarrow> closed_rooms q' = closed_rooms q \<Longrightarrow>
   queue_ok q' = queue_ok q"
  by (simp add: queue_ok_def bytes_ok_def bounds_ok_def rooms_ok_def biggest_def)

lemma wake_ok: "queue_ok q \<Longrightarrow> queue_ok (wake q)"
  by (auto simp: wake_def queue_ok_def bytes_ok_def bounds_ok_def rooms_ok_def biggest_def split: option.splits)

lemma run_ok:
  assumes st: "run_step snd_op pol_op choice q = Some q'" and ok: "queue_ok q"
  shows "queue_ok q'"
proof (cases "runner q")
  case RIdle
  show ?thesis
  proof (cases choice)
    case RStop
    then show ?thesis
      using st ok RIdle queue_ok_cong [of q' q] by (auto simp: run_step_def run_held_def)
  next
    case RTick
    then show ?thesis
      using st ok RIdle queue_ok_cong [of q' q] by (auto simp: run_step_def split: prod.splits)
  next
    case RTake
    then obtain it rest where "ch q = it # rest" "q' = q\<lparr>ch := rest, runner := RTook it\<rparr>"
      using st RIdle by (auto simp: run_step_def split: list.splits)
    then show ?thesis
      using ok RIdle by (auto simp: queue_ok_def bytes_ok_def bounds_ok_def rooms_ok_def biggest_def run_held_def)
  qed
next
  case (RTook it)
  have "bounds_ok (release (item_len it) q)" using ok by (intro release_ok) (simp_all add: queue_ok_def)
  then have "bounds_ok ((release (item_len it) q)\<lparr>runner := RWake it\<rparr>)" by (simp add: bounds_ok_def biggest_def)
  moreover have "q' = (release (item_len it) q)\<lparr>runner := RWake it\<rparr>" using st RTook by (simp add: run_step_def)
  ultimately show ?thesis
    using ok RTook by (simp add: queue_ok_def) (simp add: release_def bytes_ok_def rooms_ok_def run_held_def)
next
  case (RWake it)
  have "queue_ok ((wake q)\<lparr>runner := RSend it\<rparr>) = queue_ok (wake q)"
    using RWake by (intro queue_ok_cong) (simp_all add: run_held_def wake_def split: option.splits)
  then show ?thesis using st RWake wake_ok [OF ok] by (simp add: run_step_def)
next
  case (RSend it)
  then show ?thesis
    using st ok queue_ok_cong [of q' q] by (auto simp: run_step_def run_held_def Let_def split: prod.splits if_splits)
next
  case RStopped
  then show ?thesis using st by (simp add: run_step_def)
qed

lemma biggest_arrive: "biggest q \<le> biggest (arrive b f q)"
proof -
  have "foldr max xs (0::int) \<le> foldr max (xs @ [x]) 0" for xs x by (induction xs) auto
  then show ?thesis by (simp add: biggest_def arrive_def del: foldr_append)
qed

lemma arrive_ok:
  assumes "queue_ok q"
  shows "queue_ok (arrive b f q)"
proof -
  have f: "ch (arrive b f q) = ch q" "runner (arrive b f q) = runner q" "q_bytes (arrive b f q) = q_bytes q"
    "ch_cap (arrive b f q) = ch_cap q" "MaxBytes (arrive b f q) = MaxBytes q" "room (arrive b f q) = room q"
    "closed_rooms (arrive b f q) = closed_rooms q" by (simp_all add: arrive_def)
  have "bytes_ok (arrive b f q)"
    using assms by (simp add: queue_ok_def bytes_ok_def f) (simp add: arrive_def held_def)
  moreover have "bounds_ok (arrive b f q)"
    using assms biggest_arrive [of q b f] by (auto simp: queue_ok_def bounds_ok_def f)
  moreover have "rooms_ok (arrive b f q)"
    using assms by (auto simp: queue_ok_def rooms_ok_def arrive_def)
  ultimately show ?thesis by (simp add: queue_ok_def)
qed

lemma queue_ok_moved: "queue_ok (q\<lparr>qc := c\<rparr>) = queue_ok q"
  by (rule queue_ok_cong) simp_all

lemma queue_ok_step:
  assumes "queue_step snd_op pol_op moves q ev q'" "queue_ok q"
  shows "queue_ok q'"
  using assms(1)
proof cases
  case (publishes i choice)
  then show ?thesis using assms(2) publish_ok by blast
next
  case (runs choice)
  then show ?thesis using assms(2) run_ok by blast
qed (use assms(2) in \<open>simp_all add: arrive_ok queue_ok_moved\<close>)

lemma queue_ok_New: "queue_ok (NewQueue c depth mb w)"
  by (simp add: NewQueue_def queue_ok_def bytes_ok_def bounds_ok_def rooms_ok_def biggest_def run_held_def)

definition queue_start :: "'c \<Rightarrow> int \<Rightarrow> int \<Rightarrow> int \<Rightarrow> 'c queue \<Rightarrow> bool" where
  "queue_start c depth mb w q \<longleftrightarrow> q = NewQueue c depth mb w"

interpretation qbounds: transition_system "queue_start c depth mb w" "queue_step snd_op pol_op moves" queue_ok
  for c depth mb w snd_op pol_op moves
  by unfold_locales (auto simp: queue_start_def queue_ok_New intro: queue_ok_step)

section \<open>Every enqueued record is settled once\<close>

definition accepted_tag :: "publisher \<Rightarrow> nat multiset" where
  "accepted_tag p = (if pb_pc p = PDone (Inr ()) then {#i_tag (pb_item p)#} else {#})"

definition run_tag :: "run_pc \<Rightarrow> nat multiset" where
  "run_tag r = (case r of RTook it \<Rightarrow> {#i_tag it#} | RWake it \<Rightarrow> {#i_tag it#} | RSend it \<Rightarrow> {#i_tag it#} | _ \<Rightarrow> {#})"

definition queue_tags :: "'c queue \<Rightarrow> nat multiset" where
  "queue_tags q = image_mset i_tag (mset (ch q)) + run_tag (runner q) + mset (map fst (settled q))"

definition accepted_tags :: "'c queue \<Rightarrow> nat multiset" where
  "accepted_tags q = sum_list (map accepted_tag (pubs q))"

lemma accepted_set_pc:
  "i < length (pubs q) \<Longrightarrow> accepted_tags (set_pc i pc q) + accepted_tag (pubs q ! i) =
     accepted_tags q + accepted_tag ((pubs q ! i)\<lparr>pb_pc := pc\<rparr>)"
  unfolding accepted_tags_def set_pc_def by (simp add: sum_list_map_update)

lemma accepted_set_pc_none:
  "i < length (pubs q) \<Longrightarrow> pb_pc (pubs q ! i) \<noteq> PDone (Inr ()) \<Longrightarrow> pc \<noteq> PDone (Inr ()) \<Longrightarrow>
   accepted_tags (set_pc i pc q) = accepted_tags q"
  using accepted_set_pc [of i q pc] by (simp add: accepted_tag_def)

text \<open>A publish step that is not the channel send leaves the books alone.\<close>

definition same_books :: "'c queue \<Rightarrow> 'c queue \<Rightarrow> bool" where
  "same_books q q' \<longleftrightarrow> accepted_tags q' = accepted_tags q \<and> queue_tags q' = queue_tags q \<and> qc q' = qc q"

lemma same_books_set_pc:
  "i < length (pubs q) \<Longrightarrow> pb_pc (pubs q ! i) \<noteq> PDone (Inr ()) \<Longrightarrow> pc \<noteq> PDone (Inr ()) \<Longrightarrow> same_books q (set_pc i pc q)"
  by (simp add: same_books_def accepted_set_pc_none queue_tags_def)

lemma same_books_trans: "same_books q q1 \<Longrightarrow> same_books q1 q2 \<Longrightarrow> same_books q q2"
  by (simp add: same_books_def)

lemma same_books_fields [simp]:
  "same_books q (q\<lparr>q_shed := k\<rparr>)" "same_books q (q\<lparr>q_waited := k\<rparr>)" "same_books q (q\<lparr>q_bytes := b\<rparr>)"
  "same_books q (q\<lparr>room := x, rooms := y\<rparr>)" "same_books q (release n q)"
  by (simp_all add: same_books_def accepted_tags_def queue_tags_def release_def)

lemma same_books_no_room:
  "i < length (pubs q) \<Longrightarrow> pb_pc (pubs q ! i) \<noteq> PDone (Inr ()) \<Longrightarrow> same_books q (no_room i k q)"
  by (auto simp: no_room_def refuse_def intro: same_books_set_pc same_books_trans [OF _ same_books_set_pc]
      split: option.splits)

lemma same_books_try:
  assumes "i < length (pubs q)" "pb_pc (pubs q ! i) \<noteq> PDone (Inr ())"
  shows "same_books q (try_reserve i k q)"
proof -
  have "same_books q (set_pc i (PReserved k) (q\<lparr>q_bytes := b\<rparr>))" for b
    using assms by (intro same_books_trans [of q "q\<lparr>q_bytes := b\<rparr>", OF _ same_books_set_pc]) simp_all
  then show ?thesis
    using same_books_no_room [OF assms] by (auto simp: try_reserve_def reserve_def Let_def)
qed

lemma publish_books:
  assumes i: "i < length (pubs q)" and st: "publish_step choice i q = Some q'"
  shows "same_books q q' \<or> (accepted_tags q' = add_mset (i_tag (pb_item (pubs q ! i))) (accepted_tags q) \<and>
    queue_tags q' = add_mset (i_tag (pb_item (pubs q ! i))) (queue_tags q) \<and> qc q' = qc q)"
proof (cases "pb_pc (pubs q ! i)")
  case (PReserved k)
  show ?thesis
  proof (cases "length (ch q) < ch_cap q")
    case True
    let ?q = "q\<lparr>ch := ch q @ [pb_item (pubs q ! i)], q_enqueued := q_enqueued q + 1\<rparr>"
    have "accepted_tags (set_pc i (PDone (Inr ())) ?q) = add_mset (i_tag (pb_item (pubs q ! i))) (accepted_tags q)"
      using accepted_set_pc [of i ?q "PDone (Inr ())"] i PReserved by (simp add: accepted_tag_def accepted_tags_def)
    then show ?thesis using st True PReserved by (auto simp: publish_step_def Let_def queue_tags_def)
  next
    case False
    then show ?thesis using st i PReserved by (auto simp: publish_step_def Let_def intro: same_books_set_pc)
  qed
next
  case (PRelease k)
  then have "same_books q (no_room i k (release n q))" for n
    using i by (intro same_books_trans [OF _ same_books_no_room]) (simp_all add: release_def)
  then show ?thesis using st PRelease by (auto simp: publish_step_def Let_def)
next
  case PLoop
  then have "same_books q (set_pc i (PTry r) q1)" if "roomSignal q = (r, q1)" for r q1
    using that i by (intro same_books_trans [of q q1, OF _ same_books_set_pc])
      (auto simp: roomSignal_def same_books_def accepted_tags_def queue_tags_def split: option.splits)
  then show ?thesis using st PLoop by (auto simp: publish_step_def Let_def split: prod.splits)
qed (use st i in \<open>auto simp: publish_step_def Let_def refuse_def intro: same_books_try same_books_set_pc
      same_books_trans [OF _ same_books_set_pc] split: if_splits pub_choice.splits\<close>)

text \<open>
  What the drain relies on: a send takes on the record's callback exactly when it succeeds, and
  every callback taken on is either still owed or has been run, once.
\<close>

locale confirming_sink =
  fixes snd_op :: "'c sink_send" and pol_op :: "'c sink_poll" and moves :: "'c \<Rightarrow> 'c \<Rightarrow> bool"
    and owed_by :: "'c \<Rightarrow> nat multiset" and sink_ok :: "'c \<Rightarrow> bool"
  assumes send_books: "sink_ok c \<Longrightarrow> snd_op b d c = (ok, calls, c') \<Longrightarrow>
      sink_ok c' \<and> mset (map fst calls) + owed_by c' = owed_by c + (if ok then {#d#} else {#})"
    and poll_books: "sink_ok c \<Longrightarrow> pol_op c = (calls, c') \<Longrightarrow>
      sink_ok c' \<and> mset (map fst calls) + owed_by c' = owed_by c"
    and move_books: "sink_ok c \<Longrightarrow> moves c c' \<Longrightarrow> sink_ok c' \<and> owed_by c' = owed_by c"
begin

definition books_ok :: "'c queue \<Rightarrow> bool" where
  "books_ok q \<longleftrightarrow> sink_ok (qc q) \<and> accepted_tags q = queue_tags q + owed_by (qc q)"

lemma books_run:
  assumes st: "run_step snd_op pol_op choice q = Some q'" and ok: "books_ok q"
  shows "books_ok q'"
proof (cases "runner q")
  case RIdle
  show ?thesis
  proof (cases choice)
    case RTick
    obtain calls c where p: "pol_op (qc q) = (calls, c)" by force
    then have "sink_ok c" "mset (map fst calls) + owed_by c = owed_by (qc q)"
      using poll_books ok by (auto simp: books_ok_def)
    then show ?thesis
      using st RTick RIdle p ok by (auto simp: run_step_def books_ok_def accepted_tags_def queue_tags_def run_tag_def ac_simps)
  qed (use st ok RIdle in \<open>auto simp: run_step_def books_ok_def accepted_tags_def queue_tags_def run_tag_def
        split: list.splits\<close>)
next
  case (RWake it)
  then show ?thesis
    using st ok by (auto simp: run_step_def wake_def books_ok_def accepted_tags_def queue_tags_def run_tag_def split: option.splits)
next
  case (RSend it)
  obtain ok' calls c where s: "snd_op (i_rec it) (i_tag it) (qc q) = (ok', calls, c)" by (metis prod_cases3)
  have b: "sink_ok c" "mset (map fst calls) + owed_by c = owed_by (qc q) + (if ok' then {#i_tag it#} else {#})"
    using send_books [OF _ s] ok by (auto simp: books_ok_def)
  have "add_mset (i_tag it) (owed_by (qc q)) =
      mset (map fst calls) + owed_by c + (if ok' then {#} else {#i_tag it#})"
    unfolding b(2) by simp
  then show ?thesis
    using st ok b(1) by (cases ok')
      (auto simp: run_step_def RSend s Let_def books_ok_def accepted_tags_def queue_tags_def run_tag_def ac_simps)
qed (use st ok in \<open>auto simp: run_step_def release_def books_ok_def accepted_tags_def queue_tags_def run_tag_def\<close>)

lemma books_step:
  assumes "queue_step snd_op pol_op moves q ev q'" "books_ok q"
  shows "books_ok q'"
  using assms(1)
proof cases
  case (arrives b f)
  then show ?thesis
    using assms(2) by (simp add: arrive_def books_ok_def accepted_tags_def queue_tags_def accepted_tag_def)
next
  case (publishes i choice)
  then show ?thesis
    using publish_books [OF publishes(2,3)] assms(2) by (auto simp: books_ok_def same_books_def)
next
  case (runs choice)
  then show ?thesis using books_run assms(2) by blast
next
  case (moved c')
  then show ?thesis
    using move_books assms(2) by (auto simp: books_ok_def accepted_tags_def queue_tags_def)
qed

definition books_start :: "'c queue \<Rightarrow> bool" where
  "books_start q \<longleftrightarrow> (\<exists>c depth mb w. q = NewQueue c depth mb w \<and> sink_ok c \<and> owed_by c = {#})"

lemma books_init: "books_start q \<Longrightarrow> books_ok q"
  by (auto simp: books_start_def books_ok_def NewQueue_def accepted_tags_def queue_tags_def run_tag_def)

end

sublocale confirming_sink \<subseteq> books: transition_system books_start "queue_step snd_op pol_op moves" books_ok
  by unfold_locales (auto intro: books_init books_step)

section \<open>The up-tunnel client as the sink\<close>

definition client_send :: "'w tunnel_env \<Rightarrow> int option \<Rightarrow> 'w client sink_send" where
  "client_send env dl b d c = (case Send env dl b (Some d) c of (err, calls, c') \<Rightarrow> (err = None, calls, c'))"

definition client_poll :: "'w tunnel_env \<Rightarrow> int option \<Rightarrow> 'w client sink_poll" where
  "client_poll env dl c = Poll env dl c"

definition client_moves :: "'w client \<Rightarrow> 'w client \<Rightarrow> bool" where
  "client_moves c c' \<longleftrightarrow> (\<exists>clean. c' = watch_ends clean c) \<or> (\<exists>w. c' = c\<lparr>world := w\<rparr>)"

interpretation up: confirming_sink "client_send env dl" "client_poll env dl" client_moves owed client_ok for env dl
proof unfold_locales
  show "client_ok c' \<and> mset (map fst calls) + owed c' = owed c + (if ok then {#d#} else {#})"
    if k: "client_ok c" and cs: "client_send env dl b d c = (ok, calls, c')" for c b d ok calls c'
  proof -
    obtain err where s: "Send env dl b (Some d) c = (err, calls, c')" "ok = (err = None)"
      using cs by (auto simp: client_send_def split: prod.splits)
    show ?thesis using Send_acct [OF s(1)] k by (simp add: s(2) done_tag_def)
  qed
  show "client_ok c' \<and> mset (map fst calls) + owed c' = owed c"
    if "client_ok c" "client_poll env dl c = (calls, c')" for c calls c'
    using Poll_acct [of env dl c calls c'] that by (simp add: client_poll_def)
  show "client_ok c' \<and> owed c' = owed c" if "client_ok c" "client_moves c c'" for c c'
    using that by (auto simp: client_moves_def watch_ok net_ok)
qed

section \<open>The queue's promises\<close>

text \<open>
  Offering a record is all or nothing: it is enqueued exactly when the channel has a free slot
  and the bytes fit under the bound or the queue holds none (so a record larger than the bound is
  carried alone), and an offer that fails leaves the queue as it was.
\<close>

theorem offer_all_or_nothing:
  assumes "offer it q = (ok, q')"
  shows "(ok \<longleftrightarrow> length (ch q) < ch_cap q \<and>
      (MaxBytes q \<le> 0 \<or> q_bytes q \<le> 0 \<or> q_bytes q + item_len it \<le> MaxBytes q)) \<and>
    (if ok then ch q' = ch q @ [it] \<and> q_bytes q' = q_bytes q + item_len it \<and> q_enqueued q' = q_enqueued q + 1
     else q' = q)"
  using assms by (auto simp: offer_def reserve_def release_def Let_def split: if_splits)

theorem offer_all_or_nothing_witness:
  "fst (offer \<lparr>i_rec = [1, 2, 3], i_sent = None, i_tag = 0\<rparr> (NewQueue () 1 2 0)) \<and>
   q_bytes (snd (offer \<lparr>i_rec = [1, 2, 3], i_sent = None, i_tag = 0\<rparr> (NewQueue () 1 2 0))) = 3"
proof -
  obtain ok q' where o: "offer \<lparr>i_rec = [1, 2, 3], i_sent = None, i_tag = 0\<rparr> (NewQueue () 1 2 0) = (ok, q')" by force
  from offer_all_or_nothing [OF o] show ?thesis using o by (auto simp: NewQueue_def item_len_def)
qed

text \<open>
  C12. The bounds hold under every interleaving of publishers and drain: the backlog never exceeds
  the channel's capacity, the byte counter is exactly the records in the channel plus those reserved
  by a publish in flight and taken by the drain, so never negative, and with a byte bound it never
  passes the bound or the largest single record.
\<close>

theorem queue_bounds_hold:
  assumes "run (queue_step snd_op pol_op moves) (NewQueue c depth mb w) es q"
  shows "length (ch q) \<le> ch_cap q \<and>
    q_bytes q = sum_list (map item_len (ch q)) + sum_list (map held (pubs q)) + run_held (runner q) \<and>
    0 \<le> q_bytes q \<and> (0 < MaxBytes q \<longrightarrow> q_bytes q \<le> max (MaxBytes q) (biggest q))"
proof -
  have "queue_start c depth mb w (NewQueue c depth mb w)" by (simp add: queue_start_def)
  then have "queue_ok q" using assms by (rule qbounds.invar_reach)
  then show ?thesis using bytes_nonneg [of q] by (auto simp: queue_ok_def bytes_ok_def bounds_ok_def)
qed

text \<open>
  A queue of one slot and two bytes: a publish of three bytes is carried alone, a second publish
  finds it full.
\<close>

definition example_carried :: "'c \<Rightarrow> 'c queue" where
  "example_carried c = (set_pc 0 (PDone (Inr ())) (arrive [1, 2, 3] (Some 9) (NewQueue c 1 2 1)))\<lparr>
     ch := [\<lparr>i_rec = [1, 2, 3], i_sent = Some 9, i_tag = 0\<rparr>], q_bytes := 3, q_enqueued := 1\<rparr>"

definition example_full :: "'c \<Rightarrow> 'c queue" where
  "example_full c = arrive [7] None (example_carried c)"

lemma example_full_run:
  "run (queue_step snd_op pol_op moves) (NewQueue c 1 2 1)
     [Arrive [1, 2, 3] (Some 9), PubStep 0 PGo, PubStep 0 PGo, Arrive [7] None] (example_full c)"
proof -
  let ?st = "queue_step snd_op pol_op moves" and ?q1 = "arrive [1, 2, 3] (Some 9) (NewQueue c 1 2 1)"
  define q2 where "q2 = (set_pc 0 (PReserved None) ?q1)\<lparr>q_bytes := 3\<rparr>"
  have "publish_step PGo 0 ?q1 = Some q2"
    by (simp add: q2_def publish_step_def arrive_def NewQueue_def try_reserve_def reserve_def set_pc_def item_len_def Let_def)
  then have b: "?st ?q1 (PubStep 0 PGo) q2"
    by (intro queue_step.publishes) (simp_all add: arrive_def NewQueue_def)
  have "publish_step PGo 0 q2 = Some (example_carried c)"
    by (simp add: q2_def example_carried_def publish_step_def arrive_def NewQueue_def set_pc_def Let_def)
  then have c: "?st q2 (PubStep 0 PGo) (example_carried c)"
    by (intro queue_step.publishes) (simp_all add: q2_def arrive_def NewQueue_def)
  have d: "?st (example_carried c) (Arrive [7] None) (example_full c)"
    unfolding example_full_def by (rule queue_step.arrives)
  show ?thesis unfolding run_Cons_iff run_Nil_iff using queue_step.arrives b c d by blast
qed

text \<open>The second publish waits, the drain takes the record and is about to wake it.\<close>

definition example_blocked :: "'c \<Rightarrow> 'c queue" where
  "example_blocked c = (set_pc 1 (PWaiting 0) (example_full c))\<lparr>q_waited := 1, room := Some 0, rooms := 1,
     ch := [], q_bytes := 0, runner := RWake \<lparr>i_rec = [1, 2, 3], i_sent = Some 9, i_tag = 0\<rparr>\<rparr>"

lemmas example_queue_defs = example_full_def example_carried_def arrive_def NewQueue_def set_pc_def

lemma example_blocked_run:
  "run (queue_step snd_op pol_op moves) (NewQueue c 1 2 1)
     ([Arrive [1, 2, 3] (Some 9), PubStep 0 PGo, PubStep 0 PGo, Arrive [7] None] @
      [PubStep 1 PGo, PubStep 1 PGo, PubStep 1 PGo, RunStep RTake, RunStep RTake]) (example_blocked c)"
proof -
  let ?st = "queue_step snd_op pol_op moves"
  let ?it = "\<lparr>i_rec = [1, 2, 3], i_sent = Some 9, i_tag = 0\<rparr> :: item"
  define q4 where "q4 = (set_pc 1 PLoop (example_full c))\<lparr>q_waited := 1\<rparr>"
  define q5 where "q5 = (set_pc 1 (PTry 0) (example_full c))\<lparr>q_waited := 1, room := Some 0, rooms := 1\<rparr>"
  define q6 where "q6 = (set_pc 1 (PWaiting 0) (example_full c))\<lparr>q_waited := 1, room := Some 0, rooms := 1\<rparr>"
  have p: "publish_step PGo 1 (example_full c) = Some q4" "publish_step PGo 1 q4 = Some q5" "publish_step PGo 1 q5 = Some q6"
    by (simp_all add: q4_def q5_def q6_def example_queue_defs publish_step_def try_reserve_def reserve_def
        no_room_def roomSignal_def item_len_def Let_def)
  have l: "1 < length (pubs (example_full c))" "1 < length (pubs q4)" "1 < length (pubs q5)"
    by (simp_all add: q4_def q5_def example_queue_defs)
  have r: "run_step snd_op pol_op RTake q6 = Some (q6\<lparr>ch := [], runner := RTook ?it\<rparr>)"
    "run_step snd_op pol_op RTake (q6\<lparr>ch := [], runner := RTook ?it\<rparr>) = Some (example_blocked c)"
    by (simp_all add: q6_def example_blocked_def example_queue_defs run_step_def release_def item_len_def)
  have "run ?st (example_full c) [PubStep 1 PGo, PubStep 1 PGo, PubStep 1 PGo, RunStep RTake, RunStep RTake] (example_blocked c)"
    unfolding run_Cons_iff run_Nil_iff
    using queue_step.publishes [OF l(1) p(1)] queue_step.publishes [OF l(2) p(2)] queue_step.publishes [OF l(3) p(3)]
      queue_step.runs [OF r(1)] queue_step.runs [OF r(2)] by blast
  then show ?thesis
    unfolding run_append by (intro exI [of _ "example_full c"] conjI example_full_run)
qed

theorem queue_bounds_hold_witness:
  "q_bytes (example_full ()) = 3 \<and> MaxBytes (example_full ()) = 2 \<and>
   q_bytes (example_full ()) \<le> max (MaxBytes (example_full ())) (biggest (example_full ()))"
  using queue_bounds_hold [OF example_full_run [of _ _ _ "()"]] by (simp add: example_queue_defs)



text \<open>
  C10. Every publish the queue accepted is in exactly one place: in the channel, in the drain's
  hands, held by the client for confirmation, or settled once as sent or failed; a record that is
  settled is settled once, and when the queue and the client are empty every accepted record is.
\<close>

theorem accepted_records_settled_once:
  assumes "fresh_client c"
    and "run (queue_step (client_send env dl) (client_poll env dl) client_moves) (NewQueue c depth mb w) es q"
  shows "accepted_tags q = image_mset i_tag (mset (ch q)) + run_tag (runner q) + mset (map fst (settled q)) +
      tags (unconfirmed (qc q)) + tags (resend (qc q)) \<and>
    (ch q = [] \<and> runner q = RIdle \<and> unconfirmed (qc q) = [] \<and> resend (qc q) = [] \<longrightarrow>
       mset (map fst (settled q)) = accepted_tags q)"
proof -
  have "client_ok c" "owed c = {#}" using assms(1) by (simp_all add: fresh_client_def client_ok_def owed_def within_def)
  then have "up.books_start (NewQueue c depth mb w)" by (auto simp: up.books_start_def)
  then have "up.books_ok q" using assms(2) by (rule up.books.invar_reach)
  then show ?thesis by (auto simp: up.books_ok_def queue_tags_def owed_def run_tag_def ac_simps)
qed

theorem accepted_records_settled_once_witness:
  "accepted_tags (example_blocked example_client) = {#0#} \<and>
   accepted_tags (example_blocked example_client) = run_tag (runner (example_blocked example_client))"
  using accepted_records_settled_once [OF example_tunnel_start example_blocked_run]
  by (simp add: example_blocked_def example_queue_defs run_tag_def example_client_def)

end
