(* ===== verification/Net_Addr.thy ===== *)
theory Net_Addr
  imports Topics_Reconcile
begin

text \<open>
  Addresses of the up-tunnel, \<^verbatim>\<open>src/cmd/overlay-bridge/main.go\<close>: the failover list of ingress hosts and the check of the
  publish source, over the standard library's host and port splitting and joining. Parsing an IP address and
  listing the interfaces are arguments.
\<close>

section \<open>Host and port\<close>

definition index_of :: "char \<Rightarrow> string \<Rightarrow> nat option" where
  "index_of c s = (if c \<in> set s then Some (length (takeWhile (\<lambda>x. x \<noteq> c) s)) else None)"

definition last_index_of :: "char \<Rightarrow> string \<Rightarrow> nat option" where
  "last_index_of c s = map_option (\<lambda>i. length s - 1 - i) (index_of c (rev s))"

text \<open>\<^verbatim>\<open>net.SplitHostPort\<close>: \<open>None\<close> for each of its errors.\<close>

definition SplitHostPort :: "string \<Rightarrow> (string \<times> string) option" where
  "SplitHostPort s = (case last_index_of CHR '':'' s of
      None \<Rightarrow> None
    | Some i \<Rightarrow>
        (case (if hd s = CHR ''['' then
                 (case index_of CHR '']'' s of
                    None \<Rightarrow> None
                  | Some e \<Rightarrow> if e + 1 = i then Some (take (e - 1) (drop 1 s), 1, e + 1) else None)
               else if CHR '':'' \<in> set (take i s) then None else Some (take i s, 0, 0)) of
           None \<Rightarrow> None
         | Some (host, j, k) \<Rightarrow>
             if CHR ''['' \<in> set (drop j s) \<or> CHR '']'' \<in> set (drop k s) then None
             else Some (host, drop (i + 1) s)))"

definition JoinHostPort :: "string \<Rightarrow> string \<Rightarrow> string" where
  "JoinHostPort host port = (if CHR '':'' \<in> set host then ''['' @ host @ '']:'' @ port else host @ '':'' @ port)"

definition is_bracket :: "char \<Rightarrow> bool" where
  "is_bracket c \<longleftrightarrow> c = CHR ''['' \<or> c = CHR '']''"

text \<open>\<^verbatim>\<open>strings.Trim(s, "[]")\<close>.\<close>

definition trim_brackets :: "string \<Rightarrow> string" where
  "trim_brackets s = rev (dropWhile is_bracket (rev (dropWhile is_bracket s)))"

definition itoa :: "int \<Rightarrow> string" where
  "itoa n = (if n < 0 then CHR ''-'' # dec (nat (- n)) else dec (nat n))"

section \<open>The up-tunnel's addresses\<close>

definition ingressAddrs :: "string \<Rightarrow> int \<Rightarrow> string list" where
  "ingressAddrs hosts port = map (\<lambda>h. if SplitHostPort h \<noteq> None then h else JoinHostPort (trim_brackets h) (itoa port)) (splitList hosts)"

datatype source_err = NotAnIP | NoInterfaces | NotLocal

definition resolveSource :: "(string \<Rightarrow> 'ip option) \<Rightarrow> ('ip \<Rightarrow> 'ip \<Rightarrow> bool) \<Rightarrow> 'ip list option \<Rightarrow> string \<Rightarrow> source_err + 'ip" where
  "resolveSource parseIP equal addrs s =
    (let host = (case SplitHostPort s of Some (h, _) \<Rightarrow> h | None \<Rightarrow> trim_brackets s) in
     case parseIP host of
       None \<Rightarrow> Inl NotAnIP
     | Some ip \<Rightarrow> (case addrs of
         None \<Rightarrow> Inl NoInterfaces
       | Some as \<Rightarrow> if list_ex (\<lambda>a. equal a ip) as then Inr ip else Inl NotLocal))"

section \<open>Splitting what was joined\<close>

lemma index_first: "c \<notin> set h \<Longrightarrow> index_of c (h @ c # t) = Some (length h)"
  by (induction h) (auto simp: index_of_def)

lemma last_index_colon: "CHR '':'' \<notin> set p \<Longrightarrow> last_index_of CHR '':'' (h @ CHR '':'' # p) = Some (length h)"
  using index_first [of "CHR '':''" "rev p" "rev h"] by (simp add: last_index_of_def)

lemma split_join:
  assumes "list_all (\<lambda>c. \<not> is_bracket c) h" "list_all (\<lambda>c. \<not> is_bracket c \<and> c \<noteq> CHR '':'') p"
  shows "SplitHostPort (JoinHostPort h p) = Some (h, p)"
proof -
  have h: "CHR ''['' \<notin> set h" "CHR '']'' \<notin> set h" and p: "CHR ''['' \<notin> set p" "CHR '']'' \<notin> set p" "CHR '':'' \<notin> set p"
    using assms by (auto simp: list_all_iff is_bracket_def)
  show ?thesis
  proof (cases "CHR '':'' \<in> set h")
    case True
    let ?s = "CHR ''['' # h @ CHR '']'' # CHR '':'' # p"
    have "last_index_of CHR '':'' ?s = Some (length h + 2)" using last_index_colon [OF p(3), of "CHR ''['' # h @ '']''"] by simp
    moreover have "index_of CHR '']'' ?s = Some (length h + 1)" using index_first [of "CHR '']''" "CHR ''['' # h" "CHR '':'' # p"] h by simp
    ultimately have "SplitHostPort ?s = Some (h, p)" using h p by (simp add: SplitHostPort_def)
    then show ?thesis using True by (simp add: JoinHostPort_def)
  next
    case False
    have hd: "hd (h @ CHR '':'' # p) \<noteq> CHR ''[''" using h(1) by (cases h) auto
    have "SplitHostPort (h @ CHR '':'' # p) = Some (h, p)"
      using last_index_colon [OF p(3), of h] False h p hd by (simp add: SplitHostPort_def)
    then show ?thesis using False by (simp add: JoinHostPort_def)
  qed
qed

lemma itoa_plain: "list_all (\<lambda>c. \<not> is_bracket c \<and> c \<noteq> CHR '':'') (itoa n)"
  using dec_digits by (fastforce simp: itoa_def list_all_iff is_bracket_def is_digit_def)

text \<open>
  The ingress list keeps its failover order and every address of it names a host and a port: an entry that is
  already host and port is dialled as it is, any other entry (without brackets inside it) is its host, brackets
  around an IPv6 address or not, with the configured port.
\<close>

theorem ingress_addresses_name_host_and_port:
  assumes "k < length (splitList hosts)" and "h = splitList hosts ! k"
    and "SplitHostPort h = None \<longrightarrow> list_all (\<lambda>c. \<not> is_bracket c) (trim_brackets h)"
  shows "length (ingressAddrs hosts port) = length (splitList hosts) \<and>
    (case SplitHostPort h of
       Some _ \<Rightarrow> ingressAddrs hosts port ! k = h
     | None \<Rightarrow> SplitHostPort (ingressAddrs hosts port ! k) = Some (trim_brackets h, itoa port))"
  using assms split_join [OF _ itoa_plain] by (auto simp: ingressAddrs_def split: option.splits)

theorem ingress_addresses_name_host_and_port_witness:
  "SplitHostPort (ingressAddrs ''fd00::1,edge:9'' 8725 ! 0) = Some (''fd00::1'', itoa 8725) \<and>
   ingressAddrs ''fd00::1,edge:9'' 8725 ! 1 = ''edge:9''"
proof -
  have l: "splitList ''fd00::1,edge:9'' = [''fd00::1'', ''edge:9'']"
    by (simp add: splitList_def trim_space_def is_space_def)
  have a: "SplitHostPort ''fd00::1'' = None" and b: "SplitHostPort ''edge:9'' = Some (''edge'', ''9'')"
    by (simp_all add: SplitHostPort_def last_index_of_def index_of_def)
  have t: "trim_brackets ''fd00::1'' = ''fd00::1''" by (simp add: trim_brackets_def is_bracket_def)
  have "SplitHostPort (ingressAddrs ''fd00::1,edge:9'' 8725 ! 0) = Some (''fd00::1'', itoa 8725)"
    using ingress_addresses_name_host_and_port [of 0 "''fd00::1,edge:9''" "''fd00::1''" 8725] unfolding l a t by (simp add: is_bracket_def)
  moreover have "ingressAddrs ''fd00::1,edge:9'' 8725 ! 1 = ''edge:9''"
    using ingress_addresses_name_host_and_port [of 1 "''fd00::1,edge:9''" "''edge:9''" 8725] unfolding l b by simp
  ultimately show ?thesis by blast
qed

text \<open>A publish source is accepted only as an address this machine has.\<close>

lemma resolved_source_is_local:
  "resolveSource parseIP equal addrs s = Inr ip \<Longrightarrow> \<exists>as a. addrs = Some as \<and> a \<in> set as \<and> equal a ip"
  by (auto simp: resolveSource_def Let_def list_ex_iff split: option.splits if_splits)

end
