(* ===== verification/Bridge_Metrics.thy ===== *)
theory Bridge_Metrics
  imports Metrics_Desc Feed_Load Bridge_Config Header_Anchor Up_Queue Net_Addr
begin

text \<open>
  The metrics of the whole bridge: the snapshots the packages give (\<^verbatim>\<open>src/headers/stats.go\<close>, the \<^verbatim>\<open>Stats\<close> of the
  facade, the up-tunnel and its queue) and the collector of \<^verbatim>\<open>src/cmd/overlay-bridge/collector.go\<close> over them. The lanes
  are another repository's, so what they report is an argument; so is the build information of the binary.
\<close>

section \<open>Snapshots\<close>

record store_Stats =
  hs_Observed :: u64
  hs_Rejected :: u64
  hs_Orphaned :: u64
  hs_Reanchored :: u64
  hs_Replaced :: u64
  hs_Pruned :: u64
  hs_TipHeight :: u32
  hs_Heights :: nat
  hs_FromLane :: u64
  hs_FromHistory :: u64
  hs_FromFallback :: u64
  hs_Misses :: u64

definition Store_Stats :: "store \<Rightarrow> store_Stats" where
  "Store_Stats s = \<lparr>hs_Observed = store.observed s, hs_Rejected = rejected s, hs_Orphaned = orphaned s, hs_Reanchored = reanchored s,
     hs_Replaced = replaced s, hs_Pruned = pruned s, hs_TipHeight = tipH s, hs_Heights = card (dom (canon s)),
     hs_FromLane = fromLane s, hs_FromHistory = fromHistory s, hs_FromFallback = fromFallback s, hs_Misses = misses s\<rparr>"

record facade_Stats =
  fs_OK :: u64
  fs_Malformed :: u64
  fs_UnknownTopic :: u64
  fs_LoopDropped :: u64
  fs_EngineError :: u64
  fs_PublishFailed :: u64
  fs_Trusted :: u64

definition Facade_Stats :: "facade \<Rightarrow> facade_Stats" where
  "Facade_Stats f = \<lparr>fs_OK = n_ok f, fs_Malformed = n_malformed f, fs_UnknownTopic = n_unknownTopic f, fs_LoopDropped = n_loopDropped f,
     fs_EngineError = n_engineError f, fs_PublishFailed = n_publishFailed f, fs_Trusted = n_trusted f\<rparr>"

record client_Stats =
  cs_Written :: u64
  cs_Bytes :: u64
  cs_Failures :: u64
  cs_Redials :: u64
  cs_Confirmed :: u64
  cs_Resent :: u64
  cs_Lost :: u64
  cs_PeerClosed :: u64
  cs_Unconfirmed :: u64

text \<open>Counts of a 64-bit signed integer, never negative once the negative reading is replaced by zero.\<close>

definition Client_Stats :: "'w client \<Rightarrow> client_Stats" where
  "Client_Stats c = \<lparr>cs_Written = written c, cs_Bytes = sent_bytes c, cs_Failures = client.failures c, cs_Redials = redials c,
     cs_Confirmed = confirmed c, cs_Resent = resent c, cs_Lost = lost c, cs_PeerClosed = peerClosed c,
     cs_Unconfirmed = word_of_int (if unconfirmedGauge c < 0 then 0 else unconfirmedGauge c)\<rparr>"

record QueueStats =
  qs_Depth :: u64
  qs_Capacity :: u64
  qs_Enqueued :: u64
  qs_Sent :: u64
  qs_Shed :: u64
  qs_Failed :: u64
  qs_Bytes :: u64
  qs_BytesCapacity :: u64
  qs_Waited :: u64
  qs_Resent :: u64
  qs_Unconfirmed :: u64
  qs_PeerClosed :: u64

definition Queue_Stats :: "'w client queue \<Rightarrow> QueueStats" where
  "Queue_Stats q = (let cs = Client_Stats (qc q) in
     \<lparr>qs_Depth = word_of_nat (length (ch q)), qs_Capacity = word_of_nat (ch_cap q), qs_Enqueued = q_enqueued q, qs_Sent = q_sent q,
      qs_Shed = q_shed q, qs_Failed = q_failed q, qs_Bytes = word_of_int (max (q_bytes q) 0),
      qs_BytesCapacity = word_of_int (max (MaxBytes q) 0), qs_Waited = q_waited q, qs_Resent = cs_Resent cs,
      qs_Unconfirmed = cs_Unconfirmed cs, qs_PeerClosed = cs_PeerClosed cs\<rparr>)"

section \<open>Build and configuration labels\<close>

text \<open>A dependency: its path, its version, and its replacement's version when it is replaced.\<close>

type_synonym build_dep = "string \<times> string \<times> string option"

definition dep_version :: "build_dep \<Rightarrow> string" where
  "dep_version d = (case d of (_, v, r) \<Rightarrow> (case r of Some rv \<Rightarrow> if rv \<noteq> [] then rv else v | None \<Rightarrow> v))"

fun dep_labels :: "build_dep option list \<Rightarrow> string \<times> string \<Rightarrow> string \<times> string" where
  "dep_labels [] p = p"
| "dep_labels (None # ds) p = dep_labels ds p"
| "dep_labels (Some d # ds) p = dep_labels ds
     (if fst d = ''github.com/lightwebinc/shard-common'' then (dep_version d, snd p)
      else if fst d = ''github.com/bsv-blockchain/go-sdk'' then (fst p, dep_version d) else p)"

text \<open>\<open>bi\<close> is what \<^verbatim>\<open>debug.ReadBuildInfo\<close> gives, the main version and the dependencies; \<open>ver\<close> is the stamped version.\<close>

definition buildLabels :: "(string \<times> build_dep option list) option \<Rightarrow> string \<Rightarrow> string \<times> string \<times> string" where
  "buildLabels bi ver = (case bi of
      None \<Rightarrow> (if ver \<noteq> [] then ver else ''unknown'', ''unknown'', ''unknown'')
    | Some (main, deps) \<Rightarrow>
        (if ver \<noteq> [] \<and> ver \<noteq> ''dev'' then ver
         else if main \<noteq> [] \<and> main \<noteq> ''(devel)'' then main
         else if ver \<noteq> [] then ver else ''unknown'',
         dep_labels deps (''unknown'', ''unknown'')))"

text \<open>The environment's part of the labels: \<^verbatim>\<open>GOMAXPROCS\<close>, \<^verbatim>\<open>GOGC\<close> and the memory limit (\<open>None\<close> when off).\<close>

definition configLabels :: "config \<Rightarrow> nat \<Rightarrow> string \<Rightarrow> int option \<Rightarrow> string list" where
  "configLabels c procs gogc limit =
    [cfg_verifyMode c, cfg_verifyNetwork c, cfg_verifyFinality c, itoa (cfg_engineWorkers c), dec procs,
     (if gogc = [] then ''100'' else gogc), (case limit of None \<Rightarrow> ''off'' | Some l \<Rightarrow> itoa l), config_verifier c]"

section \<open>Collecting\<close>

record lane_view =
  l_Name :: string
  l_Objects :: u64
  l_Errors :: u64
  l_Rejected :: u64
  l_Bytes :: u64
  l_Active :: int
  l_Bound :: bool

text \<open>
  What the collector holds. A feed comes with the table of its shadows and other targets, its busy gauge, and the
  order in which the map of elected topics and the map of booked answers are walked. A store comes with its warm-up
  progress and the duration of that in nanoseconds.
\<close>

record 'w collector =
  col_feed :: "feed option"
  col_shadows :: "nat \<Rightarrow> shadow_target"
  col_alsos :: "nat \<Rightarrow> also_target"
  col_busy :: busyCount
  col_topics :: "hash list"
  col_steaks :: "(string \<times> string) list"
  col_guard :: "int option"
  col_store :: "(store \<times> warm_stats \<times> int) option"
  col_facade :: "facade option"
  col_queue :: "'w client queue option"
  col_lanes :: "lane_view list"
  col_verify :: bool
  col_config :: "string list option"

definition collect_build :: "string \<times> string \<times> string \<Rightarrow> string \<Rightarrow> metric list" where
  "collect_build bl goversion = (case bl of (v, sc, sdk) \<Rightarrow> [gauge descBuild 1 [v, sc, sdk, goversion]])"

definition collect_config :: "'w collector \<Rightarrow> metric list" where
  "collect_config c = (case col_config c of None \<Rightarrow> [] | Some ls \<Rightarrow> [gauge descConfig 1 ls])"

definition collect_totals :: "feed_Stats \<Rightarrow> metric list" where
  "collect_totals s =
    [counter descFeed (st_Submitted s) [''submitted''], counter descFeed (st_EngineError s) [''engine_error''],
     counter descFeed (st_ParseError s) [''parse_error''], counter descFeed (st_UnknownTopic s) [''unknown_topic''],
     counter descFeed (st_Rejected s) [''rejected''], counter descFeed (st_Sunk s) [''sunk''],
     counter descFeed (st_Shed s) [''shed''], counter descFeed (st_Retried s) [''retried''],
     counter descFeed (st_EngineRefused s) [''engine_refused''], counter descFeed (st_SPVRefused s) [''spv_refused'']]"

definition MismatchKinds :: "string list" where
  "MismatchKinds = [MismatchBridgeOKEngineRefused, MismatchBridgeRefusedEngineOK]"

definition collect_verify :: "bool \<Rightarrow> feed_Stats \<Rightarrow> metric list" where
  "collect_verify verify s = (if verify then
     counter descVerifyScripts (st_VerifyScripts s) [] # map (\<lambda>k. counter descMismatch (st_Mismatch s k) [k]) MismatchKinds
     else [])"

text \<open>Every shadow the feed runs, the default first, and every other target, in route order (the feed's
  routes and targets are never nil pointers: see \<open>build_route\<close>).\<close>

definition feed_shadows :: "feed \<Rightarrow> nat list" where
  "feed_shadows f = (case fShadow f of None \<Rightarrow> [] | Some i \<Rightarrow> [i]) @
     List.map_filter rShadow (List.map_filter (\<lambda>r. r) (fRoutes f))"

definition feed_alsos :: "feed \<Rightarrow> nat list" where
  "feed_alsos f = List.map_filter (\<lambda>a. a) (concat (map rAlso (List.map_filter (\<lambda>r. r) (fRoutes f))))"

definition collect_shadow :: "shadow_target \<Rightarrow> metric list" where
  "collect_shadow sh = map (\<lambda>k. counter descShadow (kinds sh k) [sName sh, k]) ShadowKinds @
     [gauge descShadowQueue (int (fst (shadow_Backlog sh))) [sName sh],
      gauge descShadowQueueCap (int (snd (shadow_Backlog sh))) [sName sh]]"

definition collect_also :: "also_target \<Rightarrow> metric list" where
  "collect_also a = (let as = also_Stats a in
     map (\<lambda>r. counter descAlso (as_Results as r) [aName a, aTarget a, r]) AlsoResults @
     [gauge descAlsoQueue (as_QueuedBytes as) [aName a, aTarget a],
      gauge descAlsoQueueCap (as_CapacityBytes as) [aName a, aTarget a]])"

definition collect_route :: "busyCount \<Rightarrow> feed_Stats \<Rightarrow> string \<Rightarrow> metric list" where
  "collect_route bc s route =
     map (\<lambda>stage. gauge descWorkersBusy (bc (route, stage)) [route, stage]) WorkerStages @
     [counter descShedRoute (st_ShedByRoute s route) [route]]"

definition collect_workers :: "busyCount \<Rightarrow> feed_Stats \<Rightarrow> feed \<Rightarrow> metric list" where
  "collect_workers bc s f = (if fSubmit f = None then [] else
     [gauge descEngineQueue (int (fst (Backlog f))) [], gauge descEngineQueueCap (int (snd (Backlog f))) [],
      gauge descEngineQueueBytes (fst (BacklogBytes f)) [], gauge descEngineQueueBytesCap (snd (BacklogBytes f)) [],
      gauge descWorkers (fWorkers f) []] @
     concat (map (collect_route bc s) (RouteNames f)))"

text \<open>The outcomes of every elected topic that have not occurred, at zero, then what has.\<close>

definition preset_steaks :: "feed \<Rightarrow> hash list \<Rightarrow> (string \<times> string) list \<Rightarrow> (string \<times> string) list" where
  "preset_steaks f order seen = filter (\<lambda>k. k \<notin> set seen)
     (List.product (List.map_filter (Topics f) order) [OutcomeAdmitted, OutcomeEmpty, OutcomeError])"

definition collect_steaks :: "feed_Stats \<Rightarrow> feed \<Rightarrow> hash list \<Rightarrow> (string \<times> string) list \<Rightarrow> metric list" where
  "collect_steaks s f order seen =
     map (\<lambda>(t, oc). counter descSteak 0 [t, oc]) (preset_steaks f order seen) @
     map (\<lambda>(t, oc). counter descSteak (st_Steak s (t, oc)) [t, oc]) seen"

definition collect_feed :: "'w collector \<Rightarrow> feed \<Rightarrow> metric list" where
  "collect_feed c f = (let s = feed_snapshot (cnt f) in
     collect_totals s @ collect_verify (col_verify c) s @
     concat (map (\<lambda>i. collect_shadow (col_shadows c i)) (feed_shadows f)) @
     concat (map (\<lambda>i. collect_also (col_alsos c i)) (feed_alsos f)) @
     collect_workers (col_busy c) s f @ collect_steaks s f (col_topics c) (col_steaks c))"

definition collect_store :: "store \<times> warm_stats \<times> int \<Rightarrow> metric list" where
  "collect_store sw = (case sw of (st, w, nanos) \<Rightarrow> let s = Store_Stats st in
    [counter descHeaders (hs_Observed s) [''observed''], counter descHeaders (hs_Rejected s) [''rejected''],
     counter descHeaders (hs_Orphaned s) [''orphaned''], counter descHeaders (hs_Reanchored s) [''reanchored''],
     counter descHeaders (hs_Replaced s) [''replaced''], counter descHeaders (hs_Pruned s) [''pruned''],
     gauge descTip (uint (hs_TipHeight s)) [],
     counter descRoots (hs_FromLane s) [''lane''], counter descRoots (hs_FromHistory s) [''history''],
     counter descRoots (hs_FromFallback s) [''fallback''], counter descRoots (hs_Misses s) [''miss''],
     gauge descWarm (uint (Target w)) [''target''], gauge descWarm (uint (Loaded w)) [''loaded''],
     gauge descWarm (uint (Failed w)) [''failed''], gauge_seconds descWarmDuration nanos []])"

definition collect_facade :: "facade \<Rightarrow> metric list" where
  "collect_facade f = (let s = Facade_Stats f in
    [counter descFacade (fs_OK s) [''ok''], counter descFacade (fs_Malformed s) [''malformed''],
     counter descFacade (fs_UnknownTopic s) [''unknown_topic''], counter descFacade (fs_LoopDropped s) [''loop_dropped''],
     counter descFacade (fs_EngineError s) [''engine_error''], counter descFacade (fs_PublishFailed s) [''publish_failed''],
     counter descFacade (fs_Trusted s) [''trusted'']])"

definition collect_queue :: "'w client queue \<Rightarrow> metric list" where
  "collect_queue q = (let s = Queue_Stats q in
    [counter descQueue (qs_Enqueued s) [''enqueued''], counter descQueue (qs_Sent s) [''sent''],
     counter descQueue (qs_Shed s) [''shed''], counter descQueue (qs_Failed s) [''failed''],
     counter descQueue (qs_Resent s) [''resent''], counter descQueue (qs_Waited s) [''waited''],
     gauge descQueueDepth (uint (qs_Depth s)) [], gauge descQueueCap (uint (qs_Capacity s)) [],
     gauge descQueueBytes (uint (qs_Bytes s)) [], gauge descQueueBytesCap (uint (qs_BytesCapacity s)) [],
     gauge descUnconfirmed (uint (qs_Unconfirmed s)) [], counter descPeerClosed (qs_PeerClosed s) []])"

definition collect_guard :: "int \<Rightarrow> metric list" where
  "collect_guard n = [gauge descGuard n []]"

definition collect_lane :: "lane_view \<Rightarrow> metric list" where
  "collect_lane l =
    [counter descLane (l_Objects l) [l_Name l, ''objects''], counter descLane (l_Errors l) [l_Name l, ''errors''],
     counter descLane (l_Rejected l) [l_Name l, ''rejected''], counter descLane (l_Bytes l) [l_Name l, ''bytes''],
     gauge descLaneConns (l_Active l) [l_Name l], gauge descLaneBound (if l_Bound l then 1 else 0) [l_Name l]]"

definition collector_Collect :: "string \<times> string \<times> string \<Rightarrow> string \<Rightarrow> 'w collector \<Rightarrow> metric list" where
  "collector_Collect bl goversion c = collect_build bl goversion @ collect_config c @
     (case col_feed c of None \<Rightarrow> [] | Some f \<Rightarrow> collect_feed c f) @
     (case col_store c of None \<Rightarrow> [] | Some sw \<Rightarrow> collect_store sw) @
     (case col_facade c of None \<Rightarrow> [] | Some f \<Rightarrow> collect_facade f) @
     (case col_queue c of None \<Rightarrow> [] | Some q \<Rightarrow> collect_queue q) @
     (case col_guard c of None \<Rightarrow> [] | Some n \<Rightarrow> collect_guard n) @
     concat (map collect_lane (col_lanes c))"

definition collector_ready :: "'w collector \<Rightarrow> bool" where
  "collector_ready c = list_all l_Bound (col_lanes c)"

section \<open>Families and distinct series of each part\<close>

lemmas shadow_kinds = ShadowKinds_def ShadowMatch_def ShadowPrimaryOnly_def ShadowShadowOnly_def ShadowDiffer_def
  ShadowError_def ShadowDropped_def

lemmas also_kinds = AlsoResults_def AlsoOK_def AlsoRefused_def AlsoError_def AlsoShed_def

lemmas stage_kinds = WorkerStages_def StageVerify_def StageSubmit_def

lemmas mismatch_kinds = MismatchKinds_def MismatchBridgeOKEngineRefused_def MismatchBridgeRefusedEngineOK_def

lemmas outcome_kinds = OutcomeAdmitted_def OutcomeEmpty_def OutcomeError_def

text \<open>The part of the collector each family belongs to.\<close>

definition part :: "desc \<Rightarrow> nat" where
  "part d = (case d of
      descBuild \<Rightarrow> 0 | descConfig \<Rightarrow> 1 | descFeed \<Rightarrow> 2 | descVerifyScripts \<Rightarrow> 3 | descMismatch \<Rightarrow> 3
    | descShadow \<Rightarrow> 4 | descShadowQueue \<Rightarrow> 4 | descShadowQueueCap \<Rightarrow> 4
    | descAlso \<Rightarrow> 5 | descAlsoQueue \<Rightarrow> 5 | descAlsoQueueCap \<Rightarrow> 5
    | descEngineQueue \<Rightarrow> 6 | descEngineQueueCap \<Rightarrow> 6 | descEngineQueueBytes \<Rightarrow> 6 | descEngineQueueBytesCap \<Rightarrow> 6 | descWorkers \<Rightarrow> 6
    | descWorkersBusy \<Rightarrow> 7 | descShedRoute \<Rightarrow> 7 | descSteak \<Rightarrow> 8
    | descHeaders \<Rightarrow> 9 | descTip \<Rightarrow> 9 | descRoots \<Rightarrow> 9 | descWarm \<Rightarrow> 9 | descWarmDuration \<Rightarrow> 9
    | descFacade \<Rightarrow> 10 | descGuard \<Rightarrow> 12 | descLane \<Rightarrow> 13 | descLaneBound \<Rightarrow> 13 | descLaneConns \<Rightarrow> 13 | _ \<Rightarrow> 11)"

definition engine_gauges :: "feed \<Rightarrow> metric list" where
  "engine_gauges f =
    [gauge descEngineQueue (int (fst (Backlog f))) [], gauge descEngineQueueCap (int (snd (Backlog f))) [],
     gauge descEngineQueueBytes (fst (BacklogBytes f)) [], gauge descEngineQueueBytesCap (snd (BacklogBytes f)) [],
     gauge descWorkers (fWorkers f) []]"

lemma part_facts:
  "list_all (\<lambda>m. part (m_desc m) = 0) (collect_build bl v)" "list_all (\<lambda>m. part (m_desc m) = 1) (collect_config col)"
  "list_all (\<lambda>m. part (m_desc m) = 2) (collect_totals s)" "list_all (\<lambda>m. part (m_desc m) = 3) (collect_verify vf s)"
  "list_all (\<lambda>m. part (m_desc m) = 4) (collect_shadow sh)" "list_all (\<lambda>m. part (m_desc m) = 5) (collect_also a)"
  "list_all (\<lambda>m. part (m_desc m) = 6) (engine_gauges f)" "list_all (\<lambda>m. part (m_desc m) = 7) (collect_route bc s r)"
  "list_all (\<lambda>m. part (m_desc m) = 8) (collect_steaks s f order seen)" "list_all (\<lambda>m. part (m_desc m) = 9) (collect_store sw)"
  "list_all (\<lambda>m. part (m_desc m) = 10) (collect_facade fac)" "list_all (\<lambda>m. part (m_desc m) = 11) (collect_queue q)"
  "list_all (\<lambda>m. part (m_desc m) = 12) (collect_guard n)" "list_all (\<lambda>m. part (m_desc m) = 13) (collect_lane l)"
  by (simp_all add: part_def collect_build_def collect_config_def collect_totals_def collect_verify_def mismatch_kinds collect_shadow_def
      shadow_kinds collect_also_def also_kinds engine_gauges_def collect_route_def stage_kinds collect_steaks_def collect_store_def
      collect_facade_def collect_queue_def collect_guard_def collect_lane_def Let_def list.pred_map list.pred_True o_def case_prod_beta
      split: prod.splits option.splits)

lemma distinct_parts:
  "distinct (map series (collect_build bl v))" "distinct (map series (collect_config c))"
  "distinct (map series (collect_totals s))" "distinct (map series (collect_verify vf s))"
  "distinct (map series (collect_shadow sh))" "distinct (map series (collect_also a))"
  "distinct (map series (collect_route bc s r))" "distinct (map series (collect_store sw))"
  "distinct (map series (collect_facade fac))" "distinct (map series (collect_queue q))"
  "distinct (map series (collect_guard n))" "distinct (map series (collect_lane l))"
  by (simp_all add: collect_build_def collect_config_def collect_totals_def collect_verify_def mismatch_kinds collect_shadow_def
      shadow_kinds collect_also_def also_kinds collect_route_def stage_kinds collect_store_def collect_facade_def
      collect_queue_def collect_guard_def collect_lane_def Let_def split: prod.splits option.splits)

lemma distinct_shadows:
  assumes "distinct (map (\<lambda>i. sName (tbl i)) is)"
  shows "distinct (map series (concat (map (\<lambda>i. collect_shadow (tbl i)) is)))"
  by (rule distinct_series_loop [where tag = "hd \<circ> snd", OF assms]) (simp add: distinct_parts, auto simp: collect_shadow_def)

lemma distinct_alsos:
  assumes "distinct (map (\<lambda>i. [aName (tbl i), aTarget (tbl i)]) is)"
  shows "distinct (map series (concat (map (\<lambda>i. collect_also (tbl i)) is)))"
  by (rule distinct_series_loop [where tag = "take 2 \<circ> snd", OF assms]) (simp add: distinct_parts, auto simp: collect_also_def Let_def)

lemma distinct_lanes:
  assumes "distinct (map l_Name ls)"
  shows "distinct (map series (concat (map collect_lane ls)))"
  by (rule distinct_series_loop [where tag = "hd \<circ> snd", OF assms]) (simp add: distinct_parts, auto simp: collect_lane_def)

lemma distinct_routes:
  assumes "distinct rs"
  shows "distinct (map series (concat (map (collect_route bc s) rs)))"
  by (rule distinct_series_loop [where tag = "hd \<circ> snd" and nm = "\<lambda>r. r"])
    (use assms in simp, simp add: distinct_parts, auto simp: collect_route_def)

lemma distinct_steaks:
  assumes "distinct (List.map_filter (Topics f) order)" "distinct seen"
  shows "distinct (map series (collect_steaks s f order seen))"
proof -
  let ?ks = "preset_steaks f order seen @ seen"
  have "distinct ?ks" using assms by (auto simp: preset_steaks_def outcome_kinds intro!: distinct_filter distinct_product)
  moreover have "map series (collect_steaks s f order seen) = map (\<lambda>(t, oc). (descSteak, [t, oc])) ?ks"
    by (simp add: collect_steaks_def o_def case_prod_beta)
  moreover have "inj (\<lambda>(t, oc). (descSteak, [t, oc :: string]))" by (auto simp: inj_def)
  ultimately show ?thesis by (metis distinct_map inj_on_subset subset_UNIV)
qed

text \<open>A label given twice to the routes comes back as a series given twice.\<close>

lemma routes_series_distinct: "distinct (map series (concat (map (collect_route bc s) rs))) \<Longrightarrow> distinct rs"
proof (induction rs)
  case (Cons r rs)
  have "r \<notin> set rs"
  proof
    assume "r \<in> set rs"
    then have "(descShedRoute, [r]) \<in> set (map series (concat (map (collect_route bc s) rs)))"
      by (force simp: collect_route_def)
    moreover have "(descShedRoute, [r]) \<in> set (map series (collect_route bc s r))" by (simp add: collect_route_def)
    ultimately show False using Cons.prems by auto
  qed
  then show ?case using Cons by simp
qed simp

section \<open>A scrape of the running bridge\<close>

text \<open>
  The collector \<^verbatim>\<open>run\<close> makes: the running feed has the topics, engines and routes it was built with; every shadow and
  other target carries the name it was made under; the walks of the two maps go over each key once; there are the two
  lanes, and the configuration labels.
\<close>

definition collects :: "wiring \<Rightarrow> config \<Rightarrow> feed \<Rightarrow> 'w collector \<Rightarrow> bool" where
  "collects w c f col \<longleftrightarrow>
     (\<exists>g. col_feed col = Some g \<and> Topics g = Topics f \<and> fSubmit g = fSubmit f \<and> fRoutes g = fRoutes f \<and> fShadow g = fShadow f) \<and>
     (fShadow f \<noteq> None \<longrightarrow> sName (col_shadows col (shadow_of w (cfg_shadowEngine c) DefaultRoute)) = DefaultRoute) \<and>
     (\<forall>rs \<in> set (map spec_of (cfg_engineRoutes c)).
        (specShadow rs \<noteq> [] \<longrightarrow> sName (col_shadows col (shadow_of w (specShadow rs) (specPattern rs))) = specPattern rs) \<and>
        (\<forall>a \<in> set (specAlso rs). aName (col_alsos col (also_of w (specPattern rs) a)) = specPattern rs \<and>
           aTarget (col_alsos col (also_of w (specPattern rs) a)) = a)) \<and>
     distinct (col_topics col) \<and> set (col_topics col) = dom (Topics f) \<and> distinct (col_steaks col) \<and>
     map l_Name (col_lanes col) = [''beef'', ''header''] \<and>
     (\<exists>procs gogc limit. col_config col = Some (configLabels c procs gogc limit))"

lemma map_filter_Some: "List.map_filter (\<lambda>r. r) (map (\<lambda>x. Some (g x)) xs) = map g xs"
  by (induction xs) (simp_all add: map_filter_simps)

lemma map_filter_Some_concat:
  "List.map_filter (\<lambda>a. a) (concat (map (\<lambda>x. map (\<lambda>a. Some (g x a)) (h x)) xs)) = concat (map (\<lambda>x. map (g x) (h x)) xs)"
  by (induction xs) (simp_all add: List.map_filter_def filter_map o_def)

lemma built_routes:
  assumes "build_feed env w load c = Inr f" "validate_engine c = None"
  shows "fRoutes f = map (\<lambda>s. Some (build_route w s)) (cfg_engineRoutes c)"
    and "fSubmit f = None \<Longrightarrow> cfg_engineRoutes c = []"
    and "fShadow f = None \<or> fShadow f = Some (shadow_of w (cfg_shadowEngine c) DefaultRoute)"
    and "Topics f = NewTopicMap env (splitList (cfg_topics c)) (\<lambda>_. None)"
  using assms by (auto simp: build_feed_def Let_def bind_res_Inr_iff validate_engine_def split: if_splits)

lemma NewTopicMap_key:
  "NewTopicMap env ns m i = Some n \<Longrightarrow> m i = Some n \<or> i = topic_id env n"
  by (induction ns arbitrary: m) (force split: if_splits)+

lemma topic_walk_distinct:
  assumes "Topics f = NewTopicMap env ns (\<lambda>_. None)" "distinct order"
  shows "distinct (List.map_filter (Topics f) order)"
proof -
  have key: "Topics f i = Some n \<Longrightarrow> i = topic_id env n" for i n
    using NewTopicMap_key [of env ns "\<lambda>_. None" i n] assms(1) by simp
  show ?thesis using assms(2)
  proof (induction order)
    case (Cons i order)
    have "n \<notin> set (List.map_filter (Topics f) order)" if "Topics f i = Some n" for n
      using key [OF that] key Cons.prems by (auto simp: List.map_filter_def)
    then show ?case using Cons by (cases "Topics f i") (simp_all add: map_filter_simps)
  qed (simp add: map_filter_simps)
qed

lemma also_distinct:
  assumes "ParseRouteSpec s = Inr rs"
  shows "distinct (specAlso rs)"
proof -
  have "distinct (map trim_right_slash (specAlso rs))"
    using assms by (auto simp: ParseRouteSpec_def Let_def bind_res_Inr_iff fresh_targets_ok split: option.splits if_splits)
  then show ?thesis by (simp add: distinct_map)
qed

lemma shadow_labels:
  assumes "\<forall>rs \<in> set rss. specShadow rs \<noteq> [] \<longrightarrow> sName (tbl (shadow_of w (specShadow rs) (specPattern rs))) = specPattern rs"
  shows "map (\<lambda>i. sName (tbl i)) (List.map_filter (\<lambda>rs. if specShadow rs \<noteq> [] then Some (shadow_of w (specShadow rs) (specPattern rs)) else None) rss) =
    map specPattern (filter (\<lambda>rs. specShadow rs \<noteq> []) rss)"
  using assms by (induction rss) (auto simp: map_filter_simps)

lemma also_labels:
  assumes "\<forall>rs \<in> set rss. \<forall>a \<in> set (specAlso rs). aName (tbl (also_of w (specPattern rs) a)) = specPattern rs \<and>
      aTarget (tbl (also_of w (specPattern rs) a)) = a"
  shows "map (\<lambda>i. [aName (tbl i), aTarget (tbl i)]) (concat (map (\<lambda>rs. map (also_of w (specPattern rs)) (specAlso rs)) rss)) =
    concat (map (\<lambda>rs. map (\<lambda>a. [specPattern rs, a]) (specAlso rs)) rss)"
  using assms by (induction rss) auto

lemma also_pairs_distinct:
  assumes "distinct (map specPattern rss)" "\<forall>rs \<in> set rss. distinct (specAlso rs)"
  shows "distinct (concat (map (\<lambda>rs. map (\<lambda>a. [specPattern rs, a]) (specAlso rs)) rss))"
  using assms by (induction rss) (auto simp: distinct_map inj_on_def)

lemma well_labelled_parts:
  "list_all well_labelled (collect_build bl v)" "list_all well_labelled (collect_totals s)"
  "list_all well_labelled (collect_verify vf s)" "list_all well_labelled (collect_shadow sh)"
  "list_all well_labelled (collect_also a)" "list_all well_labelled (engine_gauges f)" "list_all well_labelled (collect_route bc s r)"
  "list_all well_labelled (collect_steaks s f order seen)" "list_all well_labelled (collect_store sw)"
  "list_all well_labelled (collect_facade fac)" "list_all well_labelled (collect_queue q)"
  "list_all well_labelled (collect_guard n)" "list_all well_labelled (collect_lane l)"
  by (simp_all add: desc_labels_def collect_build_def collect_totals_def collect_verify_def mismatch_kinds collect_shadow_def shadow_kinds
      collect_also_def also_kinds engine_gauges_def collect_route_def stage_kinds collect_steaks_def collect_store_def collect_facade_def
      collect_queue_def collect_guard_def collect_lane_def Let_def list.pred_map list.pred_True o_def case_prod_beta split: prod.splits)

text \<open>The parts of a scrape, numbered.\<close>

definition parts :: "string \<times> string \<times> string \<Rightarrow> string \<Rightarrow> 'w collector \<Rightarrow> feed \<Rightarrow> (nat \<times> metric list) list" where
  "parts bl v col g = (let s = feed_snapshot (cnt g) in
    [(0, collect_build bl v), (1, collect_config col), (2, collect_totals s), (3, collect_verify (col_verify col) s),
     (4, concat (map (\<lambda>i. collect_shadow (col_shadows col i)) (feed_shadows g))),
     (5, concat (map (\<lambda>i. collect_also (col_alsos col i)) (feed_alsos g))),
     (6, if fSubmit g = None then [] else engine_gauges g),
     (7, if fSubmit g = None then [] else concat (map (collect_route (col_busy col) s) (RouteNames g))),
     (8, collect_steaks s g (col_topics col) (col_steaks col)),
     (9, case col_store col of None \<Rightarrow> [] | Some sw \<Rightarrow> collect_store sw),
     (10, case col_facade col of None \<Rightarrow> [] | Some f \<Rightarrow> collect_facade f),
     (11, case col_queue col of None \<Rightarrow> [] | Some q \<Rightarrow> collect_queue q),
     (12, case col_guard col of None \<Rightarrow> [] | Some n \<Rightarrow> collect_guard n),
     (13, concat (map collect_lane (col_lanes col)))])"

lemma Collect_parts: "col_feed col = Some g \<Longrightarrow> collector_Collect bl v col = concat (map snd (parts bl v col g))"
  by (simp add: collector_Collect_def collect_feed_def collect_workers_def engine_gauges_def parts_def Let_def)

lemma all_option: "list_all P (case x of None \<Rightarrow> [] | Some y \<Rightarrow> g y) \<longleftrightarrow> (\<forall>y. x = Some y \<longrightarrow> list_all P (g y))"
  by (cases x) simp_all

lemma all_concat: "list_all P (concat (map g xs)) \<longleftrightarrow> list_all (\<lambda>x. list_all P (g x)) xs"
  by (induction xs) simp_all

lemma all_if: "list_all P (if c then [] else ms) \<longleftrightarrow> c \<or> list_all P ms"
  by simp

lemmas all_simps = all_option all_concat all_if list.pred_True

lemma parts_tagged: "list_all (\<lambda>b. list_all (\<lambda>m. part (m_desc m) = fst b) (snd b)) (parts bl v col g)"
  by (simp only: parts_def Let_def list.pred_inject fst_conv snd_conv all_simps part_facts simp_thms)

lemma parts_numbered: "map fst (parts bl v col g) = [0, 1, 2, 3, 4, 5, 6, 7, 8, 9, 10, 11, 12, 13]"
  by (simp add: parts_def Let_def)

lemma well_labelled_Collect:
  assumes "col_feed col = Some g" "col_config col = Some (configLabels c procs gogc limit)"
  shows "list_all well_labelled (collector_Collect bl v col)"
proof -
  have "list_all well_labelled (collect_config col)"
    using assms by (simp add: collect_config_def configLabels_def desc_labels_def)
  then have "list_all (\<lambda>b. list_all well_labelled (snd b)) (parts bl v col g)"
    by (simp only: parts_def Let_def list.pred_inject snd_conv all_simps well_labelled_parts simp_thms)
  then show ?thesis by (auto simp: Collect_parts [OF assms(1)] list_all_iff)
qed

lemma distinct_option:
  "distinct (map series (case x of None \<Rightarrow> [] | Some y \<Rightarrow> g y)) \<longleftrightarrow> (\<forall>y. x = Some y \<longrightarrow> distinct (map series (g y)))"
  by (cases x) simp_all

lemma distinct_if: "distinct (map series (if c then [] else ms)) \<longleftrightarrow> c \<or> distinct (map series ms)"
  by simp

lemma distinct_block: "distinct (map series (concat bs)) \<Longrightarrow> b \<in> set bs \<Longrightarrow> distinct (map series b)"
  by (induction bs) auto

lemma distinct_Collect:
  assumes "col_feed col = Some g" "distinct (RouteNames g)" "distinct (map (\<lambda>i. sName (col_shadows col i)) (feed_shadows g))"
    and "distinct (map (\<lambda>i. [aName (col_alsos col i), aTarget (col_alsos col i)]) (feed_alsos g))"
    and "distinct (List.map_filter (Topics g) (col_topics col))" "distinct (col_steaks col)" "distinct (map l_Name (col_lanes col))"
  shows "distinct (map series (collector_Collect bl v col))"
proof -
  have "distinct (map series (engine_gauges g))" by (simp add: engine_gauges_def)
  then have d: "list_all (\<lambda>b. distinct (map series (snd b))) (parts bl v col g)"
    by (simp only: parts_def Let_def list.pred_inject snd_conv distinct_option distinct_if distinct_parts distinct_shadows [OF assms(3)]
        distinct_alsos [OF assms(4)] distinct_routes [OF assms(2)] distinct_steaks [OF assms(5,6)] distinct_lanes [OF assms(7)] simp_thms)
  show ?thesis unfolding Collect_parts [OF assms(1)]
  proof (rule distinct_series_loop [where tag = "part \<circ> fst" and nm = fst])
    show "distinct (map fst (parts bl v col g))" by (simp add: parts_numbered)
    show "distinct (map series (snd b))" if "b \<in> set (parts bl v col g)" for b using d that by (simp add: list_all_iff)
    show "(part \<circ> fst) (series m) = fst b" if "b \<in> set (parts bl v col g)" "m \<in> set (snd b)" for b m
      using parts_tagged [of bl v col g] that by (simp add: series_def list_all_iff)
  qed
qed

section \<open>Properties\<close>

lemma running_labels:
  assumes v: "validate pp loopback c = None" and f: "build_feed env w load c = Inr f" and col: "collects w c f col"
  obtains g where "col_feed col = Some g" "fSubmit g = None \<longrightarrow> cfg_engineRoutes c = []"
    "RouteNames g = DefaultRoute # map specPattern (map spec_of (cfg_engineRoutes c))"
    "distinct (RouteNames g) \<longrightarrow> distinct (map (\<lambda>i. sName (col_shadows col i)) (feed_shadows g))"
    "distinct (RouteNames g) \<longrightarrow> distinct (map (\<lambda>i. [aName (col_alsos col i), aTarget (col_alsos col i)]) (feed_alsos g))"
    "distinct (List.map_filter (Topics g) (col_topics col))"
proof -
  let ?rss = "map spec_of (cfg_engineRoutes c)"
  obtain g where g: "col_feed col = Some g" "Topics g = Topics f" "fSubmit g = fSubmit f" "fRoutes g = fRoutes f" "fShadow g = fShadow f"
    using col by (auto simp: collects_def)
  note b = built_routes [OF f validate_None(1) [OF v]]
  have rs: "List.map_filter (\<lambda>r. r) (fRoutes g) = map (build_route w) (cfg_engineRoutes c)"
    by (simp add: g(4) b(1) map_filter_Some)
  have names: "RouteNames g = DefaultRoute # map specPattern ?rss"
    by (simp add: RouteNames_def rs build_route_def Let_def)
  obtain ds where ds: "map (\<lambda>i. sName (col_shadows col i)) (case fShadow g of None \<Rightarrow> [] | Some i \<Rightarrow> [i]) = ds" "ds = [] \<or> ds = [DefaultRoute]"
    using b(3) col g(5) by (auto simp: collects_def)
  have "List.map_filter rShadow (map (build_route w) (cfg_engineRoutes c)) =
      List.map_filter (\<lambda>rs. if specShadow rs \<noteq> [] then Some (shadow_of w (specShadow rs) (specPattern rs)) else None) ?rss"
    by (simp add: List.map_filter_def build_route_def Let_def filter_map o_def)
  then have sh: "map (\<lambda>i. sName (col_shadows col i)) (feed_shadows g) = ds @ map specPattern (filter (\<lambda>rs. specShadow rs \<noteq> []) ?rss)"
    using shadow_labels [of ?rss "col_shadows col" w] col ds(1) by (simp add: feed_shadows_def rs collects_def)
  have "feed_alsos g = concat (map (\<lambda>rs. map (also_of w (specPattern rs)) (specAlso rs)) ?rss)"
    by (simp add: feed_alsos_def rs build_route_def Let_def o_def map_concat [symmetric] map_filter_Some_concat)
  then have al: "map (\<lambda>i. [aName (col_alsos col i), aTarget (col_alsos col i)]) (feed_alsos g) =
      concat (map (\<lambda>rs. map (\<lambda>a. [specPattern rs, a]) (specAlso rs)) ?rss)"
    using also_labels [of ?rss "col_alsos col" w] col by (simp add: collects_def)
  have da: "\<forall>rs \<in> set ?rss. distinct (specAlso rs)"
  proof
    fix rs assume "rs \<in> set ?rss"
    then obtain s where s: "s \<in> set (cfg_engineRoutes c)" "rs = spec_of s" by auto
    then obtain rs' where "ParseRouteSpec s = Inr rs'" using validate_routes [OF validate_None(1) [OF v]] by blast
    then show "distinct (specAlso rs)" using also_distinct s(2) by (simp add: spec_of_def)
  qed
  show thesis
  proof (rule that [OF g(1) _ names])
    show "fSubmit g = None \<longrightarrow> cfg_engineRoutes c = []" using b(2) g(3) by simp
    show "distinct (RouteNames g) \<longrightarrow> distinct (map (\<lambda>i. sName (col_shadows col i)) (feed_shadows g))"
      using ds(2) unfolding names sh by (auto simp: distinct_map_filter simp del: map_map) (metis imageI)
    show "distinct (RouteNames g) \<longrightarrow> distinct (map (\<lambda>i. [aName (col_alsos col i), aTarget (col_alsos col i)]) (feed_alsos g))"
      unfolding al by (intro impI also_pairs_distinct da) (simp add: names)
    show "distinct (List.map_filter (Topics g) (col_topics col))"
      using topic_walk_distinct [of g env] b(4) g(2) col by (simp add: collects_def)
  qed
qed


text \<open>
  No outcome of an elected topic is ever absent: every scrape of the running feed carries, for each elected topic and
  each of the outcomes admitted, empty and error, a series with the number of times it was booked, zero included.
\<close>

theorem every_elected_outcome_is_reported:
  assumes "col_feed col = Some f" and "Topics f i = Some n" and "i \<in> set (col_topics col)"
    and "oc \<in> {OutcomeAdmitted, OutcomeEmpty, OutcomeError}"
    and "\<forall>k. c_steak (cnt f) k \<noteq> 0 \<longrightarrow> k \<in> set (col_steaks col)"
  shows "counter descSteak (c_steak (cnt f) (n, oc)) [n, oc] \<in> set (collector_Collect bl v col)"
proof -
  have "counter descSteak (c_steak (cnt f) (n, oc)) [n, oc] \<in>
      set (collect_steaks (feed_snapshot (cnt f)) f (col_topics col) (col_steaks col))"
  proof (cases "(n, oc) \<in> set (col_steaks col)")
    case True
    then show ?thesis by (force simp: collect_steaks_def feed_snapshot_def)
  next
    case False
    then have z: "c_steak (cnt f) (n, oc) = 0" using assms(5) by blast
    have "n \<in> set (List.map_filter (Topics f) (col_topics col))" using assms(2,3) by (force simp: List.map_filter_def)
    then have "(n, oc) \<in> set (preset_steaks f (col_topics col) (col_steaks col))"
      using False assms(4) by (auto simp: preset_steaks_def)
    then show ?thesis unfolding z by (force simp: collect_steaks_def)
  qed
  then show ?thesis by (simp add: collector_Collect_def collect_feed_def assms(1) Let_def)
qed

definition sample_collector :: "feed \<Rightarrow> config \<Rightarrow> unit collector" where
  "sample_collector f c = \<lparr>col_feed = Some f, col_shadows = (\<lambda>_. (shadow_target.truncate sample_shadow)\<lparr>sName := ''default''\<rparr>),
     col_alsos = (\<lambda>_. also_target.truncate sample_also), col_busy = (\<lambda>_. 0), col_topics = [[97], [98]], col_steaks = [],
     col_guard = Some 0, col_store = None, col_facade = None, col_queue = None,
     col_lanes = [\<lparr>l_Name = ''beef'', l_Objects = 0, l_Errors = 0, l_Rejected = 0, l_Bytes = 0, l_Active = 0, l_Bound = True\<rparr>,
       \<lparr>l_Name = ''header'', l_Objects = 0, l_Errors = 0, l_Rejected = 0, l_Bytes = 0, l_Active = 0, l_Bound = True\<rparr>],
     col_verify = True, col_config = Some (configLabels c 4 [] None)\<rparr>"

lemma sample_routes: "ParseRouteSpec ''a=b'' = Inr \<lparr>specPattern = ''a'', specPrimary = ''b'', specShadow = [], specAlso = []\<rparr>"
  by code_simp


theorem every_elected_outcome_is_reported_witness:
  "counter descSteak 0 [''a'', ''admitted''] \<in>
     set (collector_Collect (''1'', ''2'', ''3'') ''go'' (sample_collector (feed.truncate sample_feed) sample_config))"
proof -
  have "counter descSteak (c_steak (cnt (feed.truncate sample_feed)) (''a'', OutcomeAdmitted)) [''a'', OutcomeAdmitted] \<in>
     set (collector_Collect (''1'', ''2'', ''3'') ''go'' (sample_collector (feed.truncate sample_feed) sample_config))"
    by (rule every_elected_outcome_is_reported [where i = "[97]"])
      (simp_all add: sample_collector_def feed.defs sample_feed_def zero_counters_def)
  then show ?thesis by (simp add: feed.defs sample_feed_def zero_counters_def OutcomeAdmitted_def)
qed

end
