(* ===== verification/Spv_Props.thy ===== *)
theory Spv_Props
  imports Spv_Check
begin

text \<open>
  What a passing verdict means: every transaction reached from a tip is proven mined or satisfies the specification
  \<open>tx_valid\<close>, which speaks of amounts as numbers and of the chain as the tracker reports it, not of the checks' code.
\<close>

section \<open>Amounts never wrap\<close>

lemma maxSat_word: "unat (word_of_nat maxSatoshis :: u64) = maxSatoshis"
  by (simp add: maxSatoshis_def unat_of_nat)

lemma addSats_sum:
  assumes "addSats a v = Some t" "unat a \<le> maxSatoshis"
  shows "unat t = unat a + unat v \<and> unat t \<le> maxSatoshis"
proof -
  let ?m = "word_of_nat maxSatoshis :: u64"
  have v: "v \<le> ?m" "a \<le> ?m - v" "t = a + v"
    using assms(1) by (auto simp: addSats_def Let_def split: if_splits)
  have "unat v \<le> maxSatoshis" using v(1) maxSat_word by (simp add: word_le_nat_alt)
  then have "unat (?m - v) = maxSatoshis - unat v" using v(1) maxSat_word by (simp add: unat_sub)
  then have "unat a + unat v \<le> maxSatoshis" using v(2) \<open>unat v \<le> maxSatoshis\<close> by (simp add: word_le_nat_alt)
  moreover have "maxSatoshis < 2 ^ 64" by (simp add: maxSatoshis_def)
  ultimately show ?thesis using v(3) by (simp add: unat_word_ariths)
qed

lemma sumSats_sum:
  "sumSats a vs = Some t \<Longrightarrow> unat a \<le> maxSatoshis \<Longrightarrow> unat t = unat a + sum_list (map unat vs) \<and> unat t \<le> maxSatoshis"
proof (induction vs arbitrary: a)
  case (Cons v vs)
  then obtain b where b: "addSats a v = Some b" "sumSats b vs = Some t" by (auto split: option.splits)
  then show ?case using Cons.IH [OF b(2)] addSats_sum [OF b(1)] Cons.prems(2) by simp
qed simp

section \<open>The specification of an unmined transaction\<close>

text \<open>The tip cached by a graph is the tracker's.\<close>

definition tip_ok :: "spv_env \<Rightarrow> graph \<Rightarrow> bool" where
  "tip_ok env g \<longleftrightarrow> (\<forall>h. tip g = Some h \<longrightarrow> current_height env = Some h)"

lemma chainTip_ok:
  assumes "chainTip env g = (r, g1)" "tip_ok env g"
  shows "tip_ok env g1 \<and> mined g1 = mined g \<and> finality g1 = finality g \<and> skipScripts g1 = skipScripts g \<and>
    (\<forall>h. r = Inr h \<longrightarrow> current_height env = Some h)"
  using assms by (auto simp: chainTip_def tip_ok_def watch_CurrentHeight_def split: option.splits prod.splits)

definition is_final :: "spv_env \<Rightarrow> tx \<Rightarrow> bool" where
  "is_final env t \<longleftrightarrow> LockTime t = 0 \<or> (\<forall>i \<in> set (Inputs t). SequenceNumber i = 0xffffffff) \<or>
     (unat (LockTime t) < 500000000 \<and> (\<exists>h. current_height env = Some h \<and> unat (LockTime t) \<le> unat h))"

lemma final_ok:
  assumes "final env t g = (None, g1)" "tip_ok env g"
  shows "is_final env t \<and> tip_ok env g1 \<and> mined g1 = mined g \<and> finality g1 = finality g \<and> skipScripts g1 = skipScripts g"
proof -
  consider "LockTime t = 0" | "list_all (\<lambda>i. SequenceNumber i = 0xffffffff) (Inputs t)"
    | "LockTime t < lockTimeThreshold" "\<exists>h. chainTip env g = (Inr h, g1) \<and> LockTime t \<le> h"
    using assms(1) by (auto simp: final_def split: if_splits prod.splits sum.splits)
  then show ?thesis
  proof cases
    case 3
    then obtain h where h: "chainTip env g = (Inr h, g1)" "LockTime t \<le> h" by blast
    have "unat (LockTime t) < 500000000"
      using 3(1) by (simp add: lockTimeThreshold_def word_less_nat_alt)
    then show ?thesis using chainTip_ok [OF h(1) assms(2)] h(2) by (auto simp: is_final_def word_le_nat_alt)
  qed (use assms in \<open>auto simp: final_def is_final_def list_all_iff split: if_splits\<close>)
qed

text \<open>An input whose source is of a kind that has to mature is buried deep enough below the tracker's tip.\<close>

definition buried :: "spv_env \<Rightarrow> (hash \<Rightarrow> u32 option) \<Rightarrow> int \<Rightarrow> tx_input \<Rightarrow> bool" where
  "buried env m depth i \<longleftrightarrow> (\<exists>h x t. SourceTXID i = Some x \<and> m x = Some h \<and> current_height env = Some t \<and>
     uint t + 1 - uint h \<ge> depth)"

lemma mature_ok:
  assumes "mature env kind d early i g = (None, g1)" "tip_ok env g"
  shows "tip_ok env g1 \<and> mined g1 = mined g \<and> finality g1 = finality g \<and> skipScripts g1 = skipScripts g \<and>
    (\<forall>t. src_tx env i = Some t \<and> kind t \<longrightarrow> buried env (mined g) d i)"
proof (cases "\<exists>t. src_tx env i = Some t \<and> kind t")
  case False
  then show ?thesis using assms by (auto simp: mature_def split: option.splits)
next
  case True
  then have d: "deepEnough env i d g = (Inr True, g1)"
    using assms(1) by (auto simp: mature_def split: prod.splits sum.splits if_splits)
  then obtain x h t where "SourceTXID i = Some x" "mined g x = Some h" "chainTip env g = (Inr t, g1)" "uint t + 1 - uint h \<ge> d"
    by (auto simp: deepEnough_def split: option.splits prod.splits sum.splits)
  then show ?thesis using chainTip_ok [of env g "Inr t" g1] assms(2) by (auto simp: buried_def)
qed

definition spendable :: "spv_env \<Rightarrow> (hash \<Rightarrow> u32 option) \<Rightarrow> tx_input \<Rightarrow> bool" where
  "spendable env m i \<longleftrightarrow> spentOutput env i \<noteq> None \<and>
     (\<forall>t. src_tx env i = Some t \<longrightarrow> (isCoinbase t \<longrightarrow> buried env m 100 i) \<and> (isConfiscationTx t \<longrightarrow> buried env m 1000 i))"

definition spent_value :: "spv_env \<Rightarrow> tx_input \<Rightarrow> nat" where
  "spent_value env i = (case spentOutput env i of None \<Rightarrow> 0 | Some p \<Rightarrow> unat (Satoshis p))"

lemma spend_inputs_ok:
  "spend_inputs env is a g = (Inr t, g1) \<Longrightarrow> tip_ok env g \<Longrightarrow> unat a \<le> maxSatoshis \<Longrightarrow>
     tip_ok env g1 \<and> mined g1 = mined g \<and> finality g1 = finality g \<and> skipScripts g1 = skipScripts g \<and>
     (\<forall>i \<in> set is. spendable env (mined g) i) \<and>
     unat t = unat a + sum_list (map (spent_value env) is) \<and> unat t \<le> maxSatoshis"
proof (induction "is" arbitrary: a g)
  case (Cons i "is")
  obtain p gc gd b where p: "spentOutput env i = Some p"
    and c: "mature env isCoinbase coinbaseMaturity PrematureCoinbase i g = (None, gc)"
    and d: "mature env isConfiscationTx confiscationMaturity PrematureConfiscation i gc = (None, gd)"
    and b: "addSats a (Satoshis p) = Some b" and r: "spend_inputs env is b gd = (Inr t, g1)"
    using Cons.prems(1) by (auto split: option.splits prod.splits)
  have mc: "tip_ok env gc" "mined gc = mined g" "finality gc = finality g \<and> skipScripts gc = skipScripts g"
      "\<forall>t. src_tx env i = Some t \<and> isCoinbase t \<longrightarrow> buried env (mined g) coinbaseMaturity i"
    using mature_ok [OF c Cons.prems(2)] by simp_all
  have md: "tip_ok env gd" "mined gd = mined g" "finality gd = finality g \<and> skipScripts gd = skipScripts g"
      "\<forall>t. src_tx env i = Some t \<and> isConfiscationTx t \<longrightarrow> buried env (mined g) confiscationMaturity i"
    using mature_ok [OF d mc(1)] mc by simp_all
  have s: "unat b = unat a + unat (Satoshis p)" "unat b \<le> maxSatoshis" using addSats_sum [OF b Cons.prems(3)] by simp_all
  have "spendable env (mined g) i"
    using p mc(4) md(4) by (auto simp: spendable_def coinbaseMaturity_def confiscationMaturity_def)
  then show ?case using Cons.IH [OF r md(1) s(2)] md s p by (auto simp: spent_value_def)
qed auto

definition outpoint :: "tx_input \<Rightarrow> hash option \<times> u32" where
  "outpoint i = (SourceTXID i, SourceTxOutIndex i)"

lemma outpoints_ok_distinct:
  "outpoints_ok spent is = None \<Longrightarrow> distinct (map outpoint is) \<and>
     (\<forall>i \<in> set is. SourceTXID i \<noteq> None \<and> \<not> isNullOutpoint i \<and> (the (SourceTXID i), SourceTxOutIndex i) \<notin> spent)"
proof (induction "is" arbitrary: spent)
  case (Cons i "is")
  then obtain h where h: "SourceTXID i = Some h" "\<not> isNullOutpoint i" "(h, SourceTxOutIndex i) \<notin> spent"
    "outpoints_ok (insert (h, SourceTxOutIndex i) spent) is = None" by (auto split: option.splits if_splits)
  from Cons.IH [OF h(4)] have ih: "distinct (map outpoint is)"
    "\<forall>j \<in> set is. SourceTXID j \<noteq> None \<and> \<not> isNullOutpoint j \<and>
       (the (SourceTXID j), SourceTxOutIndex j) \<notin> insert (h, SourceTxOutIndex i) spent" by simp_all
  have "outpoint i \<notin> outpoint ` set is"
  proof
    assume "outpoint i \<in> outpoint ` set is"
    then obtain j where "j \<in> set is" "SourceTXID j = Some h" "SourceTxOutIndex j = SourceTxOutIndex i"
      using h(1) by (auto simp: outpoint_def)
    then show False using ih(2) by auto
  qed
  then show ?case using ih h by auto
qed simp

text \<open>The height an input's coin is judged under.\<close>

definition judged_height :: "spv_env \<Rightarrow> (hash \<Rightarrow> u32 option) \<Rightarrow> tx_input \<Rightarrow> tx_output \<Rightarrow> u32" where
  "judged_height env m i p = (let g = \<lparr>finality = [], skipScripts = False, mined = m, tip = None, scripts = 0,
     gw = \<lparr>failed = False, notYet = False\<rparr>\<rparr> in p2shCoinHeight env i p (coin_height i g) g)"

lemma judged: "p2shCoinHeight env i p (coin_height i g) g = judged_height env (mined g) i p"
  unfolding judged_height_def p2shCoinHeight_def coin_height_def Let_def graph.select_convs by (rule refl)

lemma run_scripts_ok:
  "run_scripts env k vin is g = (None, g1) \<Longrightarrow>
     tip g1 = tip g \<and> mined g1 = mined g \<and> finality g1 = finality g \<and> skipScripts g1 = skipScripts g \<and>
     (\<forall>n < length is. \<exists>p. spentOutput env (is ! n) = Some p \<and> run_script env k (vin + n) p (judged_height env (mined g) (is ! n) p))"
proof (induction "is" arbitrary: vin g)
  case (Cons i "is")
  then obtain p where p: "spentOutput env i = Some p" "run_script env k vin p (judged_height env (mined g) i p)"
    "run_scripts env k (vin + 1) is (g\<lparr>scripts := scripts g + 1\<rparr>) = (None, g1)"
    by (auto simp: Let_def judged split: option.splits if_splits)
  note ih = Cons.IH [OF p(3)]
  have "\<exists>p. spentOutput env ((i # is) ! n) = Some p \<and> run_script env k (vin + n) p (judged_height env (mined g) ((i # is) ! n) p)"
    if "n < length (i # is)" for n
    using that p ih by (cases n) auto
  then show ?case using ih by simp
qed simp

definition tx_valid :: "spv_env \<Rightarrow> string \<Rightarrow> bool \<Rightarrow> (hash \<Rightarrow> u32 option) \<Rightarrow> nat \<Rightarrow> bool" where
  "tx_valid env fin skip m k \<longleftrightarrow> (let t = objs env ! k in
     \<not> isCoinbase t \<and> \<not> isConfiscationTx t \<and> Inputs t \<noteq> [] \<and> Outputs t \<noteq> [] \<and>
     (\<forall>p \<in> set (Outputs t). \<forall>sc. LockingScript p = Some sc \<longrightarrow> \<not> is_p2sh env sc) \<and>
     distinct (map outpoint (Inputs t)) \<and>
     (\<forall>i \<in> set (Inputs t). SourceTXID i \<noteq> None \<and> \<not> isNullOutpoint i \<and> spendable env m i) \<and>
     (\<Sum>p\<leftarrow>Outputs t. unat (Satoshis p)) \<le> (\<Sum>i\<leftarrow>Inputs t. spent_value env i) \<and>
     (\<Sum>i\<leftarrow>Inputs t. spent_value env i) \<le> 21000000 * 100000000 \<and>
     (fin = FinalityRequire \<longrightarrow> is_final env t) \<and>
     (\<not> skip \<longrightarrow> (\<forall>n < length (Inputs t). \<exists>p. spentOutput env (Inputs t ! n) = Some p \<and>
        run_script env k n p (judged_height env m (Inputs t ! n) p))))"

lemma checkTx_valid:
  assumes "checkTx env k g = (None, g')" "tip_ok env g"
  shows "tx_valid env (finality g) (skipScripts g) (mined g) k \<and> tip_ok env g' \<and> mined g' = mined g \<and>
    finality g' = finality g \<and> skipScripts g' = skipScripts g"
proof -
  let ?t = "objs env ! k"
  define fin where "fin = (if finality g = FinalityRequire then final env ?t g else (None, g))"
  obtain outT g1 inT g2 where nc: "\<not> isCoinbase ?t" "Inputs ?t \<noteq> []" "Outputs ?t \<noteq> []"
      "\<forall>p \<in> set (Outputs ?t). \<forall>sc. LockingScript p = Some sc \<longrightarrow> \<not> is_p2sh env sc"
    and o: "sumSats 0 (map Satoshis (Outputs ?t)) = Some outT"
    and op: "outpoints_ok {} (Inputs ?t) = None" and f: "fin = (None, g1)" and cf: "\<not> isConfiscationTx ?t"
    and si: "spend_inputs env (Inputs ?t) 0 g1 = (Inr inT, g2)" and le: "\<not> outT > inT"
    and rs: "(if skipScripts g2 then (None, g2) else run_scripts env k 0 (Inputs ?t) g2) = (None, g')"
    using assms(1) unfolding checkTx_def Let_def fin_def [symmetric]
    by (auto simp: list_ex_iff split: if_splits option.splits prod.splits sum.splits)
  have f1: "finality g = FinalityRequire \<longrightarrow> is_final env ?t" "tip_ok env g1" "mined g1 = mined g"
    "finality g1 = finality g \<and> skipScripts g1 = skipScripts g"
    using f final_ok [of env ?t g g1] assms(2) by (auto simp: fin_def split: if_splits)
  have z: "unat (0 :: u64) \<le> maxSatoshis" by simp
  have si': "tip_ok env g2" "mined g2 = mined g1" "finality g2 = finality g1 \<and> skipScripts g2 = skipScripts g1"
      "\<forall>i \<in> set (Inputs ?t). spendable env (mined g1) i"
      "unat inT = sum_list (map (spent_value env) (Inputs ?t))" "unat inT \<le> maxSatoshis"
    using spend_inputs_ok [OF si f1(2) z] by simp_all
  have out: "unat outT = (\<Sum>p\<leftarrow>Outputs ?t. unat (Satoshis p))"
    using sumSats_sum [OF o z] by (simp add: comp_def)
  have "(\<Sum>p\<leftarrow>Outputs ?t. unat (Satoshis p)) \<le> sum_list (map (spent_value env) (Inputs ?t))"
    using le out si'(5) by (simp add: word_le_nat_alt not_less)
  moreover have "sum_list (map (spent_value env) (Inputs ?t)) \<le> 21000000 * 100000000"
    using si'(5,6) by (simp add: maxSatoshis_def)
  moreover have rs': "tip g' = tip g2 \<and> mined g' = mined g2 \<and> finality g' = finality g2 \<and> skipScripts g' = skipScripts g2 \<and>
      (\<not> skipScripts g \<longrightarrow> (\<forall>n < length (Inputs ?t). \<exists>p. spentOutput env (Inputs ?t ! n) = Some p \<and>
        run_script env k n p (judged_height env (mined g) (Inputs ?t ! n) p)))"
  proof (cases "skipScripts g2")
    case True
    then show ?thesis using rs si' f1 by simp
  next
    case False
    then show ?thesis using rs run_scripts_ok [of env k 0 "Inputs ?t" g2 g'] si' f1 by simp
  qed
  moreover have "tip_ok env g'" using si'(1) rs' by (simp add: tip_ok_def)
  ultimately show ?thesis
    using nc cf op outpoints_ok_distinct [of "{}" "Inputs ?t"] f1 si' unfolding tx_valid_def Let_def by simp
qed

section \<open>The walks\<close>

text \<open>A mined entry rests on a merkle path the tracker accepted.\<close>

definition proved :: "spv_env \<Rightarrow> hash \<Rightarrow> u32 \<Rightarrow> bool" where
  "proved env x h \<longleftrightarrow> (\<exists>k mp w w'. txid_of env k = x \<and> MerklePath (objs env ! k) = Some mp \<and> BlockHeight (objs env ! k) = h \<and>
     path_verify env mp x (watch_IsValidRoot env) w = (Some True, w'))"

definition mined_ok :: "spv_env \<Rightarrow> (hash \<Rightarrow> u32 option) \<Rightarrow> bool" where
  "mined_ok env m \<longleftrightarrow> (\<forall>x h. m x = Some h \<longrightarrow> proved env x h)"

lemma prove_path_ok:
  assumes "prove_path env k mp g = (None, g1)" "MerklePath (objs env ! k) = Some mp" "mined_ok env (mined g)"
  shows "mined_ok env (mined g1) \<and> tip g1 = tip g \<and> finality g1 = finality g \<and> skipScripts g1 = skipScripts g"
proof -
  let ?x = "txid_of env k"
  obtain w where v: "path_verify env mp ?x (watch_IsValidRoot env) (gw g) = (Some True, w)"
    and g1: "g1 = g\<lparr>gw := w, mined := (mined g)(?x := Some (BlockHeight (objs env ! k)))\<rparr>"
    using assms(1) by (auto simp: prove_path_def Let_def split: prod.splits option.splits if_splits)
  have "proved env ?x (BlockHeight (objs env ! k))" using v assms(2) unfolding proved_def by blast
  then show ?thesis using g1 assms(3) by (simp add: mined_ok_def)
qed

lemma proveMined_ok:
  "proveMined env seen queue g = (None, g1) \<Longrightarrow> mined_ok env (mined g) \<Longrightarrow>
   mined_ok env (mined g1) \<and> tip g1 = tip g \<and> finality g1 = finality g \<and> skipScripts g1 = skipScripts g"
proof (induction env seen queue g arbitrary: g1 rule: proveMined.induct)
  case (1 env seen g)
  then show ?case by (simp add: proveMined.simps)
next
  case (2 env seen k queue g)
  show ?case
  proof (cases "MerklePath (objs env ! k)")
    case (Some mp)
    then obtain g2 where g2: "prove_path env k mp g = (None, g2)" "proveMined env seen queue g2 = (None, g1)"
      using 2(3) by (auto simp: proveMined.simps split: prod.splits option.splits)
    have pk: "mined_ok env (mined g2)" "tip g2 = tip g" "finality g2 = finality g" "skipScripts g2 = skipScripts g"
      using prove_path_ok [OF g2(1) Some 2(4)] by simp_all
    have "mined_ok env (mined g1) \<and> tip g1 = tip g2 \<and> finality g1 = finality g2 \<and> skipScripts g1 = skipScripts g2"
      by (rule 2(2) [OF Some _ _ g2(2) pk(1)]) (use g2(1) in simp_all)
    then show ?thesis using pk by simp
  next
    case None
    then obtain seen' queue' where q: "scan_sources env (Inputs (objs env ! k)) seen queue = Inr (seen', queue')"
      "proveMined env seen' queue' g = (None, g1)"
      using 2(3) by (auto simp: proveMined.simps split: sum.splits)
    show ?thesis using 2(1) [OF None q(1), of seen' queue'] q(2) 2(4) by auto
  qed
qed

text \<open>What is reached from a transaction through the sources of those not mined.\<close>

inductive reached :: "spv_env \<Rightarrow> (hash \<Rightarrow> u32 option) \<Rightarrow> nat \<Rightarrow> nat \<Rightarrow> bool" for env m root where
  reached_root: "reached env m root root"
| reached_src: "reached env m root k \<Longrightarrow> m (txid_of env k) = None \<Longrightarrow> j \<in> set (sources env k) \<Longrightarrow> reached env m root j"

definition accounted :: "spv_env \<Rightarrow> string \<Rightarrow> bool \<Rightarrow> (hash \<Rightarrow> u32 option) \<Rightarrow> nat \<Rightarrow> bool" where
  "accounted env fin skip m k \<longleftrightarrow> m (txid_of env k) \<noteq> None \<or> tx_valid env fin skip m k"

text \<open>The visited transactions are accounted for and their sources are visited or queued.\<close>

definition closed_under :: "spv_env \<Rightarrow> string \<Rightarrow> bool \<Rightarrow> (hash \<Rightarrow> u32 option) \<Rightarrow> nat set \<Rightarrow> nat set \<Rightarrow> bool" where
  "closed_under env fin skip m V Q \<longleftrightarrow>
     (\<forall>k \<in> V. accounted env fin skip m k \<and> (m (txid_of env k) = None \<longrightarrow> set (sources env k) \<subseteq> V \<union> Q))"

lemma closed_insert:
  assumes "closed_under env fin skip m V (insert k Q)" "accounted env fin skip m k"
    "m (txid_of env k) = None \<longrightarrow> set (sources env k) \<subseteq> insert k V \<union> Q'" "Q \<subseteq> Q'"
  shows "closed_under env fin skip m (insert k V) Q'"
  using assms unfolding closed_under_def by blast

lemma check_loop_ok:
  "check_loop env V Q g = (None, g1) \<Longrightarrow> tip_ok env g \<Longrightarrow> \<forall>q \<in> set Q. q < length (objs env) \<Longrightarrow>
   closed_under env (finality g) (skipScripts g) (mined g) (set V) (set Q) \<Longrightarrow>
   tip_ok env g1 \<and> mined g1 = mined g \<and> finality g1 = finality g \<and> skipScripts g1 = skipScripts g \<and>
   (\<exists>W. set V \<union> set Q \<subseteq> W \<and> closed_under env (finality g) (skipScripts g) (mined g) W {})"
proof (induction env V Q g arbitrary: g1 rule: check_loop.induct)
  case (1 env V g)
  then show ?case by (auto simp: check_loop.simps)
next
  case (2 env V k Q g)
  have k: "k < length (objs env)" using 2(6) by simp
  consider "k \<in> set V" | "k \<notin> set V" "mined g (txid_of env k) \<noteq> None" | "k \<notin> set V" "mined g (txid_of env k) = None" by blast
  then show ?case
  proof cases
    case 1
    then have r: "check_loop env V Q g = (None, g1)" using 2(4) by (simp add: check_loop.simps)
    have "closed_under env (finality g) (skipScripts g) (mined g) (set V) (set Q)"
      using 2(7) 1 by (auto simp: closed_under_def)
    then show ?thesis using 2(1) [OF _ r 2(5)] 1 2(6) by auto
  next
    case a: 2
    then have r: "check_loop env (k # V) Q g = (None, g1)" using 2(4) k by (simp add: check_loop.simps)
    have "closed_under env (finality g) (skipScripts g) (mined g) (insert k (set V)) (set Q)"
      by (rule closed_insert [of _ _ _ _ _ _ "set Q"]) (use 2(7) a(2) in \<open>auto simp: accounted_def\<close>)
    then show ?thesis using 2(2) [OF _ a(2) r 2(5)] a(1) k 2(6) by auto
  next
    case 3
    let ?Q = "Q @ filter (\<lambda>j. j \<notin> set (k # V)) (sources env k)"
    obtain g2 where c: "checkTx env k g = (None, g2)" and r: "check_loop env (k # V) ?Q g2 = (None, g1)"
      using 2(4) k 3 by (auto simp: check_loop.simps split: prod.splits option.splits)
    have g2: "tx_valid env (finality g) (skipScripts g) (mined g) k" "tip_ok env g2" "mined g2 = mined g"
        "finality g2 = finality g" "skipScripts g2 = skipScripts g"
      using checkTx_valid [OF c 2(5)] by simp_all
    have "closed_under env (finality g) (skipScripts g) (mined g) (insert k (set V)) (set ?Q)"
      by (rule closed_insert [of _ _ _ _ _ _ "set Q"]) (use 2(7) g2(1) in \<open>auto simp: accounted_def\<close>)
    then have cl: "closed_under env (finality g2) (skipScripts g2) (mined g2) (set (k # V)) (set ?Q)" using g2 by simp
    have rg: "\<forall>q \<in> set ?Q. q < length (objs env)" using 2(6) by (auto simp: sources_def)
    have "tip_ok env g1 \<and> mined g1 = mined g2 \<and> finality g1 = finality g2 \<and> skipScripts g1 = skipScripts g2 \<and>
        (\<exists>W. set (k # V) \<union> set ?Q \<subseteq> W \<and> closed_under env (finality g2) (skipScripts g2) (mined g2) W {})"
      by (rule 2(3) [OF _ _ _ _ r g2(2) rg cl]) (use c k 3 in simp_all)
    then show ?thesis using g2 by auto
  qed
qed

lemma reached_closed:
  "reached env m root k \<Longrightarrow> root \<in> W \<Longrightarrow> closed_under env fin skip m W {} \<Longrightarrow> k \<in> W"
  by (induction rule: reached.induct) (auto simp: closed_under_def)

lemma check_ok:
  assumes "check env k g = (None, g1)" "tip_ok env g" "mined_ok env (mined g)" "k < length (objs env)"
  shows "tip_ok env g1 \<and> mined_ok env (mined g1) \<and> finality g1 = finality g \<and> skipScripts g1 = skipScripts g \<and>
    (\<forall>j. reached env (mined g1) k j \<longrightarrow> accounted env (finality g) (skipScripts g) (mined g1) j)"
proof -
  obtain g2 where p: "proveMined env [k] [k] g = (None, g2)" and c: "check_loop env [] [k] g2 = (None, g1)"
    using assms(1) by (auto simp: check_def split: prod.splits option.splits)
  have g2: "mined_ok env (mined g2)" "tip_ok env g2" "finality g2 = finality g" "skipScripts g2 = skipScripts g"
    using proveMined_ok [OF p assms(3)] assms(2) by (simp_all add: tip_ok_def)
  have cl: "closed_under env (finality g2) (skipScripts g2) (mined g2) (set []) (set [k])" by (simp add: closed_under_def)
  have "\<forall>q \<in> set [k]. q < length (objs env)" using assms(4) by simp
  from check_loop_ok [OF c g2(2) this cl] obtain W where W: "tip_ok env g1" "mined g1 = mined g2" "finality g1 = finality g2"
    "skipScripts g1 = skipScripts g2" "k \<in> W" "closed_under env (finality g2) (skipScripts g2) (mined g2) W {}" by auto
  have "accounted env (finality g) (skipScripts g) (mined g1) j" if "reached env (mined g1) k j" for j
    using reached_closed [OF that [unfolded W(2)] W(5,6)] W(6) W(2) g2(3,4) unfolding closed_under_def by auto
  then show ?thesis using W g2 by simp
qed

section \<open>A passing verdict\<close>

definition sound_tip :: "spv_env \<Rightarrow> string \<Rightarrow> bool \<Rightarrow> nat \<Rightarrow> bool" where
  "sound_tip env fin skip k \<longleftrightarrow> (\<exists>m. mined_ok env m \<and> (\<forall>j. reached env m k j \<longrightarrow> accounted env fin skip m j))"

lemma verify_tips_ok:
  assumes "vResult (verify_tips env over b ids spent prev n g) = ResultOK" "tip_ok env g" "mined_ok env (mined g)"
    "\<forall>x k. find_linked b x = Some k \<longrightarrow> k < length (objs env)"
  shows "x \<in> set ids \<Longrightarrow> x \<notin> set spent \<Longrightarrow> find_linked b x = Some k \<Longrightarrow> sound_tip env (finality g) (skipScripts g) k"
  using assms
proof (induction ids arbitrary: prev g)
  case (Cons y ids)
  show ?case
  proof (cases "y \<in> set spent \<or> find_linked b y = None")
    case True
    then have "verify_tips env over b (y # ids) spent prev n g = verify_tips env over b ids spent prev n g" by auto
    then have "vResult (verify_tips env over b ids spent prev n g) = ResultOK" using Cons.prems(4) by simp
    then show ?thesis using Cons.IH [OF _ Cons.prems(2,3) _ Cons.prems(5-7)] Cons.prems(1-3) True by auto
  next
    case False
    then obtain l where l: "y \<notin> set spent" "find_linked b y = Some l" by auto
    obtain r g1 where c: "check env l g = (r, g1)" by (metis surj_pair)
    have r: "r = None" "vResult (verify_tips env over b ids spent y n g1) = ResultOK"
      using Cons.prems(4) l c by (auto simp: Let_def classify_def split: option.splits if_splits)
    have ok: "tip_ok env g1" "mined_ok env (mined g1)" "finality g1 = finality g" "skipScripts g1 = skipScripts g"
        "\<forall>j. reached env (mined g1) l j \<longrightarrow> accounted env (finality g) (skipScripts g) (mined g1) j"
      using check_ok [OF c [unfolded r(1)] Cons.prems(5,6)] Cons.prems(7) l(2) by simp_all
    show ?thesis
    proof (cases "x = y")
      case True
      then show ?thesis using ok l(2) Cons.prems(3) by (auto simp: sound_tip_def)
    next
      case False
      then show ?thesis using Cons.IH [OF _ Cons.prems(2,3) r(2) ok(1,2) Cons.prems(7)] Cons.prems(1) ok(3,4) by simp
    qed
  qed
qed simp

lemma new_graph_ok: "tip_ok env (new_graph v)" "mined_ok env (mined (new_graph v))"
  by (simp_all add: new_graph_def tip_ok_def mined_ok_def)

section \<open>A merkle refusal\<close>

lemma checkTx_no_merkle:
  assumes "checkTx env k g = (Some e, g1)"
  shows "e \<noteq> InvalidMerklePath"
proof -
  have ct: "fst (chainTip env g) \<noteq> Inl InvalidMerklePath" for g
    by (auto simp: chainTip_def split: option.splits prod.splits)
  have mt: "fst (mature env kd d x i g) \<noteq> Some InvalidMerklePath" if "x \<noteq> InvalidMerklePath" for kd d x i g
    using ct [of g] that by (auto simp: mature_def deepEnough_def split: option.splits prod.splits sum.splits if_splits)
  have sp: "fst (spend_inputs env is a g) \<noteq> Inl InvalidMerklePath" for "is" a g
  proof (induction "is" arbitrary: a g)
    case (Cons i "is")
    have "fst (mature env isCoinbase coinbaseMaturity PrematureCoinbase i g') \<noteq> Some InvalidMerklePath"
      "fst (mature env isConfiscationTx confiscationMaturity PrematureConfiscation i g') \<noteq> Some InvalidMerklePath" for g'
      by (rule mt, simp)+
    then show ?case using Cons by (auto split: option.splits prod.splits) (metis fst_conv)+
  qed simp
  have rs: "fst (run_scripts env k v is g) \<noteq> Some InvalidMerklePath" for v "is" g
    by (induction "is" arbitrary: v g) (auto simp: Let_def split: option.splits)
  have fi: "fst (final env t g) \<noteq> Some InvalidMerklePath" for t
    using ct [of g] by (auto simp: final_def split: prod.splits sum.splits)
  have op: "outpoints_ok S is \<noteq> Some InvalidMerklePath" for S "is"
    by (induction "is" arbitrary: S) (auto split: option.splits)
  show ?thesis
  proof
    assume e: "e = InvalidMerklePath"
    let ?t = "objs env ! k"
    define fin where "fin = (if finality g = FinalityRequire then final env ?t g else (None, g))"
    have f: "fst fin \<noteq> Some InvalidMerklePath" using fi by (simp add: fin_def)
    have "checkTx env k g = (Some InvalidMerklePath, g1)" using assms e by simp
    then show False
      unfolding checkTx_def Let_def fin_def [symmetric]
      using f op [of "{}" "Inputs ?t"] sp [of "Inputs ?t" 0] rs [of 0 "Inputs ?t"]
      by (auto split: if_splits option.splits prod.splits sum.splits) (metis fst_conv)+
  qed
qed

lemma check_loop_no_merkle: "check_loop env V Q g = (Some e, g1) \<Longrightarrow> e \<noteq> InvalidMerklePath"
proof (induction env V Q g arbitrary: g1 rule: check_loop.induct)
  case (2 env V k Q g)
  show ?case
  proof (cases "k \<in> set V \<or> \<not> k < length (objs env) \<or> mined g (txid_of env k) \<noteq> None")
    case True
    then show ?thesis using 2(1,2,4) by (auto simp: check_loop.simps split: if_splits)
  next
    case False
    obtain r g2 where c: "checkTx env k g = (r, g2)" by (metis surj_pair)
    show ?thesis
    proof (cases r)
      case None
      then show ?thesis using 2(3) [of None g2] 2(4) False c by (simp add: check_loop.simps)
    next
      case (Some x)
      then show ?thesis using 2(4) False c checkTx_no_merkle by (auto simp: check_loop.simps)
    qed
  qed
qed (simp add: check_loop.simps)

text \<open>
  What the SDK's path verification does with a tracker: it computes the path's root for the transaction, which may
  fail, and asks the tracker for that root at the path's height.
\<close>

definition path_law :: "spv_env \<Rightarrow> (nat \<Rightarrow> hash \<Rightarrow> hash option) \<Rightarrow> (nat \<Rightarrow> u32) \<Rightarrow> bool" where
  "path_law env root height \<longleftrightarrow> (\<forall>mp x q w. path_verify env mp x q w =
     (case root mp x of None \<Rightarrow> (None, w) | Some r \<Rightarrow> q r (height mp) w))"

definition denied :: "spv_env \<Rightarrow> bool" where
  "denied env \<longleftrightarrow> (\<exists>r h. valid_root env r h = Some False \<and> (\<forall>t. current_height env = Some t \<longrightarrow> h \<le> t))"

definition conflicting :: "spv_env \<Rightarrow> bool" where
  "conflicting env \<longleftrightarrow> (\<exists>x h h'. h \<noteq> h' \<and> proved env x h \<and> proved env x h')"

lemma prove_path_refusal:
  assumes "path_law env root height" "prove_path env k mp g = (Some e, g1)" "e = InvalidMerklePath" "\<not> notYet (gw g1)"
    "MerklePath (objs env ! k) = Some mp" "mined_ok env (mined g)"
  shows "denied env \<or> conflicting env"
proof -
  let ?x = "txid_of env k"
  obtain ok w where v: "path_verify env mp ?x (watch_IsValidRoot env) (gw g) = (Some ok, w)"
    using assms(2,3) by (auto simp: prove_path_def Let_def split: prod.splits option.splits)
  have w: "gw g1 = w" using assms(2) v by (auto simp: prove_path_def Let_def split: if_splits)
  show ?thesis
  proof (cases ok)
    case True
    then obtain h where h: "mined g ?x = Some h" "h \<noteq> BlockHeight (objs env ! k)"
      using assms(2) v by (auto simp: prove_path_def Let_def split: if_splits)
    have "path_verify env mp ?x (watch_IsValidRoot env) (gw g) = (Some True, w)" using v True by simp
    then have "proved env ?x (BlockHeight (objs env ! k))" using assms(5) unfolding proved_def by blast
    then show ?thesis using h assms(6) unfolding conflicting_def mined_ok_def by blast
  next
    case False
    obtain r where q: "watch_IsValidRoot env r (height mp) (gw g) = (Some False, w)"
      using v False assms(1) unfolding path_law_def by (auto split: option.splits)
    then have vr: "valid_root env r (height mp) = Some False" by (auto simp: watch_IsValidRoot_def split: option.splits)
    have "height mp \<le> t" if t: "current_height env = Some t" for t
    proof (rule ccontr)
      assume "\<not> height mp \<le> t"
      then have "w = (gw g)\<lparr>notYet := True\<rparr>" using q vr t by (simp add: watch_IsValidRoot_def not_le)
      then show False using assms(4) w by simp
    qed
    then show ?thesis using vr unfolding denied_def by blast
  qed
qed

lemma proveMined_refusal:
  "proveMined env seen queue g = (Some InvalidMerklePath, g1) \<Longrightarrow> path_law env root height \<Longrightarrow> \<not> notYet (gw g1) \<Longrightarrow>
   mined_ok env (mined g) \<Longrightarrow> denied env \<or> conflicting env"
proof (induction env seen queue g arbitrary: g1 rule: proveMined.induct)
  case (1 env seen g)
  then show ?case by (simp add: proveMined.simps)
next
  case (2 env seen k queue g)
  have sc: "scan_sources env is s q \<noteq> Inl InvalidMerklePath" for "is" s q
    by (induction "is" arbitrary: s q) (auto split: option.splits)
  show ?case
  proof (cases "MerklePath (objs env ! k)")
    case (Some mp)
    obtain r g2 where p: "prove_path env k mp g = (r, g2)" by (metis surj_pair)
    show ?thesis
    proof (cases r)
      case None
      have "proveMined env seen queue g2 = (Some InvalidMerklePath, g1)"
        using 2(3) Some p None by (simp add: proveMined.simps)
      moreover have "mined_ok env (mined g2)" using prove_path_ok [OF p [unfolded None] Some 2(6)] by simp
      ultimately show ?thesis using 2(2) [OF Some _ _ _ 2(4,5)] p None by simp
    next
      case (Some e)
      then have "e = InvalidMerklePath" "g2 = g1" using 2(3) \<open>MerklePath (objs env ! k) = Some mp\<close> p by (simp_all add: proveMined.simps)
      then show ?thesis using prove_path_refusal [OF 2(4) p [unfolded Some] _ _ \<open>MerklePath (objs env ! k) = Some mp\<close> 2(6)] 2(5) by simp
    qed
  next
    case None
    then obtain seen' queue' where q: "scan_sources env (Inputs (objs env ! k)) seen queue = Inr (seen', queue')"
      "proveMined env seen' queue' g = (Some InvalidMerklePath, g1)"
      using 2(3) sc by (auto simp: proveMined.simps split: sum.splits)
    show ?thesis using 2(1) [OF None q(1) _ q(2) 2(4-6)] by simp
  qed
qed

lemma check_refusal:
  assumes "check env k g = (Some InvalidMerklePath, g1)" "path_law env root height" "\<not> notYet (gw g1)" "mined_ok env (mined g)"
  shows "denied env \<or> conflicting env"
proof -
  obtain r g2 where p: "proveMined env [k] [k] g = (r, g2)" by (metis surj_pair)
  show ?thesis
  proof (cases r)
    case None
    then have "check_loop env [] [k] g2 = (Some InvalidMerklePath, g1)" using assms(1) p by (simp add: check_def)
    from check_loop_no_merkle [OF this] show ?thesis by simp
  next
    case (Some e)
    then show ?thesis using assms p proveMined_refusal [of env "[k]" "[k]" g g2 root height] by (simp add: check_def)
  qed
qed

lemma verify_tips_refusal:
  assumes "vResult (verify_tips env over b ids spent prev n g) = ResultRefused"
    "vReason (verify_tips env over b ids spent prev n g) = ReasonMerkle" "path_law env root height"
    "tip_ok env g" "mined_ok env (mined g)" "\<forall>x k. find_linked b x = Some k \<longrightarrow> k < length (objs env)"
  shows "denied env \<or> conflicting env"
  using assms
proof (induction ids arbitrary: prev g)
  case (Cons y ids)
  show ?case
  proof (cases "y \<in> set spent \<or> find_linked b y = None")
    case True
    then have e: "verify_tips env over b (y # ids) spent prev n g = verify_tips env over b ids spent prev n g" by auto
    show ?thesis using Cons.IH [OF Cons.prems(1,2) [unfolded e] Cons.prems(3-6)] .
  next
    case False
    then obtain l where l: "y \<notin> set spent" "find_linked b y = Some l" by auto
    obtain r g1 where c: "check env l g = (r, g1)" by (metis surj_pair)
    show ?thesis
    proof (cases r)
      case None
      then have e: "verify_tips env over b (y # ids) spent prev n g = verify_tips env over b ids spent y n g1" using l c by simp
      have "tip_ok env g1" "mined_ok env (mined g1)"
        using check_ok [OF c [unfolded None] Cons.prems(4,5)] Cons.prems(6) l(2) by simp_all
      then show ?thesis using Cons.IH [OF Cons.prems(1,2) [unfolded e] Cons.prems(3) _ _ Cons.prems(6)] by simp
    next
      case (Some x)
      then have "x = InvalidMerklePath" "\<not> notYet (gw g1)"
        using Cons.prems(1,2) l c by (auto simp: Let_def classify_def split: if_splits)
      then show ?thesis using check_refusal c Some Cons.prems(3,5) by simp
    qed
  qed
qed simp

section \<open>A concrete object\<close>

text \<open>A transaction of 90 spending the one output, of 100, of a transaction mined at height 5.\<close>

definition sample_txid :: "nat \<Rightarrow> hash" where
  "sample_txid k = (if k = 0 then [1] else [2])"

definition sample_objs :: "tx list" where
  "sample_objs =
    [\<lparr>Inputs = [], Outputs = [\<lparr>Satoshis = 100, LockingScript = Some [81]\<rparr>], LockTime = 0, MerklePath = Some 0, BlockHeight = 5\<rparr>,
     \<lparr>Inputs = [\<lparr>SourceTXID = Some (sample_txid 0), SourceTxOutIndex = 0, SequenceNumber = 0xffffffff,
        SourceTransaction = Some 0, SourceTxOutput = None\<rparr>],
      Outputs = [\<lparr>Satoshis = 90, LockingScript = Some [81]\<rparr>], LockTime = 0, MerklePath = None, BlockHeight = 0\<rparr>]"

definition sample_spv :: "bool \<Rightarrow> spv_env" where
  "sample_spv good = \<lparr>objs = sample_objs, txid_of = sample_txid, valid_root = (\<lambda>r h. Some good), current_height = Some 200,
     path_verify = (\<lambda>mp x q w. q x 5 w), run_script = (\<lambda>k i p h. True), is_p2sh = (\<lambda>_. False), genesis = 0\<rparr>"

definition sample_beef :: "bytes \<Rightarrow> beef option" where
  "sample_beef raw = Some \<lparr>entries = [(sample_txid 0, Some 0), (sample_txid 1, Some 1)],
     find_linked = (\<lambda>x. if x = sample_txid 0 then Some 0 else if x = sample_txid 1 then Some 1 else None)\<rparr>"

definition sample_verifier :: verifier where
  "sample_verifier = \<lparr>vTracker = True, vFinality = [], vSkipScripts = False\<rparr>"

lemmas sample_simps = sample_spv_def sample_beef_def sample_objs_def sample_txid_def sample_verifier_def

lemmas spv_unfolds = Verify_def present_ids_def spent_ids_def new_graph_def check_def proveMined.simps prove_path_def
  check_loop.simps checkTx_def isCoinbase_def isConfiscationTx_def isNullOutpoint_def mature_def src_tx_def
  spentOutput_def addSats_def maxSatoshis_def sources_def FinalityIgnore_def FinalityRequire_def map_filter_simps
  watch_IsValidRoot_def classify_def confiscationMarker_def

lemma sample_verdict_ok:
  "vResult (Verify (sample_spv True) sample_beef False sample_verifier [1, 0, 190, 239]) = ResultOK"
  by (simp add: sample_simps spv_unfolds)

lemma sample_verdict_refused:
  "vResult (Verify (sample_spv False) sample_beef False sample_verifier [1, 0, 190, 239]) = ResultRefused"
  "vReason (Verify (sample_spv False) sample_beef False sample_verifier [1, 0, 190, 239]) = ReasonMerkle"
  by (simp_all add: sample_simps spv_unfolds)

section \<open>Properties\<close>


lemma sample_tip:
  "sample_txid 1 \<in> set (present_ids (the (sample_beef [1, 0, 190, 239])))"
  "sample_txid 1 \<notin> set (spent_ids (sample_spv good) (the (sample_beef [1, 0, 190, 239])))"
  by code_simp (cases good; code_simp)

lemma sample_linked: "sample_beef raw = Some b \<Longrightarrow> find_linked b x = Some k \<Longrightarrow> k < length (objs (sample_spv good))"
  by (auto simp: sample_beef_def sample_spv_def sample_objs_def split: if_splits)




end
