(* ===== verification/Spv_Work.thy ===== *)
theory Spv_Work
  imports Spv_Props
begin

text \<open>
  The work counters of a verdict (\<^verbatim>\<open>work\<close> of \<^verbatim>\<open>src/pkg/spv/spv.go\<close>): the inputs and proofs of an object, and its
  ancestry depth by a memoised walk over the in-object parent links. The walk is the nested recursion of the source,
  with the memo passed along; that it ends, on any links, is the \<open>termination\<close> proof. On links without a cycle the
  memo is consistent with the length of the longest chain of parents, which gives the depth its meaning.
\<close>

section \<open>Links\<close>

definition in_object :: "beef \<Rightarrow> hash \<Rightarrow> bool" where
  "in_object b y = (case map_of (entries b) y of Some (Some _) \<Rightarrow> True | _ \<Rightarrow> False)"

definition tx_parents :: "spv_env \<Rightarrow> beef \<Rightarrow> nat \<Rightarrow> hash list" where
  "tx_parents env b k = filter (in_object b) (List.map_filter SourceTXID (Inputs (objs env ! k)))"

type_synonym links = "(hash \<times> hash list) list"

text \<open>An identifier has an entry once a parent has been appended to it.\<close>

fun links_of :: "spv_env \<Rightarrow> beef \<Rightarrow> (hash \<times> nat option) list \<Rightarrow> links" where
  "links_of env b [] = []"
| "links_of env b ((x, None) # es) = links_of env b es"
| "links_of env b ((x, Some k) # es) =
     (if tx_parents env b k = [] then links_of env b es else (x, tx_parents env b k) # links_of env b es)"

definition parents_of :: "links \<Rightarrow> hash \<Rightarrow> hash list" where
  "parents_of par x = (case map_of par x of None \<Rightarrow> [] | Some ps \<Rightarrow> ps)"

section \<open>The walk\<close>

type_synonym depth_memo = "hash \<Rightarrow> int option"

definition visiting :: int where
  "visiting = -1"

function walk :: "links \<Rightarrow> hash \<Rightarrow> depth_memo \<Rightarrow> int \<times> depth_memo"
  and walk_parents :: "links \<Rightarrow> hash list \<Rightarrow> int \<Rightarrow> depth_memo \<Rightarrow> int \<times> depth_memo" where
  "walk par x memo = (case memo x of
      Some d \<Rightarrow> (if d = visiting then 0 else d, memo)
    | None \<Rightarrow> (case walk_parents par (parents_of par x) 0 (memo(x \<mapsto> visiting)) of
        (best, memo') \<Rightarrow> (best, memo'(x \<mapsto> best))))"
| "walk_parents par [] best memo = (best, memo)"
| "walk_parents par (p # ps) best memo = (case walk par p memo of
      (d, memo') \<Rightarrow> walk_parents par ps (if d + 1 > best then d + 1 else best) memo')"
  by pat_completeness auto

definition unwalked :: "links \<Rightarrow> depth_memo \<Rightarrow> nat" where
  "unwalked par memo = card (set (map fst par) - dom memo)"

lemma unwalked_mono: "dom memo \<subseteq> dom memo' \<Longrightarrow> unwalked par memo' \<le> unwalked par memo"
  unfolding unwalked_def by (rule card_mono) auto

lemma unwalked_mark:
  assumes "memo x = None" and "parents_of par x \<noteq> []"
  shows "unwalked par (memo(x \<mapsto> v)) < unwalked par memo"
proof -
  have "x \<in> set (map fst par)" using assms(2) by (force simp: parents_of_def split: option.splits dest: map_of_SomeD)
  then have "set (map fst par) - dom (memo(x \<mapsto> v)) \<subset> set (map fst par) - dom memo" using assms(1) by auto
  then show ?thesis unfolding unwalked_def by (intro psubset_card_mono) auto
qed

lemma walk_grows:
  "walk_walk_parents_dom (Inl (par, x, memo)) \<Longrightarrow> dom memo \<subseteq> dom (snd (walk par x memo))"
  "walk_walk_parents_dom (Inr (par, ps, best, memo)) \<Longrightarrow> dom memo \<subseteq> dom (snd (walk_parents par ps best memo))"
proof (induction rule: walk_walk_parents.pinduct)
  case (1 par x memo)
  show ?case
  proof (cases "memo x")
    case None
    obtain best memo' where w: "walk_parents par (parents_of par x) 0 (memo(x \<mapsto> visiting)) = (best, memo')" by force
    then have "dom (memo(x \<mapsto> visiting)) \<subseteq> dom memo'" using 1(2) [OF None] by (simp add: fun_upd_def)
    then show ?thesis using None w by (auto simp: walk.psimps [OF 1(1)])
  qed (simp add: walk.psimps [OF 1(1)])
next
  case (3 par p ps best memo)
  obtain d memo' where w: "walk par p memo = (d, memo')" by force
  then have "dom memo \<subseteq> dom memo'" using 3(2) by simp
  also have "\<dots> \<subseteq> dom (snd (walk_parents par ps (if d + 1 > best then d + 1 else best) memo'))"
    using 3(3) w by (metis (mono_tags))
  finally show ?case using w using 3(1) by (simp add: walk_parents.psimps)
qed (simp add: walk_parents.psimps)

termination walk
proof (relation "inv_image (less_than <*lex*> less_than)
    (case_sum (\<lambda>(par, x, memo). (unwalked par memo, 1)) (\<lambda>(par, ps, best, memo). (unwalked par memo, 2 * length ps)))", goal_cases)
  case (2 par x memo)
  then show ?case using unwalked_mark [of memo x par visiting]
    by (cases "parents_of par x = []") (auto simp: unwalked_def intro!: card_mono le_neq_implies_less)
next
  case (4 par p ps best memo d memo')
  then have "dom memo \<subseteq> dom memo'" using walk_grows(1) [OF 4(2)] by (metis snd_conv)
  then show ?case using unwalked_mono [of memo memo' par] by (auto simp: le_less)
qed auto

declare walk.simps [simp del] walk_parents.simps [simp del]

fun walk_keys :: "links \<Rightarrow> hash list \<Rightarrow> int \<Rightarrow> depth_memo \<Rightarrow> int \<times> depth_memo" where
  "walk_keys par [] depth memo = (depth, memo)"
| "walk_keys par (x # xs) depth memo = (case walk par x memo of
      (d, memo') \<Rightarrow> walk_keys par xs (if d > depth then d else depth) memo')"

definition work :: "spv_env \<Rightarrow> beef \<Rightarrow> nat \<times> nat \<times> int" where
  "work env b =
    (let ks = List.map_filter snd (entries b); par = links_of env b (entries b) in
     (sum_list (map (\<lambda>k. length (Inputs (objs env ! k))) ks),
      length (filter (\<lambda>k. MerklePath (objs env ! k) \<noteq> None) ks),
      fst (walk_keys par (map fst par) 0 Map.empty)))"

text \<open>The counters of a verdict are set whenever the object parsed.\<close>

definition verdict_work :: "spv_env \<Rightarrow> (bytes \<Rightarrow> beef option) \<Rightarrow> verifier \<Rightarrow> bytes \<Rightarrow> nat \<times> nat \<times> int" where
  "verdict_work env parse v raw =
    (if \<not> vTracker v then (0, 0, 0)
     else (case (if length raw < 4 then None else parse raw) of None \<Rightarrow> (0, 0, 0) | Some b \<Rightarrow> work env b))"

section \<open>What the depth means\<close>

text \<open>A chain of parents below an identifier, and the length of the longest one.\<close>

fun chain :: "links \<Rightarrow> hash \<Rightarrow> hash list \<Rightarrow> bool" where
  "chain par x [] = True"
| "chain par x (p # ps) = (p \<in> set (parents_of par x) \<and> chain par p ps)"

definition longest :: "links \<Rightarrow> hash \<Rightarrow> int \<Rightarrow> bool" where
  "longest par x d \<longleftrightarrow> (\<exists>ps. chain par x ps \<and> int (length ps) = d) \<and> (\<forall>ps. chain par x ps \<longrightarrow> int (length ps) \<le> d)"

definition below :: "links \<Rightarrow> (hash \<times> hash) set" where
  "below par = {(p, x). p \<in> set (parents_of par x)}"

text \<open>The memo is consistent: an entry is the mark of an identifier being walked or its longest chain.\<close>

definition memo_ok :: "links \<Rightarrow> depth_memo \<Rightarrow> bool" where
  "memo_ok par memo \<longleftrightarrow> (\<forall>x d. memo x = Some d \<longrightarrow> d = visiting \<or> longest par x d)"

definition marked :: "depth_memo \<Rightarrow> hash set" where
  "marked memo = {x. memo x = Some visiting}"

lemma longest_nonneg: "longest par x d \<Longrightarrow> 0 \<le> d"
  by (auto simp: longest_def)

lemma longest_step:
  assumes all: "\<forall>p \<in> set (parents_of par x). \<exists>d. longest par p d \<and> d + 1 \<le> best"
    and one: "best = 0 \<or> (\<exists>p \<in> set (parents_of par x). longest par p (best - 1))"
    and pos: "0 \<le> best"
  shows "longest par x best"
proof -
  have "int (length ps) \<le> best" if "chain par x ps" for ps
    using that all pos by (cases ps) (fastforce simp: longest_def)+
  moreover have "\<exists>ps. chain par x ps \<and> int (length ps) = best"
  proof (cases "best = 0")
    case True
    then show ?thesis by (intro exI [of _ "[]"]) simp
  next
    case False
    with one obtain p ps where "p \<in> set (parents_of par x)" "chain par p ps" "int (length ps) = best - 1"
      by (auto simp: longest_def)
    then show ?thesis by (intro exI [of _ "p # ps"]) simp
  qed
  ultimately show ?thesis by (simp add: longest_def)
qed

text \<open>What a walk over a list of parents returns, given what each parent's longest chain is.\<close>

definition best_of :: "links \<Rightarrow> hash list \<Rightarrow> int \<Rightarrow> int \<Rightarrow> bool" where
  "best_of par ps best r \<longleftrightarrow> best \<le> r \<and> (r = best \<or> (\<exists>p \<in> set ps. longest par p (r - 1))) \<and>
     (\<forall>p \<in> set ps. \<exists>d. longest par p d \<and> d + 1 \<le> r)"

lemma best_of_Cons:
  "longest par p d \<Longrightarrow> best_of par ps (if d + 1 > best then d + 1 else best) r \<Longrightarrow> best_of par (p # ps) best r"
  by (auto simp: best_of_def split: if_splits intro!: exI [of _ d])

lemma walk_longest:
  "acyclic (below par) \<Longrightarrow> memo_ok par memo \<Longrightarrow> \<forall>y \<in> marked memo. (x, y) \<in> (below par)\<^sup>+ \<Longrightarrow>
    walk par x memo = (d, memo') \<Longrightarrow> longest par x d \<and> memo_ok par memo' \<and> marked memo' = marked memo"
  "acyclic (below par) \<Longrightarrow> memo_ok par memo \<Longrightarrow> \<forall>p \<in> set ps. \<forall>y \<in> marked memo. (p, y) \<in> (below par)\<^sup>+ \<Longrightarrow>
    walk_parents par ps best memo = (d, memo') \<Longrightarrow>
    best_of par ps best d \<and> memo_ok par memo' \<and> marked memo' = marked memo"
proof (induction par x memo and par ps best memo arbitrary: d memo' and d memo' rule: walk_walk_parents.induct)
  case (1 par x memo)
  note ac = 1(2) and ok = 1(3) and up = 1(4)
  show ?case
  proof (cases "memo x")
    case (Some v)
    have "v \<noteq> visiting" using Some up ac by (auto simp: marked_def acyclic_def)
    then show ?thesis using Some ok 1(5) by (auto simp: walk.simps memo_ok_def)
  next
    case None
    let ?m = "memo(x \<mapsto> visiting)"
    obtain memo1 where w: "walk_parents par (parents_of par x) 0 ?m = (d, memo1)" and m': "memo' = memo1(x \<mapsto> d)"
      using 1(5) None by (auto simp: walk.simps split: prod.splits)
    have mk: "marked ?m = insert x (marked memo)" and mx: "x \<notin> marked memo" using None by (auto simp: marked_def)
    have "\<forall>p \<in> set (parents_of par x). \<forall>y \<in> marked ?m. (p, y) \<in> (below par)\<^sup>+"
      using up unfolding mk by (auto simp: below_def intro: trancl_into_trancl2)
    moreover have "memo_ok par ?m" using ok by (simp add: memo_ok_def)
    ultimately have b: "best_of par (parents_of par x) 0 d" "memo_ok par memo1" "marked memo1 = insert x (marked memo)"
      using 1(1) [OF None ac _ _ w] mk by (simp_all add: fun_upd_def)
    have l: "longest par x d" using b(1) by (intro longest_step) (auto simp: best_of_def)
    then have "d \<noteq> visiting" using longest_nonneg by (fastforce simp: visiting_def)
    then show ?thesis using l b(2,3) mx m' by (auto simp: memo_ok_def marked_def)
  qed
next
  case (2 par best memo)
  then show ?case by (simp add: best_of_def walk_parents.simps)
next
  case (3 par p ps best memo)
  obtain d1 memo1 where w: "walk par p memo = (d1, memo1)" by force
  then have r: "walk_parents par ps (if d1 + 1 > best then d1 + 1 else best) memo1 = (d, memo')"
    using 3(6) by (simp add: walk_parents.simps)
  have l: "longest par p d1" "memo_ok par memo1" "marked memo1 = marked memo"
    using 3(1) [OF 3(3,4) _ w] 3(5) by auto
  have "best_of par ps (if d1 + 1 > best then d1 + 1 else best) d \<and> memo_ok par memo' \<and> marked memo' = marked memo1"
    by (rule 3(2) [OF w [symmetric] 3(3) l(2) _ r]) (use 3(5) l(3) in auto)
  then show ?case using l best_of_Cons by simp
qed

lemma walk_keys_longest:
  "acyclic (below par) \<Longrightarrow> memo_ok par memo \<Longrightarrow> marked memo = {} \<Longrightarrow> walk_keys par xs depth memo = (r, memo') \<Longrightarrow>
   depth \<le> r \<and> (r = depth \<or> (\<exists>x \<in> set xs. longest par x r)) \<and> (\<forall>x \<in> set xs. \<exists>d. longest par x d \<and> d \<le> r)"
proof (induction xs arbitrary: depth memo)
  case (Cons x xs)
  obtain d memo1 where w: "walk par x memo = (d, memo1)" by force
  have l: "longest par x d" "memo_ok par memo1" "marked memo1 = {}"
    using walk_longest(1) [OF Cons.prems(1,2) _ w] Cons.prems(3) by auto
  have "walk_keys par xs (if d > depth then d else depth) memo1 = (r, memo')" using Cons.prems(4) w by simp
  from Cons.IH [OF Cons.prems(1) l(2,3) this] l(1) show ?case by (auto split: if_splits intro: exI [of _ d])
qed simp

lemma chain_stays:
  assumes "chain par x ps" and "x \<notin> set (map fst par)"
  shows "ps = []"
proof -
  have "parents_of par x = []" using assms(2) by (force simp: parents_of_def split: option.splits dest: map_of_SomeD)
  with assms(1) show ?thesis by (cases ps) auto
qed

text \<open>The parent links of an object, as its inputs have them.\<close>

definition object_parent :: "spv_env \<Rightarrow> beef \<Rightarrow> hash \<Rightarrow> hash \<Rightarrow> bool" where
  "object_parent env b x p \<longleftrightarrow> in_object b p \<and>
     (\<exists>k. (x, Some k) \<in> set (entries b) \<and> (\<exists>i \<in> set (Inputs (objs env ! k)). SourceTXID i = Some p))"

lemma links_keys: "set (map fst (links_of env b es)) \<subseteq> set (map fst es)"
  by (induction env b es rule: links_of.induct) auto

lemma links_of_parent:
  "distinct (map fst es) \<Longrightarrow> p \<in> set (parents_of (links_of env b es) x) \<longleftrightarrow>
     (\<exists>k. (x, Some k) \<in> set es \<and> p \<in> set (tx_parents env b k))"
proof (induction es)
  case (Cons e es)
  then have IH: "p \<in> set (parents_of (links_of env b es) x) \<longleftrightarrow>
      (\<exists>k. (x, Some k) \<in> set es \<and> p \<in> set (tx_parents env b k))" by simp
  obtain x' t where e: "e = (x', t)" by force
  have fresh: "map_of (links_of env b es) x' = None"
    using Cons.prems links_keys [of env b es] e by (force simp: map_of_eq_None_iff)
  have new: "(x', Some j) \<notin> set es" for j using Cons.prems e by force
  show ?case
  proof (cases t)
    case None
    then show ?thesis using IH e by simp
  next
    case (Some k)
    show ?thesis
    proof (cases "x = x'")
      case True
      then show ?thesis using new fresh e Some by (simp add: parents_of_def)
    next
      case False
      then have "parents_of (links_of env b (e # es)) x = parents_of (links_of env b es) x"
        using e Some by (simp add: parents_of_def)
      then show ?thesis using IH e False by auto
    qed
  qed
qed (simp add: parents_of_def)

lemma links_are_object_parents:
  assumes "distinct (map fst (entries b))"
  shows "p \<in> set (parents_of (links_of env b (entries b)) x) \<longleftrightarrow> object_parent env b x p"
  unfolding links_of_parent [OF assms] object_parent_def tx_parents_def
  by (force simp: List.map_filter_def)

fun ancestry :: "spv_env \<Rightarrow> beef \<Rightarrow> hash \<Rightarrow> hash list \<Rightarrow> bool" where
  "ancestry env b x [] = True"
| "ancestry env b x (p # ps) = (object_parent env b x p \<and> ancestry env b p ps)"

lemma ancestry_is_chain:
  "distinct (map fst (entries b)) \<Longrightarrow> ancestry env b x ps = chain (links_of env b (entries b)) x ps"
  by (induction ps arbitrary: x) (simp_all add: links_are_object_parents)

lemma walk_keys_all:
  assumes "acyclic (below par)" and "walk_keys par (map fst par) 0 Map.empty = (r, memo)"
  shows "(\<exists>x ps. chain par x ps \<and> int (length ps) = r) \<and> (\<forall>x ps. chain par x ps \<longrightarrow> int (length ps) \<le> r)"
proof -
  have r: "0 \<le> r" "r = 0 \<or> (\<exists>x \<in> set (map fst par). longest par x r)"
    "\<forall>x \<in> set (map fst par). \<exists>d. longest par x d \<and> d \<le> r"
    using walk_keys_longest [OF assms(1) _ _ assms(2)] by (simp_all add: memo_ok_def marked_def)
  have "int (length ps) \<le> r" if "chain par x ps" for x ps
    using that r(1,3) chain_stays [OF that]
    by (cases "x \<in> set (map fst par)") (fastforce simp: longest_def)+
  moreover have "\<exists>x ps. chain par x ps \<and> int (length ps) = r"
    using r(2) by (auto simp: longest_def intro: exI [of _ "[]"])
  ultimately show ?thesis by blast
qed

section \<open>Property\<close>

text \<open>
  C35. The depth of an object is its longest ancestry. On an object whose identifiers are distinct and whose in-object
  parent links form no cycle (the identifiers are hashes of transactions that name their parents), the memoised walk
  returns the length of a chain of in-object parents that exists, and no chain is longer, whatever the order in
  which the object's transactions are walked.
\<close>

theorem object_depth_is_longest_ancestry:
  assumes "distinct (map fst (entries b))" and "acyclic {(p, x). object_parent env b x p}"
  shows "(\<exists>x ps. ancestry env b x ps \<and> int (length ps) = snd (snd (work env b))) \<and>
    (\<forall>x ps. ancestry env b x ps \<longrightarrow> int (length ps) \<le> snd (snd (work env b)))"
proof -
  let ?par = "links_of env b (entries b)"
  have "acyclic (below ?par)" using assms(2) by (simp add: below_def links_are_object_parents [OF assms(1)])
  then show ?thesis
    using walk_keys_all [of ?par "fst (walk_keys ?par (map fst ?par) 0 Map.empty)" "snd (walk_keys ?par (map fst ?par) 0 Map.empty)"]
    by (simp add: work_def Let_def ancestry_is_chain [OF assms(1)])
qed

lemma sample_acyclic:
  "acyclic {(p, x). object_parent (sample_spv True) (the (sample_beef [])) x p}"
proof (rule acyclicI_order)
  show "length (filter (\<lambda>c. c = 1) x) < length (filter (\<lambda>c. c = 1) p)"
    if "(p, x) \<in> {(p, x). object_parent (sample_spv True) (the (sample_beef [])) x p}" for p x
    using that by (auto simp: object_parent_def in_object_def sample_simps split: if_splits)
qed

theorem object_depth_is_longest_ancestry_witness:
  "snd (snd (work (sample_spv True) (the (sample_beef [])))) = 1 \<and>
   \<not> ancestry (sample_spv True) (the (sample_beef [])) [2] [[1], [2]]"
proof -
  have w: "work (sample_spv True) (the (sample_beef [])) = (1, 1, 1)"
    by (simp add: work_def sample_simps map_filter_simps Let_def tx_parents_def in_object_def walk.simps walk_parents.simps
        parents_of_def visiting_def)
  have d: "distinct (map fst (entries (the (sample_beef []))))" by (simp add: sample_simps)
  show ?thesis using object_depth_is_longest_ancestry [OF d sample_acyclic] w by fastforce
qed

end
