(* ===== verification/Bridge_Timings.thy ===== *)
theory Bridge_Timings
  imports Spv_Work Feed_Load
begin

text \<open>
  The histograms of \<^verbatim>\<open>src/cmd/overlay-bridge/verifymetrics.go\<close> and the hooks of the feed that fill them. A histogram is
  the list of what it observed (its buckets are the metrics library's); a vector is a map from label values to
  histograms, and asking for a label makes its series.
\<close>

section \<open>Histograms\<close>

definition result_name :: "spv_result \<Rightarrow> string" where
  "result_name r = (case r of ResultOK \<Rightarrow> ''ok'' | ResultRefused \<Rightarrow> ''refused'' | ResultError \<Rightarrow> ''error'')"

definition with_label :: "'l \<Rightarrow> ('l \<Rightarrow> int list option) \<Rightarrow> ('l \<Rightarrow> int list option)" where
  "with_label l v = (case v l of None \<Rightarrow> v(l := Some []) | Some _ \<Rightarrow> v)"

definition observe_label :: "'l \<Rightarrow> int \<Rightarrow> ('l \<Rightarrow> int list option) \<Rightarrow> ('l \<Rightarrow> int list option)" where
  "observe_label l x v = v(l := Some ((case v l of None \<Rightarrow> [] | Some xs \<Rightarrow> xs) @ [x]))"

record timings =
  t_verify :: "string \<Rightarrow> int list option"
  t_submit :: "string \<Rightarrow> int list option"
  t_shadow :: "string \<times> string \<Rightarrow> int list option"
  t_wait :: "int list"
  t_work :: "string \<Rightarrow> int list option"

definition workCounters :: "string list" where
  "workCounters = [''txs'', ''inputs'', ''scripts'', ''proofs'', ''ancestor_depth'']"

definition newTimings :: timings where
  "newTimings = \<lparr>t_verify = fold with_label (map result_name [ResultOK, ResultRefused, ResultError]) (\<lambda>_. None),
     t_submit = fold with_label [OutcomeAdmitted, OutcomeEmpty, OutcomeError, OutcomeRefused, OutcomeEngineError] (\<lambda>_. None),
     t_shadow = (\<lambda>_. None), t_wait = [], t_work = fold with_label workCounters (\<lambda>_. None)\<rparr>"

definition preset_shadow :: "string \<Rightarrow> timings \<Rightarrow> timings" where
  "preset_shadow route t = t\<lparr>t_shadow := fold with_label [(route, ''ok''), (route, ''error'')] (t_shadow t)\<rparr>"

definition onShadow :: "string \<Rightarrow> string \<Rightarrow> int \<Rightarrow> timings \<Rightarrow> timings" where
  "onShadow route result d t = t\<lparr>t_shadow := observe_label (route, result) d (t_shadow t)\<rparr>"

text \<open>What a verdict says of its object: transactions, inputs, scripts run, proofs and ancestry depth.\<close>

definition work_values :: "verdict \<Rightarrow> nat \<times> nat \<times> int \<Rightarrow> (string \<times> int) list" where
  "work_values vd w = (case w of (inputs, proofs, depth) \<Rightarrow>
     [(''txs'', int (vTransactions vd)), (''inputs'', int inputs), (''scripts'', int (vScripts vd)),
      (''proofs'', int proofs), (''ancestor_depth'', depth)])"

definition onVerified :: "verdict \<Rightarrow> nat \<times> nat \<times> int \<Rightarrow> int \<Rightarrow> timings \<Rightarrow> timings" where
  "onVerified vd w d t = t\<lparr>t_verify := observe_label (result_name (vResult vd)) d (t_verify t),
     t_work := fold (\<lambda>(n, x). observe_label n x) (work_values vd w) (t_work t)\<rparr>"

definition onSubmitted :: "string \<Rightarrow> int \<Rightarrow> timings \<Rightarrow> timings" where
  "onSubmitted oc d t = t\<lparr>t_submit := observe_label oc d (t_submit t)\<rparr>"

definition onDequeued :: "int \<Rightarrow> timings \<Rightarrow> timings" where
  "onDequeued d t = t\<lparr>t_wait := t_wait t @ [d]\<rparr>"

section \<open>The hooks of a job\<close>

text \<open>
  A worker takes a job, waits for it are observed, then the verification when there is one, then each submit's outcome
  as it is booked. \<open>dur\<close> gives the durations, \<open>wk\<close> the work counters of an object.
\<close>

definition hooked_take ::
    "'g feed_env \<Rightarrow> (bytes \<Rightarrow> nat \<times> nat \<times> int) \<Rightarrow> (nat \<Rightarrow> int) \<Rightarrow> job \<Rightarrow> feed \<times> 'g site \<times> timings \<Rightarrow> feed \<times> 'g site \<times> timings" where
  "hooked_take env wk dur j st = (case st of (f, s, t) \<Rightarrow>
     let t1 = onDequeued (dur 0) t;
         t2 = (if feed_verifies f then onVerified (run_verify env (object j)) (wk (object j)) (dur 1) t1 else t1);
         (f', s') = take_job env j f s;
         ocs = drop (length (observed f)) (observed f');
         t3 = fold (\<lambda>(i, oc). onSubmitted oc (dur (i + 2))) (enumerate 0 ocs) t2 in
     (f', s', t3))"

definition scripts_run :: "'z feed_scheme \<Rightarrow> u64 \<times> bool" where
  "scripts_run f = (c_verifyScripts (cnt f), feed_verifies f)"

lemma scripts_kept [simp]:
  "scripts_run (observe oc f) = scripts_run f" "scripts_run (book_answer name st n f) = scripts_run f"
  "scripts_run (book_refusal f) = scripts_run f" "scripts_run (book_failure f) = scripts_run f"
  "scripts_run (compare vd e f) = scripts_run f" "scripts_run (f\<lparr>queuedBytes := q\<rparr>) = scripts_run f"
  by (simp_all add: scripts_run_def feed_verifies_def observe_def book_answer_def book_refusal_def book_failure_def compare_def
      tally_def addSteak_def addMismatch_def Let_def)

lemma scripts_submitOne: "submitOne env name obj marker f s = (e, f', s') \<Longrightarrow> scripts_run f' = scripts_run f"
  by (auto simp: submitOne_def Let_def split: prod.splits option.splits submit_end.splits)

lemma scripts_submit_names: "submit_names env cmp ns obj marker first f s = (e, f', s') \<Longrightarrow> scripts_run f' = scripts_run f"
proof (induction ns arbitrary: cmp first f s)
  case (Cons n ns)
  obtain e1 f1 s1 where one: "submitOne env n obj marker f s = (e1, f1, s1)" by (metis surj_pair)
  then have "submit_names env None ns obj marker (if first = None then e1 else first)
      (case cmp of None \<Rightarrow> f1 | Some vd \<Rightarrow> compare vd e1 f1) s1 = (e, f', s')"
    using Cons.prems by simp
  from Cons.IH [OF this] show ?case using scripts_submitOne [OF one] by (simp split: option.splits)
qed simp

lemma scripts_process:
  assumes "feed_process env j f s = (e, f', s')"
  shows "scripts_run f' = (c_verifyScripts (cnt f) +
    (if feed_verifies f then of_nat (vScripts (run_verify env (object j))) else 0), feed_verifies f)"
  using assms by (auto simp: feed_process_def Let_def scripts_run_def tally_def feed_verifies_def split: if_splits
      dest!: scripts_submit_names)

lemma scripts_take:
  assumes "take_job env j f s = (f', s')"
  shows "c_verifyScripts (cnt f') = c_verifyScripts (cnt f) +
      (if feed_verifies f then of_nat (vScripts (run_verify env (object j))) else 0)" "feed_verifies f' = feed_verifies f"
proof -
  let ?f = "f\<lparr>queuedBytes := queuedBytes f - int (length (object j))\<rparr>"
  obtain e where "feed_process env j ?f s = (e, f', s')" using assms by (metis take_job_def prod.collapse)
  from scripts_process [OF this] show "c_verifyScripts (cnt f') = c_verifyScripts (cnt f) +
      (if feed_verifies f then of_nat (vScripts (run_verify env (object j))) else 0)" "feed_verifies f' = feed_verifies f"
    by (simp_all add: scripts_run_def feed_verifies_def)
qed

text \<open>The histograms of the work counters, as the lists of values.\<close>

lemma onVerified_work:
  assumes "\<forall>n \<in> set workCounters. t_work t n = Some (xs n)" and "n \<in> set workCounters"
  shows "t_work (onVerified vd w d t) n = Some (xs n @ [the (map_of (work_values vd w) n)])"
  using assms by (cases w) (auto simp: onVerified_def work_values_def workCounters_def observe_label_def)

lemma submitted_keeps:
  "t_work (fold (\<lambda>(i, oc). onSubmitted oc (dur i)) ios t) = t_work t \<and> t_wait (fold (\<lambda>(i, oc). onSubmitted oc (dur i)) ios t) = t_wait t"
  by (induction ios arbitrary: t) (auto simp: onSubmitted_def)

lemma hooked_take_effect:
  assumes "hooked_take env wk dur j (f, s, t) = (f', s', t')"
  shows "take_job env j f s = (f', s')"
    and "t_work t' = (if feed_verifies f then t_work (onVerified (run_verify env (object j)) (wk (object j)) (dur 1) t) else t_work t)"
    and "length (t_wait t') = Suc (length (t_wait t))"
proof -
  obtain f1 s1 where tk: "take_job env j f s = (f1, s1)" by force
  then show "take_job env j f s = (f', s')" using assms by (simp add: hooked_take_def Let_def)
  show "t_work t' = (if feed_verifies f then t_work (onVerified (run_verify env (object j)) (wk (object j)) (dur 1) t) else t_work t)"
    "length (t_wait t') = Suc (length (t_wait t))"
    using assms tk submitted_keeps [where dur = "\<lambda>i. dur (i + 2)"]
    by (auto simp: hooked_take_def Let_def onVerified_def onDequeued_def)
qed

text \<open>Every histogram of the work counters, and how the one of the scripts compares with the feed's counter.\<close>

definition work_observed :: "bool \<Rightarrow> nat \<Rightarrow> feed \<times> 'g site \<times> timings \<Rightarrow> bool" where
  "work_observed v k st = (case st of (f, s, t) \<Rightarrow>
     (\<exists>xs. (\<forall>n \<in> set workCounters. t_work t n = Some (xs n) \<and> length (xs n) = (if v then k else 0)) \<and>
        word_of_int (sum_list (xs ''scripts'')) = c_verifyScripts (cnt f)) \<and>
     feed_verifies f = v \<and> length (t_wait t) = k)"

lemma work_observed_take:
  assumes "work_observed v k (f, s, t)" and h: "hooked_take env wk dur j (f, s, t) = (f', s', t')"
  shows "work_observed v (Suc k) (f', s', t')"
proof -
  obtain xs where xs: "\<forall>n \<in> set workCounters. t_work t n = Some (xs n)" "\<forall>n \<in> set workCounters. length (xs n) = (if v then k else 0)"
    "word_of_int (sum_list (xs ''scripts'')) = c_verifyScripts (cnt f)" and v: "feed_verifies f = v" and w: "length (t_wait t) = k"
    using assms(1) by (auto simp: work_observed_def)
  note e = hooked_take_effect [OF h]
  have sc: "c_verifyScripts (cnt f') = c_verifyScripts (cnt f) + (if v then of_nat (vScripts (run_verify env (object j))) else 0)"
    "feed_verifies f' = v" using scripts_take [OF e(1)] v by simp_all
  show ?thesis
  proof (cases v)
    case True
    let ?ys = "\<lambda>n. xs n @ [the (map_of (work_values (run_verify env (object j)) (wk (object j))) n)]"
    have "the (map_of (work_values (run_verify env (object j)) (wk (object j))) ''scripts'') = int (vScripts (run_verify env (object j)))"
      by (cases "wk (object j)") (simp add: work_values_def)
    then have "word_of_int (sum_list (?ys ''scripts'')) = c_verifyScripts (cnt f')" using xs(3) sc(1) True by simp
    moreover have "\<forall>n \<in> set workCounters. t_work t' n = Some (?ys n) \<and> length (?ys n) = Suc k"
      using onVerified_work [OF xs(1)] e(2) xs(2) True v by simp
    ultimately show ?thesis using True sc(2) e(3) w unfolding work_observed_def by auto
  next
    case False
    then have "t_work t' = t_work t" using e(2) v by simp
    then show ?thesis using False sc e(3) w xs unfolding work_observed_def by (auto intro!: exI [of _ xs])
  qed
qed

lemma work_observed_new: "cnt f = zero_counters \<Longrightarrow> work_observed (feed_verifies f) 0 (f, s, newTimings)"
  by (auto simp: work_observed_def newTimings_def workCounters_def with_label_def zero_counters_def intro!: exI [of _ "\<lambda>_. []"])



end
