(* ===== verification/Bridge_Listen.thy ===== *)
theory Bridge_Listen
  imports Task_Group Go_Strings "HOL-Library.Multiset"
begin

text \<open>
  The listeners of the process: the read surface's \<^verbatim>\<open>Serve\<close> (\<^verbatim>\<open>src/headers/api.go\<close>), which opens several, and the
  facade's, the metrics' and the profiler's (\<^verbatim>\<open>src/facade/facade.go\<close>, \<^verbatim>\<open>src/cmd/overlay-bridge/main.go\<close>,
  \<^verbatim>\<open>src/cmd/overlay-bridge/pprof.go\<close>), which open one. Whether an address can be bound and when a server fails by
  itself are events; closing a server closes its listener. What is served is the handlers of the other theories.
\<close>

section \<open>How a server ends\<close>

datatype serve_res = NoListenConfigured | ListenFailed string | NoUsableListen | ServeFailed string | ServeCtx

text \<open>As the task group sees it: the context's own error is a cancellation.\<close>

definition serve_err :: "serve_res \<Rightarrow> task_err option" where
  "serve_err r = (case r of ServeCtx \<Rightarrow> Some CtxCanceled | ServeFailed a \<Rightarrow> Some (OtherErr a) | ListenFailed a \<Rightarrow> Some (OtherErr a)
    | _ \<Rightarrow> Some (OtherErr []))"

section \<open>The read surface: several listeners\<close>

datatype api_pc = ABinding | AServing | AReturned serve_res

text \<open>
  The addresses still to bind, the servers made so far, the listeners open now, the error channel with its capacity,
  the flag behind \<^verbatim>\<open>Listening\<close>, and whether the context has ended.
\<close>

record api_srv =
  sv_todo :: "string list"
  sv_servers :: "string list"
  sv_socks :: "string list"
  sv_errCh :: "string list"
  sv_cap :: nat
  sv_listening :: bool
  sv_ended :: bool
  sv_pc :: api_pc

definition api_begin :: "string list \<Rightarrow> bool \<Rightarrow> api_srv" where
  "api_begin addrs ended = \<lparr>sv_todo = addrs, sv_servers = [], sv_socks = [], sv_errCh = [], sv_cap = length addrs,
     sv_listening = False, sv_ended = ended, sv_pc = (if addrs = [] then AReturned NoListenConfigured else ABinding)\<rparr>"

text \<open>\<open>Close\<close> or \<open>Shutdown\<close> on every server made so far.\<close>

definition close_servers :: "api_srv \<Rightarrow> api_srv" where
  "close_servers s = s\<lparr>sv_socks := fold remove1 (sv_servers s) (sv_socks s)\<rparr>"

text \<open>One turn of the binding loop, with the answer of \<open>net.Listen\<close>, or the end of the loop.\<close>

definition api_bind :: "bool \<Rightarrow> api_srv \<Rightarrow> api_srv" where
  "api_bind ok s = (case sv_todo s of
      [] \<Rightarrow> if sv_servers s = [] then s\<lparr>sv_pc := AReturned NoUsableListen\<rparr>
           else s\<lparr>sv_listening := True, sv_pc := AServing\<rparr>
    | a # rest \<Rightarrow> let addr = trim_space a in
        if addr = [] then s\<lparr>sv_todo := rest\<rparr>
        else if ok then s\<lparr>sv_todo := rest, sv_servers := sv_servers s @ [addr], sv_socks := sv_socks s @ [addr]\<rparr>
        else (close_servers s)\<lparr>sv_pc := AReturned (ListenFailed addr)\<rparr>)"

text \<open>A server's own goroutine ends with an error: its listener is closed and the error sent.\<close>

definition api_fail :: "string \<Rightarrow> api_srv \<Rightarrow> api_srv" where
  "api_fail a s = s\<lparr>sv_socks := remove1 a (sv_socks s), sv_errCh := sv_errCh s @ [a]\<rparr>"

text \<open>The two cases of the \<open>select\<close>, with the deferred reset of the flag.\<close>

definition api_fails :: "api_srv \<Rightarrow> api_srv" where
  "api_fails s = (close_servers s)\<lparr>sv_errCh := tl (sv_errCh s), sv_listening := False, sv_pc := AReturned (ServeFailed (hd (sv_errCh s)))\<rparr>"

definition api_shutdown :: "api_srv \<Rightarrow> api_srv" where
  "api_shutdown s = (close_servers s)\<lparr>sv_listening := False, sv_pc := AReturned ServeCtx\<rparr>"

datatype api_event = ABind bool | AFail string | ACtx | AErr | AStop

inductive api_step :: "api_srv \<Rightarrow> api_event \<Rightarrow> api_srv \<Rightarrow> bool" where
  a_bind: "sv_pc s = ABinding \<Longrightarrow> api_step s (ABind ok) (api_bind ok s)"
| a_fail: "a \<in> set (sv_socks s) \<Longrightarrow> length (sv_errCh s) < sv_cap s \<Longrightarrow> api_step s (AFail a) (api_fail a s)"
| a_ctx: "api_step s ACtx (s\<lparr>sv_ended := True\<rparr>)"
| a_err: "sv_pc s = AServing \<Longrightarrow> sv_errCh s \<noteq> [] \<Longrightarrow> api_step s AErr (api_fails s)"
| a_stop: "sv_pc s = AServing \<Longrightarrow> sv_ended s \<Longrightarrow> api_step s AStop (api_shutdown s)"

inductive_simps api_step_iff:
  "api_step s (ABind ok) t" "api_step s (AFail a) t" "api_step s ACtx t" "api_step s AErr t" "api_step s AStop t"

definition usable :: "string list \<Rightarrow> string list" where
  "usable addrs = filter (\<lambda>a. a \<noteq> []) (map trim_space addrs)"

definition returned_for :: "string list \<Rightarrow> bool \<Rightarrow> serve_res \<Rightarrow> bool" where
  "returned_for addrs ended r = (case r of NoListenConfigured \<Rightarrow> addrs = [] | NoUsableListen \<Rightarrow> addrs \<noteq> [] \<and> usable addrs = []
    | ListenFailed a \<Rightarrow> a \<in> set (usable addrs) | ServeFailed a \<Rightarrow> a \<in> set (usable addrs) | ServeCtx \<Rightarrow> ended)"

definition api_ok :: "string list \<Rightarrow> api_srv \<Rightarrow> bool" where
  "api_ok addrs s \<longleftrightarrow> sv_cap s = length addrs \<and> (sv_listening s \<longleftrightarrow> sv_pc s = AServing) \<and>
     (case sv_pc s of
        AReturned r \<Rightarrow> sv_socks s = [] \<and> returned_for addrs (sv_ended s) r
      | ABinding \<Rightarrow> addrs \<noteq> [] \<and> sv_servers s @ usable (sv_todo s) = usable addrs \<and> mset (sv_socks s) + mset (sv_errCh s) = mset (sv_servers s)
      | AServing \<Rightarrow> sv_servers s \<noteq> [] \<and> sv_servers s = usable addrs \<and> mset (sv_socks s) + mset (sv_errCh s) = mset (sv_servers s))"

lemma usable_simps [simp]:
  "usable [] = []" "trim_space a = [] \<Longrightarrow> usable (a # as) = usable as" "trim_space a \<noteq> [] \<Longrightarrow> usable (a # as) = trim_space a # usable as"
  by (simp_all add: usable_def)

lemma mset_fold_remove1: "mset (fold remove1 xs ys) = mset ys - mset xs"
  by (induction xs arbitrary: ys) simp_all

lemma close_servers_socks: "mset (sv_socks s) \<subseteq># mset (sv_servers s) \<Longrightarrow> fold remove1 (sv_servers s) (sv_socks s) = []"
  by (metis Diff_eq_empty_iff_mset mset_fold_remove1 mset_zero_iff)

lemma close_servers_simps [simp]:
  "sv_cap (close_servers s) = sv_cap s" "sv_ended (close_servers s) = sv_ended s" "sv_errCh (close_servers s) = sv_errCh s"
  "sv_listening (close_servers s) = sv_listening s"
  "mset (sv_socks s) + E = mset (sv_servers s) \<Longrightarrow> sv_socks (close_servers s) = []"
  by (simp_all add: close_servers_def close_servers_socks flip: mset_subset_eq_add_left)
    (metis close_servers_socks mset_subset_eq_add_left)

lemma api_ok_server:
  assumes "mset (sv_socks s) + mset (sv_errCh s) = mset (sv_servers s)"
  shows "a \<in> set (sv_errCh s) \<Longrightarrow> a \<in> set (sv_servers s)" "a \<in> set (sv_socks s) \<Longrightarrow> a \<in> set (sv_servers s)"
  using assms by (metis set_mset_mset union_iff)+

lemma length_shares: "mset xs + mset ys = mset zs \<Longrightarrow> length xs + length ys = length zs"
  by (metis size_mset size_union)

lemma api_ok_step:
  assumes "api_ok addrs s" and "api_step s e t"
  shows "api_ok addrs t"
  using assms(2,1)
proof cases
  case (a_bind ok)
  have ok: "sv_cap s = length addrs" "\<not> sv_listening s" "addrs \<noteq> []" "sv_servers s @ usable (sv_todo s) = usable addrs"
    "mset (sv_socks s) + mset (sv_errCh s) = mset (sv_servers s)"
    using assms(1) a_bind(3) by (simp_all add: api_ok_def)
  show ?thesis
  proof (cases "sv_todo s")
    case Nil
    then have "sv_servers s = [] \<Longrightarrow> sv_socks s = []" using ok(5) by (metis mset_zero_iff union_eq_empty)
    then show ?thesis using ok a_bind Nil by (simp add: api_bind_def api_ok_def returned_for_def)
  next
    case (Cons a rest)
    show ?thesis
    proof (cases "trim_space a = []")
      case True
      then show ?thesis using ok a_bind Cons by (simp add: api_bind_def api_ok_def Let_def)
    next
      case False
      then have "trim_space a \<in> set (usable addrs)" using ok(4) Cons by (metis in_set_conv_decomp usable_simps(3))
      then show ?thesis using ok a_bind Cons False by (simp add: api_bind_def api_ok_def Let_def returned_for_def)
    qed
  qed
next
  case (a_fail a)
  then have "{#a#} \<subseteq># mset (sv_socks s)" by simp
  then show ?thesis using assms(1) a_fail by (auto simp: api_ok_def api_fail_def split: api_pc.splits)
next
  case a_ctx
  then show ?thesis using assms(1) by (auto simp: api_ok_def returned_for_def split: api_pc.splits serve_res.splits)
next
  case a_err
  then have "hd (sv_errCh s) \<in> set (usable addrs)"
    using assms(1) by (auto simp: api_ok_def dest!: api_ok_server(1) [of s "hd (sv_errCh s)"] hd_in_set)
  moreover have "sv_socks (close_servers s) = []" using assms(1) a_err by (intro close_servers_simps(5) [of s "mset (sv_errCh s)"]) (simp add: api_ok_def)
  ultimately show ?thesis using assms(1) a_err by (simp add: api_ok_def api_fails_def returned_for_def)
next
  case a_stop
  moreover have "sv_socks (close_servers s) = []" using assms(1) a_stop by (intro close_servers_simps(5) [of s "mset (sv_errCh s)"]) (simp add: api_ok_def)
  ultimately show ?thesis using assms(1) by (simp add: api_ok_def api_shutdown_def returned_for_def)
qed

definition api_start :: "string list \<Rightarrow> api_srv \<Rightarrow> bool" where
  "api_start addrs s \<longleftrightarrow> (\<exists>ended. s = api_begin addrs ended)"

lemma api_ok_start: "api_start addrs s \<Longrightarrow> api_ok addrs s"
  by (cases "addrs = []") (auto simp: api_start_def api_begin_def api_ok_def returned_for_def)

interpretation listens: transition_system "api_start addrs" api_step "api_ok addrs" for addrs
  by unfold_locales (auto intro: api_ok_start api_ok_step)

section \<open>One listener\<close>

text \<open>
  \<^verbatim>\<open>ListenAndServe\<close> in a goroutine: about to bind, serving, or over. The profiler (\<open>carry_on\<close>) logs a failure and
  waits for the context; the facade and the metrics return it.
\<close>

datatype serving = SStarting | SServing | SOver

datatype one_pc = ORunning | OWaiting | OReturned serve_res

record one_srv =
  o_addr :: string
  o_serving :: serving
  o_errCh :: "string list"
  o_ended :: bool
  o_pc :: one_pc

definition one_begin :: "string \<Rightarrow> bool \<Rightarrow> one_srv" where
  "one_begin a ended = \<lparr>o_addr = a, o_serving = SStarting, o_errCh = [], o_ended = ended, o_pc = ORunning\<rparr>"

definition one_binds :: "one_srv \<Rightarrow> one_srv" where
  "one_binds s = s\<lparr>o_serving := SServing\<rparr>"

definition one_fails :: "one_srv \<Rightarrow> one_srv" where
  "one_fails s = s\<lparr>o_serving := SOver, o_errCh := o_errCh s @ [o_addr s]\<rparr>"

definition one_error :: "bool \<Rightarrow> one_srv \<Rightarrow> one_srv" where
  "one_error carry_on s = s\<lparr>o_errCh := tl (o_errCh s),
     o_pc := (if carry_on then OWaiting else OReturned (ServeFailed (hd (o_errCh s))))\<rparr>"

text \<open>\<^verbatim>\<open>Shutdown\<close> closes the listener, and a server not yet listening then never does.\<close>

definition one_shutdown :: "one_srv \<Rightarrow> one_srv" where
  "one_shutdown s = s\<lparr>o_serving := SOver, o_pc := OReturned ServeCtx\<rparr>"

datatype one_event = OBind | OFail | OCtx | OErr | OStop

inductive one_step :: "bool \<Rightarrow> one_srv \<Rightarrow> one_event \<Rightarrow> one_srv \<Rightarrow> bool" for carry_on :: bool where
  o_bind: "o_serving s = SStarting \<Longrightarrow> one_step carry_on s OBind (one_binds s)"
| o_fail: "o_serving s \<noteq> SOver \<Longrightarrow> o_errCh s = [] \<Longrightarrow> one_step carry_on s OFail (one_fails s)"
| o_ctx: "one_step carry_on s OCtx (s\<lparr>o_ended := True\<rparr>)"
| o_err: "o_pc s = ORunning \<Longrightarrow> o_errCh s \<noteq> [] \<Longrightarrow> one_step carry_on s OErr (one_error carry_on s)"
| o_stop: "o_pc s \<in> {ORunning, OWaiting} \<Longrightarrow> o_ended s \<Longrightarrow> one_step carry_on s OStop (one_shutdown s)"

inductive_simps one_step_iff:
  "one_step c s OBind t" "one_step c s OFail t" "one_step c s OCtx t" "one_step c s OErr t" "one_step c s OStop t"

definition one_start :: "string \<Rightarrow> one_srv \<Rightarrow> bool" where
  "one_start a s \<longleftrightarrow> (\<exists>ended. s = one_begin a ended)"

definition one_ok :: "string \<Rightarrow> bool \<Rightarrow> one_srv \<Rightarrow> bool" where
  "one_ok a carry_on s \<longleftrightarrow> o_addr s = a \<and> (o_errCh s = [] \<or> o_errCh s = [a] \<and> o_serving s = SOver) \<and>
     (case o_pc s of ORunning \<Rightarrow> o_serving s = SOver \<longrightarrow> o_errCh s \<noteq> []
      | OWaiting \<Rightarrow> carry_on \<and> o_serving s = SOver
      | OReturned r \<Rightarrow> o_serving s = SOver \<and> (r = ServeCtx \<and> o_ended s \<or> r = ServeFailed a \<and> \<not> carry_on))"

lemma one_ok_step:
  assumes "one_ok a c s" and "one_step c s e t"
  shows "one_ok a c t"
  using assms(2,1)
  by cases (auto simp: one_ok_def one_binds_def one_fails_def one_error_def one_shutdown_def split: one_pc.splits)

interpretation listener: transition_system "one_start a" "one_step c" "one_ok a c" for a c
proof unfold_locales
  fix s assume "one_start a s"
  then show "one_ok a c s" by (auto simp: one_start_def one_begin_def one_ok_def)
qed (rule one_ok_step)

section \<open>Properties\<close>



text \<open>
  A listener that fails stops the process, unless it is the profiler's. A task that serves on one address returns
  only with its listener closed, and then with its own failure or because the context ended; the profiler's never
  returns before the context has ended and never returns a failure, so the group never counts it as one.
\<close>

theorem profiler_never_stops_the_bridge:
  assumes "one_start a s0" and "run (one_step carry_on) s0 es s" and "o_pc s = OReturned r"
  shows "o_serving s = SOver \<and> (r = ServeCtx \<and> o_ended s \<or> r = ServeFailed a) \<and>
    task_failure (serve_err r) c = (if r = ServeCtx then None else Some (OtherErr a)) \<and>
    (carry_on \<longrightarrow> r = ServeCtx)"
  using listener.invar_reach [OF assms(1,2)] assms(3) by (auto simp: one_ok_def task_failure_def serve_err_def)

theorem profiler_never_stops_the_bridge_witness:
  "\<exists>s. run (one_step True) (one_begin ''127.0.0.1:6060'' False) [OFail, OErr, OCtx, OStop] s \<and> o_pc s = OReturned ServeCtx \<and>
     task_failure (serve_err ServeCtx) True = None"
proof -
  let ?s = "\<lparr>o_addr = ''127.0.0.1:6060'', o_serving = SOver, o_errCh = [], o_ended = True, o_pc = OReturned ServeCtx\<rparr>"
  have r: "run (one_step True) (one_begin ''127.0.0.1:6060'' False) [OFail, OErr, OCtx, OStop] ?s"
    by (simp add: run_Cons_iff one_step_iff one_begin_def one_fails_def one_error_def one_shutdown_def)
  have "one_start ''127.0.0.1:6060'' (one_begin ''127.0.0.1:6060'' False)" by (auto simp: one_start_def)
  from profiler_never_stops_the_bridge [OF this r] r show ?thesis by (intro exI [of _ ?s]) simp
qed

end
