(* ===== verification/Bridge_Run.thy ===== *)
theory Bridge_Run
  imports Bridge_Metrics Bridge_Timings Bridge_Listen
begin

text \<open>
  The process, \<^verbatim>\<open>main\<close> and \<^verbatim>\<open>run\<close> of \<^verbatim>\<open>src/cmd/overlay-bridge/main.go\<close>: what is built from the flags and in which
  order, which errors stop it before anything runs, the tasks the group is given, the collector over all of it, and
  the exit status. Listening and running are the other theories' step relations.
\<close>

section \<open>What run calls\<close>

text \<open>
  The text and address functions of the library, the broker, the anchor (a transport and, as a source of roots, what
  the warm-up reads), the key file, the interface table, and the length of a delivery record's prefix.
\<close>

record 'w run_env =
  re_prefix :: "string \<Rightarrow> ip_prefix option"
  re_loopback :: "string \<Rightarrow> bool"
  re_hash :: "string \<Rightarrow> hash option"
  re_anchor :: "'w transport"
  re_roots :: root_source
  re_warmed :: nat
  re_warm_live :: "u32 \<Rightarrow> bool"
  re_warm_ended :: bool
  re_key :: "string \<Rightarrow> key_err + bytes"
  re_ip :: "string \<Rightarrow> string option"
  re_same_ip :: "string \<Rightarrow> string \<Rightarrow> bool"
  re_addrs :: "string list option"
  re_wiring :: wiring
  re_prefix_size :: int

datatype run_err = RunConfig config_err | RunStore build_err | RunKey key_err | RunSource source_err

section \<open>Shadows and other targets\<close>

definition newShadow :: "wiring \<Rightarrow> config \<Rightarrow> string \<Rightarrow> string \<Rightarrow> shadow_target" where
  "newShadow w c base name = \<lparr>sSubmit = Some (engine_of w base), sMarked = True, sWorkers = cfg_shadowWorkers c,
     sQueueDepth = cfg_shadowQueue c, sName = name, kinds = (\<lambda>_. 0), submitted = 0, sq = [], sstarted = False\<rparr>"

definition newAlso :: "wiring \<Rightarrow> config \<Rightarrow> string \<Rightarrow> string \<Rightarrow> also_target" where
  "newAlso w c pattern target = \<lparr>aSubmit = Some (engine_of w target), aWorkers = cfg_alsoWorkers c, aQueueDepth = cfg_alsoQueue c,
     aQueueBytes = cfg_alsoBytes c, aRetries = 0, aBackoff = 0, aName = pattern, aTarget = target, aresults = (\<lambda>_. 0), aq = [],
     abytes = 0, astarted = False\<rparr>"

text \<open>Each shadow made, by origin and label, the default first; each other target, by route and origin.\<close>

definition made_shadows :: "config \<Rightarrow> (string \<times> string) list" where
  "made_shadows c = (if cfg_mode c = ''sink'' then [] else
     (if cfg_shadowEngine c \<noteq> [] then [(cfg_shadowEngine c, DefaultRoute)] else []) @
     map (\<lambda>rs. (specShadow rs, specPattern rs)) (filter (\<lambda>rs. specShadow rs \<noteq> []) (map spec_of (cfg_engineRoutes c))))"

definition made_alsos :: "config \<Rightarrow> (string \<times> string) list" where
  "made_alsos c = (if cfg_mode c = ''sink'' then [] else
     concat (map (\<lambda>rs. map (\<lambda>a. (specPattern rs, a)) (specAlso rs)) (map spec_of (cfg_engineRoutes c))))"

definition shadow_table :: "wiring \<Rightarrow> config \<Rightarrow> nat \<Rightarrow> shadow_target" where
  "shadow_table w c i = (case map_of (map (\<lambda>(b, n). (shadow_of w b n, newShadow w c b n)) (made_shadows c)) i of
     Some s \<Rightarrow> s | None \<Rightarrow> newShadow w c [] [])"

definition also_table :: "wiring \<Rightarrow> config \<Rightarrow> nat \<Rightarrow> also_target" where
  "also_table w c i = (case map_of (map (\<lambda>(p, a). (also_of w p a, newAlso w c p a)) (made_alsos c)) i of
     Some t \<Rightarrow> t | None \<Rightarrow> newAlso w c [] [])"

section \<open>The up-tunnel\<close>

definition build_client :: "config \<Rightarrow> 'v \<Rightarrow> 'v client" where
  "build_client c v = \<lparr>Addrs = ingressAddrs (cfg_edgeIngress c) (cfg_edgeBeefPort c), Prefer = cfg_publishPreferAfter c,
     Timeout = 0, ConfirmGrace = 0, MaxResends = 0, cur = None, idx = 0, leftAt = None, unconfirmed = [], resend = [],
     written = 0, sent_bytes = 0, failures = 0, redials = 0, confirmed = 0, resent = 0, lost = 0, peerClosed = 0,
     unconfirmedGauge = 0, cbs = [], world = v\<rparr>"

definition build_queue :: "'w run_env \<Rightarrow> config \<Rightarrow> 'v \<Rightarrow> source_err + ('v client queue \<times> string option) option" where
  "build_queue re c v =
    (if cfg_mode c = ''all'' \<and> cfg_edgeIngress c \<noteq> [] then
       (let q = NewQueue (build_client c v) (cfg_publishQueue c) (cfg_publishQBytes c) (cfg_publishWait c) in
        if cfg_publishSource c \<noteq> [] then
          bind_res (resolveSource (re_ip re) (re_same_ip re) (re_addrs re) (cfg_publishSource c)) (\<lambda>ip. Inr (Some (q, Some ip)))
        else Inr (Some (q, None)))
     else Inr None)"

section \<open>The tasks\<close>

datatype task =
    TEngineWorkers | TShadow nat | TAlso nat | TFacade string | TPublishQueue | TBeefLane | THeaderLane
  | THeaderAPI "string list" | TMetrics string | TPprof string | TStats

definition task_name :: "(nat \<Rightarrow> shadow_target) \<Rightarrow> (nat \<Rightarrow> also_target) \<Rightarrow> task \<Rightarrow> string" where
  "task_name sh al t = (case t of
      TEngineWorkers \<Rightarrow> ''engine-workers''
    | TShadow i \<Rightarrow> ''shadow-workers:'' @ sName (sh i)
    | TAlso i \<Rightarrow> ''also-workers:'' @ aName (al i) @ ''>'' @ aTarget (al i)
    | TFacade _ \<Rightarrow> ''facade''
    | TPublishQueue \<Rightarrow> ''publish-queue''
    | TBeefLane \<Rightarrow> ''beef-lane''
    | THeaderLane \<Rightarrow> ''header-lane''
    | THeaderAPI _ \<Rightarrow> ''header-api''
    | TMetrics _ \<Rightarrow> ''metrics''
    | TPprof _ \<Rightarrow> ''pprof''
    | TStats \<Rightarrow> ''stats'')"

definition run_tasks :: "config \<Rightarrow> feed \<Rightarrow> facade option \<Rightarrow> bool \<Rightarrow> task list" where
  "run_tasks c f fac queue =
     (if fSubmit f \<noteq> None \<and> fWorkers f > 0 then [TEngineWorkers] else []) @
     map TShadow (feed_shadows f) @ map TAlso (feed_alsos f) @
     (if fac \<noteq> None then [TFacade (firstAddr (cfg_facadeListen c))] else []) @
     (if queue then [TPublishQueue] else []) @
     [TBeefLane, THeaderLane] @
     (if cfg_headersListen c \<noteq> [] then [THeaderAPI (splitList (cfg_headersListen c))] else []) @
     (if cfg_metricsAddr c \<noteq> [] then [TMetrics (cfg_metricsAddr c)] else []) @
     (if cfg_pprofListen c \<noteq> [] then [TPprof (cfg_pprofListen c)] else []) @
     (if cfg_statsEvery c > 0 then [TStats] else [])"

text \<open>The record ceilings of the two lanes: an object's ceiling and its record's prefix, and one header.\<close>

definition lane_ceiling :: "'g feed_env \<Rightarrow> 'w run_env \<Rightarrow> config \<Rightarrow> int" where
  "lane_ceiling env re c = (if cfg_maxObject c = 0 then default_max env else cfg_maxObject c) + re_prefix_size re"

section \<open>Run\<close>

text \<open>
  The reconciliation of the topics with the broker (\<open>reconcileTopics\<close>) is called between validation and the header
  store and only writes log lines, so it has no part in what is built.
\<close>

record 'v running_bridge =
  br_store :: store
  br_tracker :: tracker
  br_feed :: feed
  br_timings :: timings
  br_queue :: "('v client queue \<times> string option) option"
  br_facade :: "facade option"
  br_beef_max :: int
  br_tasks :: "task list"
  br_group :: group

definition bridge_run :: "'g feed_env \<Rightarrow> 'w run_env \<Rightarrow> config \<Rightarrow> bool \<Rightarrow> 'w \<Rightarrow> 'v \<Rightarrow> run_err + 'v running_bridge" where
  "bridge_run env re c over x v =
    (case validate (re_prefix re) (loopbackAddr SplitHostPort (re_loopback re)) c of
       Some e \<Rightarrow> Inl (RunConfig e)
     | None \<Rightarrow> (case fst (buildStore (re_hash re) (re_anchor re) (cfg_headerAnchor c) (cfg_headerMinBits c) (cfg_headerWindow c) x) of
         Inl e \<Rightarrow> Inl (RunStore e)
       | Inr s \<Rightarrow> (case build_feed env (re_wiring re) (re_key re) c of
           Inl e \<Rightarrow> Inl (RunKey e)
         | Inr f \<Rightarrow> (case build_queue re c v of
             Inl e \<Rightarrow> Inl (RunSource e)
           | Inr q \<Rightarrow>
             (let fac = build_facade (re_prefix re) (re_wiring re) c f;
                  ts = run_tasks c f fac (q \<noteq> None);
                  name = task_name (shadow_table (re_wiring re) c) (also_table (re_wiring re) c) in
              Inr \<lparr>br_store = warmStore (cfg_headerAnchor c) (cfg_headerWarm c) (Some (re_roots re)) (re_warmed re) (re_warm_live re) (re_warm_ended re) s,
                br_tracker = NewTracker, br_feed = f,
                br_timings = fold (\<lambda>(_, n). preset_shadow n) (made_shadows c) newTimings,
                br_queue = q, br_facade = fac, br_beef_max = lane_ceiling env re c, br_tasks = ts,
                br_group = fold (\<lambda>t. group_go (name t)) ts (newGroup over)\<rparr>)))))"

text \<open>What \<^verbatim>\<open>main\<close> exits with: an error other than the cancellation is logged and exits with one.\<close>

definition exit_status :: "run_err + outcome \<Rightarrow> nat" where
  "exit_status r = (case r of Inl _ \<Rightarrow> 1 | Inr Canceled \<Rightarrow> 0 | Inr (TaskError _ e) \<Rightarrow> if e = CtxCanceled then 0 else 1)"

section \<open>What a started bridge has\<close>

lemma bridge_run_Inr:
  assumes "bridge_run env re c over x v = Inr b"
  shows "validate (re_prefix re) (loopbackAddr SplitHostPort (re_loopback re)) c = None"
    and "build_feed env (re_wiring re) (re_key re) c = Inr (br_feed b)"
    and "build_queue re c v = Inr (br_queue b)"
    and "br_facade b = build_facade (re_prefix re) (re_wiring re) c (br_feed b)"
    and "br_tasks b = run_tasks c (br_feed b) (br_facade b) (br_queue b \<noteq> None)"
    and "br_beef_max b = lane_ceiling env re c"
    and "br_group b = fold (\<lambda>t. group_go (task_name (shadow_table (re_wiring re) c) (also_table (re_wiring re) c) t)) (br_tasks b) (newGroup over)"
  using assms by (auto simp: bridge_run_def Let_def split: option.splits sum.splits)

lemma bridge_run_starts:
  assumes "validate (re_prefix re) (loopbackAddr SplitHostPort (re_loopback re)) c = None"
    and "fst (buildStore (re_hash re) (re_anchor re) (cfg_headerAnchor c) (cfg_headerMinBits c) (cfg_headerWindow c) x) = Inr s"
    and "build_feed env (re_wiring re) (re_key re) c = Inr f" and "build_queue re c v = Inr q"
  shows "\<exists>b. bridge_run env re c over x v = Inr b"
  using assms by (simp add: bridge_run_def Let_def)

lemma built_feed:
  assumes "build_feed env w key c = Inr f"
  shows "fSubmit f = (if cfg_mode c \<noteq> ''sink'' then Some (engine_of w (cfg_engine c)) else None)"
    "fWorkers f = cfg_engineWorkers c" "MaxObject f = cfg_maxObject c"
    "fShadow f = (if cfg_shadowEngine c \<noteq> [] \<and> cfg_mode c \<noteq> ''sink'' then Some (shadow_of w (cfg_shadowEngine c) DefaultRoute) else None)"
    "fRoutes f = (if cfg_mode c \<noteq> ''sink'' then map (\<lambda>s. Some (build_route w s)) (cfg_engineRoutes c) else [])"
  using assms by (auto simp: build_feed_def Let_def bind_res_Inr_iff)

lemma group_go_all: "tasks (fold (\<lambda>t. group_go (name t)) ts g) = tasks g @ map (\<lambda>t. (name t, TRunning)) ts"
  by (induction ts arbitrary: g) (simp_all add: group_go_def)

lemma in_map_filter: "x \<in> set xs \<Longrightarrow> f x = Some y \<Longrightarrow> y \<in> set (List.map_filter f xs)"
  by (force simp: List.map_filter_def)

lemma routed_shadow:
  assumes "snd (route_engines (fRoutes f) p (fShadow f) t) = Some i"
  shows "i \<in> set (feed_shadows f)"
proof (cases "fShadow f = Some i")
  case False
  with assms obtain r where r: "RouteFor (fRoutes f) t = Some r" "rShadow r = Some i"
    by (auto simp: route_engines_def split: option.splits if_splits)
  then have "r \<in> set (List.map_filter (\<lambda>r. r) (fRoutes f))" using RouteFor_Some by (intro in_map_filter [of "Some r"]) auto
  then show ?thesis using r(2) by (auto simp: feed_shadows_def intro: in_map_filter)
qed (simp add: feed_shadows_def)

lemma routed_also:
  assumes "Some r \<in> set (fRoutes f)" "Some a \<in> set (rAlso r)"
  shows "a \<in> set (feed_alsos f)"
proof -
  have "r \<in> set (List.map_filter (\<lambda>r. r) (fRoutes f))" using assms(1) by (intro in_map_filter) auto
  then show ?thesis using assms(2) unfolding feed_alsos_def by (intro in_map_filter [of "Some a"]) auto
qed

lemma validated_publisher:
  assumes "validate pp loopback c = None" "build_facade pp w c f = Some fac" "build_queue re c v = Inr q"
  shows "fac_Publish fac" "q \<noteq> None" "fac_Shadow fac = fShadow f" "fac_Routes fac = fRoutes f"
  using validate_None(3) [OF assms(1)] assms(2,3)
  by (auto simp: build_facade_def validate_rest_def build_queue_def Let_def bind_res_Inr_iff split: if_splits)

section \<open>The collector over a started bridge\<close>

text \<open>
  What \<^verbatim>\<open>run\<close> hands the collector, with what only the process knows: the walks of the two maps, the guard's size,
  the warm-up's progress, the two lanes' counters and the runtime's settings.
\<close>

definition bridge_collector ::
    "'w run_env \<Rightarrow> config \<Rightarrow> 'v running_bridge \<Rightarrow> hash list \<Rightarrow> (string \<times> string) list \<Rightarrow> int \<Rightarrow> warm_stats \<times> int \<Rightarrow>
     lane_view \<Rightarrow> lane_view \<Rightarrow> nat \<Rightarrow> string \<Rightarrow> int option \<Rightarrow> 'v collector" where
  "bridge_collector re c b order seen n warm beef hdr procs gogc limit =
    \<lparr>col_feed = Some (br_feed b), col_shadows = shadow_table (re_wiring re) c, col_alsos = also_table (re_wiring re) c,
     col_busy = (\<lambda>_. 0), col_topics = order, col_steaks = seen, col_guard = Some n, col_store = Some (br_store b, warm),
     col_facade = br_facade b, col_queue = map_option fst (br_queue b),
     col_lanes = [beef\<lparr>l_Name := ''beef''\<rparr>, hdr\<lparr>l_Name := ''header''\<rparr>],
     col_verify = (ParseVerifyMode (cfg_verifyMode c) \<noteq> Some VerifyOff), col_config = Some (configLabels c procs gogc limit)\<rparr>"

lemma table_of: "inj_on k (set xs) \<Longrightarrow> x \<in> set xs \<Longrightarrow> map_of (map (\<lambda>p. (k p, g p)) xs) (k x) = Some (g x)"
proof (induction xs)
  case (Cons y ys)
  show ?case
  proof (cases "k y = k x")
    case True
    then have "y = x" using Cons.prems by (auto dest: inj_onD)
    then show ?thesis by simp
  qed (use Cons in auto)
qed simp

definition wired_apart :: "wiring \<Rightarrow> config \<Rightarrow> bool" where
  "wired_apart w c \<longleftrightarrow> inj_on (\<lambda>(b, n). shadow_of w b n) (set (made_shadows c)) \<and> inj_on (\<lambda>(p, a). also_of w p a) (set (made_alsos c))"

lemma table_names:
  assumes "wired_apart w c"
  shows "(b, n) \<in> set (made_shadows c) \<Longrightarrow> sName (shadow_table w c (shadow_of w b n)) = n"
    and "(p, a) \<in> set (made_alsos c) \<Longrightarrow> aName (also_table w c (also_of w p a)) = p \<and> aTarget (also_table w c (also_of w p a)) = a"
proof -
  have inj: "inj_on (\<lambda>(b, n). shadow_of w b n) (set (made_shadows c))" "inj_on (\<lambda>(p, a). also_of w p a) (set (made_alsos c))"
    using assms by (simp_all add: wired_apart_def)
  show "sName (shadow_table w c (shadow_of w b n)) = n" if "(b, n) \<in> set (made_shadows c)"
    using table_of [OF inj(1) that, of "\<lambda>(b, n). newShadow w c b n"] by (simp add: shadow_table_def newShadow_def case_prod_unfold)
  show "aName (also_table w c (also_of w p a)) = p \<and> aTarget (also_table w c (also_of w p a)) = a" if "(p, a) \<in> set (made_alsos c)"
    using table_of [OF inj(2) that, of "\<lambda>(p, a). newAlso w c p a"] by (simp add: also_table_def newAlso_def case_prod_unfold)
qed

text \<open>
  When no two of the shadows and other targets made are one, the collector is one the metrics theorems speak of.
\<close>

lemma started_bridge_collects:
  assumes "bridge_run env re c over x v = Inr b" and "wired_apart (re_wiring re) c"
    and "distinct order" "set order = dom (Topics (br_feed b))" "distinct seen"
  shows "collects (re_wiring re) c (br_feed b) (bridge_collector re c b order seen n warm beef hdr procs gogc limit)"
proof -
  note feed = built_feed [OF bridge_run_Inr(2) [OF assms(1)]] and names = table_names [OF assms(2)]
  have sink: "cfg_engineRoutes c = []" if "cfg_mode c = ''sink''"
    using that validate_None(1) [OF bridge_run_Inr(1) [OF assms(1)]] by (auto simp: validate_engine_def split: if_splits)
  have "sName (shadow_table (re_wiring re) c (shadow_of (re_wiring re) (cfg_shadowEngine c) DefaultRoute)) = DefaultRoute"
    if "fShadow (br_feed b) \<noteq> None"
    using that by (intro names(1)) (auto simp: feed(4) made_shadows_def split: if_splits)
  moreover have "(specShadow rs \<noteq> [] \<longrightarrow> (specShadow rs, specPattern rs) \<in> set (made_shadows c)) \<and>
      (\<forall>a \<in> set (specAlso rs). (specPattern rs, a) \<in> set (made_alsos c))" if "rs \<in> set (map spec_of (cfg_engineRoutes c))" for rs
    using that sink by (force simp: made_shadows_def made_alsos_def)
  ultimately show ?thesis using names assms(3-5) unfolding collects_def bridge_collector_def by (simp, blast)
qed

text \<open>The three routes beside it: the metrics, the liveness and the readiness probe.\<close>

datatype probe = GetMetrics | GetHealthz | GetReadyz

definition probe_reply :: "'v collector \<Rightarrow> (metric list \<Rightarrow> nat \<times> string) \<Rightarrow> metric list \<Rightarrow> probe \<Rightarrow> nat \<times> string" where
  "probe_reply col exposition ms p = (case p of
      GetMetrics \<Rightarrow> exposition ms
    | GetHealthz \<Rightarrow> (200, ''ok'')
    | GetReadyz \<Rightarrow> if \<not> collector_ready col then (503, ''lanes not bound'') else (200, ''ready''))"

lemma ready_when_both_lanes_are_bound:
  "probe_reply (bridge_collector re c b order seen n warm beef hdr procs gogc limit) ex ms GetReadyz =
    (if l_Bound beef \<and> l_Bound hdr then (200, ''ready'') else (503, ''lanes not bound''))"
  by (simp add: probe_reply_def collector_ready_def bridge_collector_def)

section \<open>The exit\<close>

lemma exit_status_of_group:
  assumes "group_start g0" and "run group_step g0 es g" and "list_all (\<lambda>t. snd t = TStopped) (tasks g)"
    and "group_wait g = Some res"
  shows "exit_status (Inr res) = (if group.failures g = [] then 0 else 1)"
proof -
  have ok: "group_ok g" using tg.invar_reach [OF assms(1,2)] .
  have stopped: "(n, TFailing e) \<notin> set (tasks g)" for n e using assms(3) by (auto simp: list_all_iff)
  have "(n, CtxCanceled) \<notin> set (group.failures g)" for n
    using ok stopped by (auto simp: group_ok_def failing_def failed_returns_def task_failure_def split: option.splits if_splits)
  then have no: "(n, CtxCanceled) \<notin> set (group.failures g)" for n .
  have res: "res = (case g_err g of None \<Rightarrow> Canceled | Some (n, e) \<Rightarrow> TaskError n e)"
    using assms(4) by (simp add: group_wait_def split: if_splits)
  have err: "g_err g = (case group.failures g of [] \<Rightarrow> None | f # _ \<Rightarrow> Some f)" using ok by (simp add: group_ok_def)
  show ?thesis
  proof (cases "group.failures g")
    case (Cons f fs)
    obtain n e where f: "f = (n, e)" by (cases f)
    then have "e \<noteq> CtxCanceled" using no [of n] Cons by auto
    then show ?thesis using res err Cons f by (simp add: exit_status_def)
  qed (use res err in \<open>simp add: exit_status_def\<close>)
qed

section \<open>The flags left alone\<close>

text \<open>Without flags the bridge refuses to start for want of an engine; as a sink it needs none.\<close>

lemma defaults_need_an_engine: "validate pp lb default_flags = Some NoEngine"
  by (simp add: validate_def validate_engine_def default_flags_def)

lemma sink_needs_nothing: "validate pp lb (default_flags\<lparr>cfg_mode := ''sink'', cfg_maxObject := m\<rparr>) = None"
  by (simp add: validate_def validate_engine_def validate_rest_def default_flags_def ParseVerifyMode_def ParseNetwork_def
      ParseFinality_def FinalityIgnore_def config_verifier_def VerifyEnforce_def VerifyOff_def seconds_def)

text \<open>
  A negative object ceiling passes validation: the feed then takes the codec's default, while the lane's own ceiling
  falls below the length of a record's prefix.
\<close>

lemma negative_ceiling_closes_the_lane:
  "validate pp lb (default_flags\<lparr>cfg_mode := ''sink'', cfg_maxObject := -1\<rparr>) = None \<and>
   lane_ceiling env re (default_flags\<lparr>cfg_mode := ''sink'', cfg_maxObject := -1\<rparr>) < re_prefix_size re"
  by (rule conjI [OF sink_needs_nothing]) (simp add: lane_ceiling_def)

section \<open>Properties\<close>

text \<open>
  C39. A bridge that starts runs everything it hands objects to. Every shadow some topic is sent to, by the feed or by
  the facade, and every other target of a route has its workers among the group's tasks; engine submits run on
  workers exactly when there is an engine and a positive count of them; a facade always has a publisher, whose queue
  is drained by a task; the object lane takes every record whose object the feed would take (for a ceiling that is not
  negative); and the group runs exactly these tasks, under their names and in this order.
\<close>

theorem started_bridge_runs_what_it_feeds:
  assumes "bridge_run env re c over x v = Inr b"
  shows "(\<forall>t i. snd (enginesFor (br_feed b) t) = Some i \<longrightarrow> TShadow i \<in> set (br_tasks b)) \<and>
    (\<forall>r a. Some r \<in> set (fRoutes (br_feed b)) \<and> Some a \<in> set (rAlso r) \<longrightarrow> TAlso a \<in> set (br_tasks b)) \<and>
    (TEngineWorkers \<in> set (br_tasks b) \<longleftrightarrow> cfg_mode c \<noteq> ''sink'' \<and> 0 < cfg_engineWorkers c) \<and>
    (\<forall>fac. br_facade b = Some fac \<longrightarrow> fac_Publish fac \<and> TPublishQueue \<in> set (br_tasks b) \<and>
       (\<forall>t i. snd (fac_enginesFor fac t) = Some i \<longrightarrow> TShadow i \<in> set (br_tasks b))) \<and>
    (0 \<le> cfg_maxObject c \<longrightarrow> br_beef_max b = maxObject env (br_feed b) + re_prefix_size re) \<and>
    tasks (br_group b) = map (\<lambda>t. (task_name (shadow_table (re_wiring re) c) (also_table (re_wiring re) c) t, TRunning)) (br_tasks b)"
proof (intro conjI allI impI)
  note run = bridge_run_Inr [OF assms]
  note feed = built_feed [OF run(2)]
  have sh: "i \<in> set (feed_shadows (br_feed b)) \<Longrightarrow> TShadow i \<in> set (br_tasks b)" for i by (simp add: run(5) run_tasks_def)
  show "TShadow i \<in> set (br_tasks b)" if "snd (enginesFor (br_feed b) t) = Some i" for t i
    using routed_shadow sh that unfolding enginesFor_def by blast
  show "TAlso a \<in> set (br_tasks b)" if "Some r \<in> set (fRoutes (br_feed b)) \<and> Some a \<in> set (rAlso r)" for r a
    using routed_also [of r "br_feed b" a] that by (auto simp: run(5) run_tasks_def)
  show "TEngineWorkers \<in> set (br_tasks b) \<longleftrightarrow> cfg_mode c \<noteq> ''sink'' \<and> 0 < cfg_engineWorkers c"
    by (auto simp: run(5) run_tasks_def feed)
  show "br_beef_max b = maxObject env (br_feed b) + re_prefix_size re" if "0 \<le> cfg_maxObject c"
    using that by (simp add: run(6) lane_ceiling_def maxObject_def feed)
  show "tasks (br_group b) = map (\<lambda>t. (task_name (shadow_table (re_wiring re) c) (also_table (re_wiring re) c) t, TRunning)) (br_tasks b)"
    by (simp add: run(7) group_go_all newGroup_def)
  fix fac assume fac: "br_facade b = Some fac"
  note pub = validated_publisher [OF run(1) fac [unfolded run(4)] run(3)]
  show "fac_Publish fac" by (rule pub(1))
  show "TPublishQueue \<in> set (br_tasks b)" using pub(2) by (simp add: run(5) run_tasks_def)
  show "TShadow i \<in> set (br_tasks b)" if "snd (fac_enginesFor fac t) = Some i" for t i
    using that routed_shadow [of "br_feed b" None t i] sh pub
    by (auto simp: fac_enginesFor_def route_engines_def split: option.splits)
qed

text \<open>
  A bridge with a shadow for its default route and a facade. The anchor answers every read with a height of five.
\<close>

definition sample_run_env :: "unit run_env" where
  "sample_run_env = \<lparr>re_prefix = (\<lambda>_. None), re_loopback = (\<lambda>_. True), re_hash = (\<lambda>_. Some (1 # replicate 31 0)),
     re_anchor = (\<lambda>_ w. (Some \<lparr>status = 200, body = Some [(''height'', JNum 5)]\<rparr>, w)), re_roots = (\<lambda>_. Inr None), re_warmed = 0,
     re_warm_live = (\<lambda>_. True), re_warm_ended = False, re_key = (\<lambda>_. LoadKey (Some 384) (Some (replicate 32 65))),
     re_ip = Some, re_same_ip = (=), re_addrs = Some [], re_wiring = sample_wiring, re_prefix_size = 36\<rparr>"

theorem started_bridge_runs_what_it_feeds_witness:
  "\<exists>b. bridge_run sample_feed_env sample_run_env (sample_config\<lparr>cfg_shadowEngine := ''http://s''\<rparr>) False () () = Inr b \<and>
     TShadow 0 \<in> set (br_tasks b) \<and> TPublishQueue \<in> set (br_tasks b) \<and> TEngineWorkers \<in> set (br_tasks b)"
proof -
  let ?c = "sample_config\<lparr>cfg_shadowEngine := ''http://s''\<rparr>"
  have v: "validate (re_prefix sample_run_env) (loopbackAddr SplitHostPort (re_loopback sample_run_env)) ?c = None"
    by (simp add: validate_def validate_engine_def validate_rest_def sample_config_def default_flags_def api_prefix_text_def
        trim_space_def is_space_def trim_right_slash_def sample_run_env_def
        ParseVerifyMode_def ParseNetwork_def ParseFinality_def FinalityIgnore_def config_verifier_def VerifyEnforce_def VerifyOff_def)
  have "1 # replicate 31 0 \<noteq> zero_hash" by code_simp
  then have a: "\<exists>s. fst (buildStore (re_hash sample_run_env) (re_anchor sample_run_env) (cfg_headerAnchor ?c) m wd ()) = Inr s" for m wd
    by (simp add: buildStore_def anchor_tip_def anchor_body_def anchor_get_def decode_header_def u32_field_def str_field_def
        New_def sample_run_env_def sample_config_def)
  have "\<not> is_space (char_of (65 :: nat))" by code_simp
  then have k: "trim_bytes (replicate 32 65) = replicate 32 65" by (simp add: trim_bytes_def Let_def)
  have f: "\<exists>f. build_feed sample_feed_env (re_wiring sample_run_env) (re_key sample_run_env) ?c = Inr f"
    by (simp add: build_feed_def build_key_def LoadKey_def Let_def k MinKeyBytes_def sample_config_def default_flags_def sample_run_env_def)
  have q: "\<exists>q. build_queue sample_run_env ?c () = Inr q"
    by (simp add: build_queue_def Let_def sample_config_def default_flags_def)
  obtain b where b: "bridge_run sample_feed_env sample_run_env ?c False () () = Inr b"
    using bridge_run_starts [OF v, where env = sample_feed_env and x = "()" and v = "()" and over = False] a f q by (elim exE) blast
  note run = bridge_run_Inr [OF b]
  have c: "cfg_mode ?c = ''all''" "cfg_shadowEngine ?c = ''http://s''" "cfg_engineRoutes ?c = []"
    by (simp_all add: sample_config_def default_flags_def)
  have w: "shadow_of (re_wiring sample_run_env) x n = 0" for x n by (simp add: sample_run_env_def sample_wiring_def)
  have sh: "fShadow (br_feed b) = Some 0" "fRoutes (br_feed b) = []"
    by (simp_all add: built_feed [OF run(2)] c w)
  then have "snd (enginesFor (br_feed b) ''a'') = Some 0" by (simp add: enginesFor_def route_engines_def)
  moreover obtain fac where "br_facade b = Some fac"
    unfolding run(4) by (simp add: build_facade_def sample_config_def default_flags_def)
  moreover have "cfg_mode ?c \<noteq> ''sink'' \<and> 0 < cfg_engineWorkers ?c" by (simp add: sample_config_def default_flags_def)
  ultimately show ?thesis using started_bridge_runs_what_it_feeds [OF b] b by blast
qed

end
