(* ===== verification/Shadow_Watch.thy ===== *)
theory Shadow_Watch
  imports Bridge_Timings
begin

text \<open>
  What an operator sees of a shadow engine (\<^verbatim>\<open>src/feed/shadow.go\<close>): the duration observed for each submit, and the
  log of mismatches, capped so that a systematic disagreement does not write a line per object. Both are beside the
  counters of \<open>Feed_Shadow\<close>; a worker's handling of a job is one step here as there.
\<close>

section \<open>Naming an object\<close>

text \<open>
  The subject of an Atomic BEEF, or the content identifier; \<open>show_hash\<close> renders a transaction identifier, \<open>cid\<close> is
  the codec's content identifier.
\<close>

definition objectTxID :: "(hash \<Rightarrow> string) \<Rightarrow> (bytes \<Rightarrow> hash) \<Rightarrow> bytes \<Rightarrow> string" where
  "objectTxID show_hash cid obj =
    (if 36 \<le> length obj \<and> take 4 obj = [1, 1, 1, 1] then show_hash (take 32 (drop 4 obj))
     else ''content:'' @ hex_encode (cid obj))"

definition shadow_route :: "'z shadow_target_scheme \<Rightarrow> string" where
  "shadow_route s = (if sName s \<noteq> [] then sName s else DefaultRoute)"

definition describe :: "adm option \<Rightarrow> string" where
  "describe ai = (case ai of None \<Rightarrow> ''none'' | Some _ \<Rightarrow> (case sets ai of (outs, coins) \<Rightarrow> ''admit['' @ outs @ ''] retain['' @ coins @ '']''))"

section \<open>The log of mismatches\<close>

record mismatch_line =
  ml_route :: string
  ml_kind :: string
  ml_txid :: string
  ml_topic :: string
  ml_detail :: "string list"

record watch_log =
  LogMismatches :: int
  logged :: int
  lines :: "mismatch_line list"

definition mismatch_limit :: "watch_log \<Rightarrow> int" where
  "mismatch_limit w = (if LogMismatches w \<le> 0 then 20 else LogMismatches w)"

definition logMismatch :: "(hash \<Rightarrow> string) \<Rightarrow> (bytes \<Rightarrow> hash) \<Rightarrow> 'z shadow_target_scheme \<Rightarrow> string \<Rightarrow> shadowJob \<Rightarrow> string list \<Rightarrow> watch_log \<Rightarrow> watch_log" where
  "logMismatch show_hash cid s kind j detail w =
    (let w1 = w\<lparr>logged := logged w + 1\<rparr> in
     if logged w1 > mismatch_limit w1 then w1
     else w1\<lparr>lines := lines w1 @ [\<lparr>ml_route = shadow_route s, ml_kind = kind, ml_txid = objectTxID show_hash cid (sj_object j),
       ml_topic = sj_topic j, ml_detail = detail\<rparr>]\<rparr>)"

section \<open>A job, watched\<close>

text \<open>The kind a job is booked under and, when it is not a match, what the log says beside it.\<close>

definition shadow_kind :: "submit_err + steak \<Rightarrow> shadowJob \<Rightarrow> string \<times> string list" where
  "shadow_kind r j = (case r of
      Inl _ \<Rightarrow> (ShadowError, [])
    | Inr steak \<Rightarrow> (case steak (sj_topic j) of
        Some (Some ai) \<Rightarrow> (Classify (sj_primary j) (Some ai), [describe (sj_primary j), describe (Some ai)])
      | _ \<Rightarrow> (ShadowError, [''no entry for the topic''])))"

definition watched_process ::
    "(hash \<Rightarrow> string) \<Rightarrow> (bytes \<Rightarrow> hash) \<Rightarrow> shadowJob \<times> (string \<Rightarrow> bytes \<Rightarrow> string \<Rightarrow> submit_err + steak) \<times> int \<Rightarrow>
     shadow_target \<times> timings \<times> watch_log \<Rightarrow> shadow_target \<times> timings \<times> watch_log" where
  "watched_process show_hash cid job st = (case (job, st) of ((j, send, d), (s, t, w)) \<Rightarrow>
     let r = send (sj_topic j) (sj_object j) (shadow_marker s j);
         (kind, detail) = shadow_kind r j in
     (shadow_process send j s,
      onShadow (sName s) (case r of Inl _ \<Rightarrow> ''error'' | Inr _ \<Rightarrow> ''ok'') d t,
      if kind \<noteq> ShadowMatch then logMismatch show_hash cid s kind j detail w else w))"

section \<open>The books agree\<close>

definition seen_of :: "string \<Rightarrow> string \<Rightarrow> timings \<Rightarrow> int list" where
  "seen_of route result t = (case t_shadow t (route, result) of None \<Rightarrow> [] | Some xs \<Rightarrow> xs)"

lemma seen_of_onShadow:
  "seen_of route result (onShadow route' result' d t) =
    (if route' = route \<and> result' = result then seen_of route result t @ [d] else seen_of route result t)"
  by (auto simp: seen_of_def onShadow_def observe_label_def)

lemma seen_of_preset: "seen_of route result (preset_shadow route newTimings) = []"
  by (auto simp: seen_of_def preset_shadow_def newTimings_def with_label_def)

lemma shadow_process_kind:
  "kinds (shadow_process send j s) =
    (let k = fst (shadow_kind (send (sj_topic j) (sj_object j) (shadow_marker s j)) j) in (kinds s)(k := kinds s k + 1))"
  "submitted (shadow_process send j s) =
    submitted s + (case send (sj_topic j) (sj_object j) (shadow_marker s j) of Inl _ \<Rightarrow> 0 | Inr _ \<Rightarrow> 1)"
  "sName (shadow_process send j s) = sName s"
  by (auto simp: shadow_process_def shadow_kind_def shadow_add_def Let_def split: sum.splits option.splits)

lemma logMismatch_simps [simp]:
  "logged (logMismatch show_hash cid s k j d w) = logged w + 1"
  "mismatch_limit (logMismatch show_hash cid s k j d w) = mismatch_limit w"
  "length (lines (logMismatch show_hash cid s k j d w)) =
    (if logged w + 1 > mismatch_limit w then length (lines w) else Suc (length (lines w)))"
  by (simp_all add: logMismatch_def mismatch_limit_def Let_def)

definition mismatched :: "shadow_target \<Rightarrow> u64" where
  "mismatched s = kinds s ShadowPrimaryOnly + kinds s ShadowShadowOnly + kinds s ShadowDiffer + kinds s ShadowError"

text \<open>Logged lines, observations and counters move together.\<close>

definition watched_ok :: "string \<Rightarrow> nat \<Rightarrow> shadow_target \<times> timings \<times> watch_log \<Rightarrow> bool" where
  "watched_ok route n st = (case st of (s, t, w) \<Rightarrow>
     sName s = route \<and> 0 \<le> logged w \<and> int (length (lines w)) = min (logged w) (mismatch_limit w) \<and>
     mismatched s = of_int (logged w) \<and> kinds s ShadowMatch + mismatched s = of_nat n \<and>
     submitted s = of_nat (length (seen_of route ''ok'' t)) \<and>
     length (seen_of route ''ok'' t) + length (seen_of route ''error'' t) = n)"

lemma shadow_kind_cases:
  "fst (shadow_kind r j) \<in> {ShadowMatch, ShadowPrimaryOnly, ShadowShadowOnly, ShadowDiffer, ShadowError}"
  by (auto simp: shadow_kind_def Classify_def Let_def split: sum.splits option.splits prod.splits)

lemma booked_kind:
  assumes "kinds s' = (kinds s)(k := kinds s k + 1)" "k \<in> {ShadowMatch, ShadowPrimaryOnly, ShadowShadowOnly, ShadowDiffer, ShadowError}"
  shows "mismatched s' = mismatched s + (if k = ShadowMatch then 0 else 1)"
    "kinds s' ShadowMatch = kinds s ShadowMatch + (if k = ShadowMatch then 1 else 0)"
  using assms by (auto simp: mismatched_def shadow_kind_defs)

lemma watched_ok_step:
  assumes "watched_ok route n st"
  shows "watched_ok route (Suc n) (watched_process show_hash cid job st)"
proof -
  obtain j send d s t w where jb: "job = (j, send, d)" and st: "st = (s, t, w)" by (metis prod_cases3)
  let ?r = "send (sj_topic j) (sj_object j) (shadow_marker s j)"
  obtain k dt where k: "shadow_kind ?r j = (k, dt)" by force
  then have kin: "k \<in> {ShadowMatch, ShadowPrimaryOnly, ShadowShadowOnly, ShadowDiffer, ShadowError}"
    using shadow_kind_cases [of ?r j] by simp
  have "kinds (shadow_process send j s) = (kinds s)(k := kinds s k + 1)" using k by (simp add: shadow_process_kind Let_def)
  note bk = booked_kind [OF this kin]
  have eq: "watched_process show_hash cid job st = (shadow_process send j s,
      onShadow (sName s) (case ?r of Inl _ \<Rightarrow> ''error'' | Inr _ \<Rightarrow> ''ok'') d t,
      if k \<noteq> ShadowMatch then logMismatch show_hash cid s k j dt w else w)"
    by (simp add: jb st watched_process_def k)
  show ?thesis using assms unfolding eq unfolding st
    by (cases ?r; cases "k = ShadowMatch")
      (simp_all add: watched_ok_def bk shadow_process_kind(2,3) seen_of_onShadow add_ac min_def)
qed

lemma watched_ok_fold:
  "watched_ok route n st \<Longrightarrow> watched_ok route (n + length js) (fold (watched_process show_hash cid) js st)"
proof (induction js arbitrary: n st)
  case (Cons j js)
  show ?case using Cons.IH [OF watched_ok_step [OF Cons.prems, of show_hash cid j]] by simp
qed simp

section \<open>Properties\<close>

text \<open>
  What the operator reads of a shadow agrees with what it did. Whatever it answered to however many jobs, the log
  holds one line per mismatch up to its limit (20 when none is set) and none past it, the counters of mismatches add
  up to the number logged or suppressed, matches and mismatches to the number of jobs, and its two histograms hold one
  duration per job, those of answered submits as many as the counter of submits says.
\<close>

theorem shadow_log_is_capped_and_true:
  assumes "kinds s0 = (\<lambda>_. 0)" "submitted s0 = 0" "logged w0 = 0" "lines w0 = []"
    and "fold (watched_process show_hash cid) js (s0, preset_shadow (sName s0) newTimings, w0) = (s, t, w)"
  shows "int (length (lines w)) = min (logged w) (mismatch_limit w) \<and> mismatched s = of_int (logged w) \<and>
    kinds s ShadowMatch + mismatched s = of_nat (length js) \<and>
    submitted s = of_nat (length (seen_of (sName s0) ''ok'' t)) \<and>
    length (seen_of (sName s0) ''ok'' t) + length (seen_of (sName s0) ''error'' t) = length js"
proof -
  have "watched_ok (sName s0) 0 (s0, preset_shadow (sName s0) newTimings, w0)"
    using assms(1-4) by (simp add: watched_ok_def mismatched_def seen_of_preset mismatch_limit_def)
  from watched_ok_fold [OF this, of js show_hash cid] show ?thesis unfolding assms(5) watched_ok_def prod.case add_0 by blast
qed

theorem shadow_log_is_capped_and_true_witness:
  "\<exists>s t w. fold (watched_process (\<lambda>_. []) (\<lambda>_. []))
      (replicate 2 (\<lparr>sj_topic = ''a'', sj_object = [7], sj_marker = [], sj_primary = None\<rparr>, (\<lambda>_ _ _. Inr (\<lambda>_. None)), 5))
      (shadow_target.truncate sample_shadow, preset_shadow (sName sample_shadow) newTimings, \<lparr>LogMismatches = 1, logged = 0, lines = []\<rparr>) = (s, t, w) \<and>
    length (lines w) = 1 \<and> mismatched s = 2"
proof -
  let ?s = "shadow_target.truncate sample_shadow" and ?w = "\<lparr>LogMismatches = 1, logged = 0, lines = []\<rparr>"
  let ?js = "replicate 2 (\<lparr>sj_topic = ''a'', sj_object = [7 :: byte], sj_marker = [], sj_primary = None\<rparr>,
    (\<lambda>(_ :: string) (_ :: bytes) (_ :: string). Inr (\<lambda>_. None) :: submit_err + steak), 5 :: int)"
  obtain s t w where r: "fold (watched_process (\<lambda>_. []) (\<lambda>_. [])) ?js (?s, preset_shadow (sName ?s) newTimings, ?w) = (s, t, w)"
    by (metis prod_cases3)
  have k: "logged w = 2" "mismatch_limit w = 1"
    using r by (auto simp: numeral_2_eq_2 watched_process_def shadow_kind_def shadow_kind_defs logMismatch_def mismatch_limit_def Let_def)
  have "kinds ?s = (\<lambda>_. 0)" "submitted ?s = 0" "sName ?s = sName sample_shadow"
    by (simp_all add: sample_shadow_def shadow_target.defs)
  with shadow_log_is_capped_and_true [OF this(1,2) _ _ r] k r show ?thesis by auto
qed

end
