(* ===== verification/Spec2Isabelle.thy ===== *)
theory Spec2Isabelle
  imports Bump_Guard Loop_Guard Bridge_Run Shadow_Watch
begin

text \<open>
  \<^bold>\<open>The overlay bridge.\<close> A process between a multicast delivery fabric and an unmodified overlay engine. Objects the
  fabric delivers are handed to the engine as ordinary submits (the feed); block headers it delivers become a header
  store that the engine and the bridge verify against (the header store and its read surface); submissions of local
  clients are answered by the engine and published once to the fabric (the facade and the up-tunnel); a guard on
  object identities keeps the two directions from feeding each other. The bridge can verify objects itself (the SPV
  verifier), compare a second engine (the shadow) and hand objects to further local services (the other targets).
  \<^verbatim>\<open>cmd/overlay-bridge\<close> reads the flags, wires these parts, runs their tasks and publishes their counters.

  \<^bold>\<open>Which theory models which part.\<close> Paths are under \<^verbatim>\<open>src/\<close>; definitions keep the source's names, with a prefix where
  two packages use the same name.

  Foundations. \<^verbatim>\<open>Bridge_Prelude\<close>: machine types, results as sums, transition systems. \<^verbatim>\<open>Go_Strings\<close>: the library
  functions on strings the code calls (trimming, splitting, decimal numbers, \<^verbatim>\<open>path.Match\<close>).

  Headers. \<^verbatim>\<open>Header_Store\<close>: \<^verbatim>\<open>headers/chain.go\<close>, the record \<open>store\<close> with its maps from hash to height, from height to
  entries and from height to the canonical hash; \<open>Observe\<close> in its three locked sections. \<^verbatim>\<open>Header_Reads\<close>: \<open>RootAt\<close>,
  \<open>HeaderForHeight\<close>, \<open>Known\<close>, \<open>HeaderByHash\<close> and the warm-up of \<^verbatim>\<open>headers/warm.go\<close>. \<^verbatim>\<open>Header_Chain\<close> and
  \<^verbatim>\<open>Header_Props\<close>: the invariants of the chain and the properties. \<^verbatim>\<open>Header_Serve\<close>: \<^verbatim>\<open>headers/tracker.go\<close>,
  \<^verbatim>\<open>headers/api.go\<close> and the remote client of \<^verbatim>\<open>headers/chainclient/client.go\<close>. \<^verbatim>\<open>Header_Anchor\<close>:
  \<^verbatim>\<open>cmd/overlay-bridge/anchor.go\<close> and the store's startup. \<^verbatim>\<open>Bump_Guard\<close>: \<^verbatim>\<open>headers/bumpguard.go\<close>.

  Feed. \<^verbatim>\<open>Feed_Route\<close>: \<^verbatim>\<open>feed/route.go\<close>. \<^verbatim>\<open>Feed_Targets\<close>: the engine client of \<^verbatim>\<open>feed/submit.go\<close> and the attempt loop.
  \<^verbatim>\<open>Feed_Dispatch\<close>: what feed and facade share. \<^verbatim>\<open>Feed_Core\<close>: \<open>Handle\<close>, \<open>process\<close>, \<open>submitOne\<close> and \<open>take\<close> of
  \<^verbatim>\<open>feed/feed.go\<close> and \<^verbatim>\<open>feed/verify.go\<close> on the record \<open>feed\<close>. \<^verbatim>\<open>Feed_Handler\<close>, \<^verbatim>\<open>Feed_Props\<close>: frames, the queue as a
  transition system, the properties. \<^verbatim>\<open>Feed_Also\<close>, \<^verbatim>\<open>Feed_Shadow\<close>: \<^verbatim>\<open>feed/also.go\<close> and \<^verbatim>\<open>feed/shadow.go\<close>;
  \<^verbatim>\<open>Shadow_Watch\<close>: the shadow's log and durations. \<^verbatim>\<open>Feed_Load\<close>: \<^verbatim>\<open>feed/load.go\<close> and \<^verbatim>\<open>feed/stats.go\<close>.

  Verification. \<^verbatim>\<open>Spv_Marker\<close>: \<^verbatim>\<open>pkg/spv/marker.go\<close> and the verdict type. \<^verbatim>\<open>Spv_Check\<close>: \<^verbatim>\<open>pkg/spv/check.go\<close> and the
  verifier of \<^verbatim>\<open>pkg/spv/spv.go\<close>. \<^verbatim>\<open>Spv_Props\<close>: what a verdict means. \<^verbatim>\<open>Spv_Work\<close>: the work counters of a verdict.

  Publication. \<^verbatim>\<open>Facade_Topics\<close>: \<^verbatim>\<open>facade/topics.go\<close>, \<^verbatim>\<open>facade/wire.go\<close>. \<^verbatim>\<open>Facade_Core\<close>, \<^verbatim>\<open>Facade_Props\<close>:
  \<^verbatim>\<open>facade/facade.go\<close>. \<^verbatim>\<open>Up_Client\<close>, \<^verbatim>\<open>Up_Props\<close>: \<^verbatim>\<open>uptunnel/uptunnel.go\<close> on the record \<open>client\<close>. \<^verbatim>\<open>Up_Queue\<close>:
  \<^verbatim>\<open>uptunnel/queue.go\<close>, its publishers and its drain as program points. \<^verbatim>\<open>Loop_Guard\<close>: \<^verbatim>\<open>guard/guard.go\<close>,
  \<^verbatim>\<open>guard/key.go\<close> and the feed and the facade over one guard.

  Process. \<^verbatim>\<open>Topics_Reconcile\<close>: \<^verbatim>\<open>topics/reconcile.go\<close>, \<^verbatim>\<open>cmd/overlay-bridge/reconcile.go\<close>. \<^verbatim>\<open>Task_Group\<close>:
  \<^verbatim>\<open>cmd/overlay-bridge/group.go\<close>. \<^verbatim>\<open>Bridge_Config\<close>: the flags, \<open>validate\<close>, and the feed and the facade built from
  them (\<^verbatim>\<open>cmd/overlay-bridge/main.go\<close>, \<^verbatim>\<open>pprof.go\<close>). \<^verbatim>\<open>Net_Addr\<close>: the address lists. \<^verbatim>\<open>Bridge_Listen\<close>: the listeners of
  the read surface, the facade, the metrics and the profiler. \<^verbatim>\<open>Metrics_Desc\<close>, \<^verbatim>\<open>Bridge_Metrics\<close>:
  \<^verbatim>\<open>cmd/overlay-bridge/collector.go\<close> and the snapshots it reads (\<^verbatim>\<open>headers/stats.go\<close> and the \<^verbatim>\<open>Stats\<close> of every
  package). \<^verbatim>\<open>Bridge_Timings\<close>: \<^verbatim>\<open>cmd/overlay-bridge/verifymetrics.go\<close>. \<^verbatim>\<open>Bridge_Run\<close>: \<open>run\<close> and \<open>main\<close>.

  \<^bold>\<open>Contracts.\<close> \<open>transition_system\<close> (a start predicate, a step relation, an invariant every step keeps) is interpreted
  by every component with state: the store's index, work, cache, options, roots and chain; the lane handler; the
  tunnel; the queue's bounds; the other target's queue and configuration; the shadow's queue; the lane and its
  workers; the busy gauges; the shed counters; the guard loop; the task group; the listeners. \<open>root_provider\<close> is what
  the tracker and the read surface ask of a store, interpreted on \<open>RootAt\<close>; \<open>confirming_sink\<close> is what the publish queue
  asks of its client, with a transition system of its own as a sublocale, interpreted on the up-tunnel's \<open>Send\<close>
  and \<open>Poll\<close>.

  \<^bold>\<open>What is shown.\<close> Headers: the canonical map is a hash-linked chain below a tip that never falls, every root served as
  known rests on a delivered header that met the work floor, the retention window, the remote client agrees with the
  tracker, and how far one bridge can anchor another. The allocation guard bounds what parsing an accepted object
  allocates and refuses no well-formed one. Feed: the queue between lane and workers is an exact bounded queue, an
  accepted delivery is queued for every elected topic, each submit is booked once, enforce mode keeps refused objects
  from every engine, retries and the drain end. Targets: bounds and accounting under every interleaving, and what the
  comparison of answers means. Verification: a passing verdict means every transaction reached is proven or valid by a
  specification that does not mention the checks' code; a merkle refusal needs a denied root; the depth reported is the
  longest chain of ancestry. Publication: the facade publishes exactly what the guard has not seen, every record a send
  accepted has its callback called once, every queued record is settled once, no publisher is left asleep, and no
  object seen is published again. Process: a validated configuration gives two sides that agree; a started bridge runs
  a worker for everything it hands objects to; the group reports the first failure; a listener task leaves no listener
  behind; a scrape is refused exactly on repeated labels; the histograms agree with the counters.

  \<^bold>\<open>Choices of the model.\<close> Integers are words of the code's width where wrap-around can matter (heights, counters,
  amounts, byte positions of the tunnel); the signed byte counters of the queues, durations and times in nanoseconds
  are unbounded. A channel is a list with a capacity, a mutex-protected section one step. A delivery through \<open>Handle\<close>, a
  worker's handling of a job and a submission through the facade are single steps of the relations that interleave
  them; publishers, drain, extra targets, the task group and the listeners are split at every point where another
  goroutine can come between. Strings are byte strings, with ASCII white space for \<^verbatim>\<open>TrimSpace\<close>. Maps whose order of
  iteration Go leaves open are walked in an order given as an argument. Metric values are exact numbers. The fuel-free
  recursions all have termination proofs: the walks of the verifier by the transactions not yet visited, the readers by
  the bytes left, the pruning and canonical loops by height.

  \<^bold>\<open>Parameters, not under \<^verbatim>\<open>src/\<close>.\<close> SHA-256; the codec of delivery records and of BEEF; merkle path arithmetic and the
  script interpreter of the SDK; the guard's registry (with the law that what is marked is known until it expires, as
  \<open>registry_law\<close>); the HTTP exchange as a transport, and JSON decoding into library types; dialling, writing and the
  kernel's send-queue reading; the text functions of \<^verbatim>\<open>net\<close> and \<^verbatim>\<open>netip\<close> that parse addresses; the clock. During one
  verification the tracker's answers do not change.

  \<^bold>\<open>Not modelled.\<close> \<^verbatim>\<open>pkg/secpverify\<close> hands one signature check to an elliptic-curve library; \<^verbatim>\<open>uptunnel/sockopt_*.go\<close> are
  system calls, whose result is the parameter \<open>unsentBytes\<close>; flag parsing, log lines other than the shadow's capped
  log, the statistics ticker and the HTTP servers themselves are I/O; the lanes' own listeners belong to another
  repository.

  \<^bold>\<open>Left to do.\<close> The lanes over the terminator's documented contract (connections, redelivery), a delivery split at its
  steps against concurrent submissions, and the expiry of the guard's entries.
\<close>

end
